(* ===== verification/Ixmap_Prelude.thy ===== *)
theory Ixmap_Prelude
  imports Main "HOL-Library.Word"
begin

text \<open>
  What every component of the development shares: the names of the machine types of the C code,
  its alignment macro and its byte order, arrays indexed by machine words, and the lemmas on words
  and lists that the component proofs use through the collections below.

  Unsigned C integers are words of their width, so that \<open>+\<close>, \<open>-\<close> and \<open>*\<close> wrap around as they do
  in C.  A C \<open>int\<close> that serves as a return code or as an index is an \<open>int\<close>; where a value is
  converted to \<open>int\<close> from an unsigned expression the conversion (\<open>sint\<close>) is written out.  Virtual
  addresses are natural numbers, bus addresses (\<open>unsigned long\<close>) are words of 64 bits.
\<close>

unbundle bit_operations_syntax

type_synonym u8 = "8 word"
type_synonym u16 = "16 word"
type_synonym u32 = "32 word"
type_synonym u64 = "64 word"
type_synonym addr = nat

named_theorems word_nat \<open>word operations read as operations on natural numbers\<close>
named_theorems inv_intro \<open>operations that keep an invariant\<close>

section \<open>Alignment\<close>

text \<open>\<open>ALIGN\<close> of \<open>lib/ixmap.h\<close>: \<open>((x) + (mask)) & ~(mask)\<close> with \<open>mask = a - 1\<close>, at the type of \<open>x\<close>.\<close>

definition ALIGN :: "'a::len word \<Rightarrow> 'a word \<Rightarrow> 'a word" where
  "ALIGN x a = (x + (a - 1)) AND NOT (a - 1)"

section \<open>Byte memory and byte order\<close>

text \<open>
  The code runs on a little-endian machine: a \<open>uint32_t\<close> read through a pointer has the byte at the
  lowest address as its least significant one, and \<open>ntohl\<close>, \<open>ntohs\<close>, \<open>htons\<close> swap bytes, while
  \<open>htole32\<close> and \<open>le16toh\<close> are the identity.
\<close>

definition load16 :: "u8 list \<Rightarrow> nat \<Rightarrow> u16" where
  "load16 m a = ucast (m ! a) OR push_bit 8 (ucast (m ! (a + 1)))"

definition load32 :: "u8 list \<Rightarrow> nat \<Rightarrow> u32" where
  "load32 m a = ucast (m ! a) OR push_bit 8 (ucast (m ! (a + 1)))
     OR push_bit 16 (ucast (m ! (a + 2))) OR push_bit 24 (ucast (m ! (a + 3)))"

definition load64 :: "u8 list \<Rightarrow> nat \<Rightarrow> u64" where
  "load64 m a = ucast (load32 m a) OR push_bit 32 (ucast (load32 m (a + 4)))"

definition ntohs :: "u16 \<Rightarrow> u16" where
  "ntohs x = push_bit 8 x OR drop_bit 8 x"

definition ntohl :: "u32 \<Rightarrow> u32" where
  "ntohl x = push_bit 24 (x AND 0xFF) OR push_bit 8 (x AND 0xFF00)
     OR drop_bit 8 (x AND 0xFF0000) OR drop_bit 24 x"

section \<open>Lemmas on words\<close>

lemma unat_less_if [word_nat]: "(x < y) = (unat x < unat y)"
  by (rule word_less_nat_alt)

lemma unat_le_if [word_nat]: "(x \<le> y) = (unat x \<le> unat y)"
  by (rule word_le_nat_alt)

lemma unat_eq_if [word_nat]: "(x = y) = (unat x = unat y)"
  by (rule word_unat_eq_iff)

lemma unat_plus_no_wrap:
  fixes x y :: "'a::len word"
  assumes "unat x + unat y < 2 ^ LENGTH('a)"
  shows "unat (x + y) = unat x + unat y"
  using assms by (simp add: unat_word_ariths)

lemma unat_minus_no_wrap:
  fixes x y :: "'a::len word"
  assumes "unat y \<le> unat x"
  shows "unat (x - y) = unat x - unat y"
  using assms by (simp add: unat_sub word_le_nat_alt)

lemma unat_times_no_wrap:
  fixes x y :: "'a::len word"
  assumes "unat x * unat y < 2 ^ LENGTH('a)"
  shows "unat (x * y) = unat x * unat y"
  using assms by (simp add: unat_word_ariths)

lemma unat_Suc_no_wrap:
  fixes x :: "'a::len word"
  assumes "Suc (unat x) < 2 ^ LENGTH('a)"
  shows "unat (x + 1) = Suc (unat x)"
  using assms by (simp add: unat_word_ariths)

lemma unat_bound_u8 [simp]: "unat (x :: u8) < 256"
  using unsigned_less [of x, where ?'a = nat] by simp

lemma unat_bound_u16 [simp]: "unat (x :: u16) < 65536"
  using unsigned_less [of x, where ?'a = nat] by simp

lemma unat_bound_u32 [simp]: "unat (x :: u32) < 4294967296"
  using unsigned_less [of x, where ?'a = nat] by simp

lemma unat_bound_u64 [simp]: "unat (x :: u64) < 18446744073709551616"
  using unsigned_less [of x, where ?'a = nat] by simp

lemma unat_ucast_mod: "unat (ucast (x :: 'a::len word) :: 'b::len word) = unat x mod 2 ^ LENGTH('b)"
  by (simp add: unsigned_ucast_eq take_bit_eq_mod)

lemma unat_ucast_widen [simp]:
  fixes x :: "'a::len word"
  assumes "LENGTH('a) \<le> LENGTH('b::len)"
  shows "unat (ucast x :: 'b word) = unat x"
proof -
  have "unat x < 2 ^ LENGTH('a)" by (rule unsigned_less)
  also have "(2::nat) ^ LENGTH('a) \<le> 2 ^ LENGTH('b)" using assms by simp
  finally show ?thesis by (simp add: unat_ucast_mod)
qed

lemma ucast_narrow_widen [simp]:
  fixes x :: "'a::len word"
  assumes "LENGTH('a) \<le> LENGTH('b::len)"
  shows "ucast (ucast x :: 'b word) = x"
proof -
  have "unat (ucast (ucast x :: 'b word) :: 'a word) = unat x"
    using assms unsigned_less [of x, where ?'a = nat] by (simp add: unat_ucast_mod [where 'b = 'a])
  then show ?thesis by (simp add: word_unat_eq_iff)
qed

lemma sint_small:
  assumes "unat (w :: u32) < 2 ^ 31"
  shows "sint w = int (unat w)"
proof -
  have "int (unat w) < int (2 ^ 31)" using assms by (simp only: of_nat_less_iff)
  then have "uint w < 2 ^ 31" by simp
  moreover have "- (2 ^ 31) \<le> uint w" by (rule order_trans [OF _ uint_ge_0]) simp
  ultimately have "signed_take_bit 31 (uint w) = uint w" by (intro signed_take_bit_int_eq_self)
  then have "sint w = uint w" by (simp add: sint_uint)
  then show ?thesis by simp
qed

lemma bit_imp_le_unat:
  fixes w :: "'a::len word"
  assumes "bit w n"
  shows "2 ^ n \<le> unat w"
proof -
  have "bit (unat w) n" using assms by (simp add: bit_unsigned_iff)
  then have "odd (unat w div 2 ^ n)" by (simp add: bit_iff_odd)
  then have "unat w div 2 ^ n \<noteq> 0" by (metis even_zero)
  then show ?thesis by (simp add: div_eq_0_iff)
qed

lemma not_bit_if_less:
  fixes w :: "'a::len word"
  assumes "unat w < 2 ^ k" "k \<le> n"
  shows "\<not> bit w n"
proof
  assume "bit w n"
  then have "2 ^ n \<le> unat w" by (rule bit_imp_le_unat)
  moreover have "(2::nat) ^ k \<le> 2 ^ n" using assms(2) by (intro power_increasing) auto
  ultimately show False using assms(1) by simp
qed

text \<open>Two 32-bit words side by side in a 64-bit word.\<close>

lemma word_join_low [simp]: "(ucast (ucast (x :: u32) OR push_bit 32 (ucast (y :: u32)) :: u64) :: u32) = x"
  by (rule bit_word_eqI) (auto simp: bit_simps)

lemma word_join_high:
  "(ucast (drop_bit 32 (ucast (x :: u32) OR push_bit 32 (ucast (y :: u32)) :: u64)) :: u32) = y"
  by (rule bit_word_eqI) (auto simp: bit_simps dest: bit_imp_le_length)

text \<open>Clearing the low bits rounds down to a multiple of a power of two.\<close>

lemma and_not_mask_eq: "(w :: 'a::len word) AND NOT (mask n) = w - take_bit n w"
proof -
  have "push_bit n (drop_bit n w) = w AND NOT (mask n)"
    by (rule bit_word_eqI) (auto simp: bit_simps)
  then show ?thesis using bits_ident [of n w] by (simp add: eq_diff_eq)
qed

lemma unat_and_not_mask: "unat ((w :: 'a::len word) AND NOT (mask n)) = unat w div 2 ^ n * 2 ^ n"
proof -
  have "unat (take_bit n w) = take_bit n (unat w)" by (simp add: unsigned_take_bit_eq)
  then have t: "unat (take_bit n w) = unat w mod 2 ^ n" by (simp only: take_bit_eq_mod)
  then have "unat (w - take_bit n w) = unat w - unat w mod 2 ^ n"
    by (simp add: unat_sub_if')
  then show ?thesis by (simp add: and_not_mask_eq minus_mod_eq_div_mult)
qed

lemma unat_ALIGN:
  fixes x a :: "'a::len word"
  assumes "a = 2 ^ n" "unat x + 2 ^ n \<le> 2 ^ LENGTH('a)" "n < LENGTH('a)"
  shows "unat (ALIGN x a) = (unat x + 2 ^ n - 1) div 2 ^ n * 2 ^ n"
proof -
  have m: "a - 1 = mask n" using assms(1) by (simp add: mask_eq_decr_exp)
  have "(2 :: nat) ^ n < 2 ^ LENGTH('a)" using assms(3) by simp
  then have "unat (of_nat (2 ^ n - 1) :: 'a word) = 2 ^ n - 1"
    by (simp only: unat_of_nat mod_less less_imp_diff_less)
  moreover have "of_nat (2 ^ n - 1) = (mask n :: 'a word)" by (simp add: mask_eq_decr_exp of_nat_diff)
  ultimately have "unat (mask n :: 'a word) = 2 ^ n - 1" by simp
  moreover have one: "(1::nat) \<le> 2 ^ n" by simp
  then have "unat x + (2 ^ n - 1) < 2 ^ LENGTH('a)" using assms(2) by linarith
  ultimately have "unat (x + (a - 1)) = unat x + (2 ^ n - 1)"
    unfolding m using unat_plus_no_wrap [of x "mask n"] by simp
  then have "unat (x + (a - 1)) = unat x + 2 ^ n - 1" using one by linarith
  then show ?thesis unfolding ALIGN_def m by (simp add: unat_and_not_mask)
qed

section \<open>Loops\<close>

text \<open>A \<open>for\<close> loop over a list of values, which stops where a step has no result.\<close>

fun for_each :: "('i \<Rightarrow> 's \<Rightarrow> 's option) \<Rightarrow> 'i list \<Rightarrow> 's \<Rightarrow> 's option" where
  "for_each f [] s = Some s"
| "for_each f (i # ks) s = Option.bind (f i s) (for_each f ks)"

lemma for_each_cong [fundef_cong]:
  "xs = ys \<Longrightarrow> (\<And>i s. i \<in> set ys \<Longrightarrow> f i s = g i s) \<Longrightarrow> for_each f xs = for_each g ys"
proof -
  have "for_each f xs s = for_each g xs s" if "\<And>i s. i \<in> set xs \<Longrightarrow> f i s = g i s" for s
    using that by (induction xs arbitrary: s) (auto intro!: bind_option_cong)
  then show "xs = ys \<Longrightarrow> (\<And>i s. i \<in> set ys \<Longrightarrow> f i s = g i s) \<Longrightarrow> for_each f xs = for_each g ys" by blast
qed

end
