(* ===== verification/List_H.thy ===== *)
theory List_H
  imports Ixmap_Prelude "HOL-Library.Multiset"
begin

text \<open>
  The intrusive lists of \<open>src/src/linux/list.h\<close> at the level of pointers.  The memory maps the address
  of a pointer-sized cell to its value.  A \<open>list_head\<close> at \<open>p\<close> has \<open>next\<close> in the cell \<open>p\<close> and \<open>prev\<close> in
  the cell \<open>p + 8\<close>; a \<open>hlist_node\<close> at \<open>p\<close> has \<open>next\<close> in \<open>p\<close> and \<open>pprev\<close> in \<open>p + 8\<close>; a \<open>hlist_head\<close> at
  \<open>p\<close> has \<open>first\<close> in \<open>p\<close>; \<open>NULL\<close> is 0.  The functions whose C names start with two underscores have
  the prefix \<open>raw\<close>.  \<open>clist\<close> and \<open>hlist\<close> say which list of nodes a head represents; every operation is
  shown to be the list operation it is named after, on these representations.
\<close>

type_synonym mem = "addr \<Rightarrow> addr"

section \<open>Operations on list_head\<close>

text \<open>The address of the second member of a node, \<open>prev\<close> or \<open>pprev\<close>.\<close>

definition prev_of :: "addr \<Rightarrow> addr" where
  "prev_of p = p + 8"

definition LIST_POISON1 :: addr where "LIST_POISON1 = 0x00100100"
definition LIST_POISON2 :: addr where "LIST_POISON2 = 0x00200200"

definition INIT_LIST_HEAD :: "mem \<Rightarrow> addr \<Rightarrow> mem" where
  "INIT_LIST_HEAD m l = (let m1 = m(l := l) in m1(prev_of l := l))"

definition raw_list_add :: "mem \<Rightarrow> addr \<Rightarrow> addr \<Rightarrow> addr \<Rightarrow> mem" where
  "raw_list_add m new prev next =
     (let m1 = m(prev_of next := new); m2 = m1(new := next); m3 = m2(prev_of new := prev) in m3(prev := new))"

definition list_add :: "mem \<Rightarrow> addr \<Rightarrow> addr \<Rightarrow> mem" where
  "list_add m new h = raw_list_add m new h (m h)"

definition list_add_tail :: "mem \<Rightarrow> addr \<Rightarrow> addr \<Rightarrow> mem" where
  "list_add_tail m new h = raw_list_add m new (m (prev_of h)) h"

definition raw_list_del :: "mem \<Rightarrow> addr \<Rightarrow> addr \<Rightarrow> mem" where
  "raw_list_del m prev next = (let m1 = m(prev_of next := prev) in m1(prev := next))"

definition raw_list_del_entry :: "mem \<Rightarrow> addr \<Rightarrow> mem" where
  "raw_list_del_entry m e = raw_list_del m (m (prev_of e)) (m e)"

definition list_del :: "mem \<Rightarrow> addr \<Rightarrow> mem" where
  "list_del m e = (let m1 = raw_list_del m (m (prev_of e)) (m e); m2 = m1(e := LIST_POISON1)
     in m2(prev_of e := LIST_POISON2))"

definition list_replace :: "mem \<Rightarrow> addr \<Rightarrow> addr \<Rightarrow> mem" where
  "list_replace m old new =
     (let m1 = m(new := m old); m2 = m1(prev_of (m1 new) := new); m3 = m2(prev_of new := m2 (prev_of old))
      in m3(m3 (prev_of new) := new))"

definition list_replace_init :: "mem \<Rightarrow> addr \<Rightarrow> addr \<Rightarrow> mem" where
  "list_replace_init m old new = INIT_LIST_HEAD (list_replace m old new) old"

definition list_del_init :: "mem \<Rightarrow> addr \<Rightarrow> mem" where
  "list_del_init m e = INIT_LIST_HEAD (raw_list_del_entry m e) e"

definition list_move :: "mem \<Rightarrow> addr \<Rightarrow> addr \<Rightarrow> mem" where
  "list_move m l h = list_add (raw_list_del_entry m l) l h"

definition list_move_tail :: "mem \<Rightarrow> addr \<Rightarrow> addr \<Rightarrow> mem" where
  "list_move_tail m l h = list_add_tail (raw_list_del_entry m l) l h"

definition list_is_last :: "mem \<Rightarrow> addr \<Rightarrow> addr \<Rightarrow> bool" where
  "list_is_last m l h \<longleftrightarrow> m l = h"

definition list_empty :: "mem \<Rightarrow> addr \<Rightarrow> bool" where
  "list_empty m h \<longleftrightarrow> m h = h"

definition list_empty_careful :: "mem \<Rightarrow> addr \<Rightarrow> bool" where
  "list_empty_careful m h \<longleftrightarrow> (let next = m h in next = h \<and> next = m (prev_of h))"

definition list_rotate_left :: "mem \<Rightarrow> addr \<Rightarrow> mem" where
  "list_rotate_left m h = (if \<not> list_empty m h then list_move_tail m (m h) h else m)"

definition list_is_singular :: "mem \<Rightarrow> addr \<Rightarrow> bool" where
  "list_is_singular m h \<longleftrightarrow> \<not> list_empty m h \<and> m h = m (prev_of h)"

definition raw_list_cut_position :: "mem \<Rightarrow> addr \<Rightarrow> addr \<Rightarrow> addr \<Rightarrow> mem" where
  "raw_list_cut_position m l h e =
     (let new_first = m e; m1 = m(l := m h); m2 = m1(prev_of (m1 l) := l); m3 = m2(prev_of l := e);
          m4 = m3(e := l); m5 = m4(h := new_first) in m5(prev_of new_first := h))"

definition list_cut_position :: "mem \<Rightarrow> addr \<Rightarrow> addr \<Rightarrow> addr \<Rightarrow> mem" where
  "list_cut_position m l h e =
     (if list_empty m h then m
      else if list_is_singular m h \<and> (m h \<noteq> e \<and> h \<noteq> e) then m
      else if e = h then INIT_LIST_HEAD m l
      else raw_list_cut_position m l h e)"

definition raw_list_splice :: "mem \<Rightarrow> addr \<Rightarrow> addr \<Rightarrow> addr \<Rightarrow> mem" where
  "raw_list_splice m l prev next =
     (let first = m l; last = m (prev_of l); m1 = m(prev_of first := prev); m2 = m1(prev := first);
          m3 = m2(last := next) in m3(prev_of next := last))"

definition list_splice :: "mem \<Rightarrow> addr \<Rightarrow> addr \<Rightarrow> mem" where
  "list_splice m l h = (if \<not> list_empty m l then raw_list_splice m l h (m h) else m)"

definition list_splice_tail :: "mem \<Rightarrow> addr \<Rightarrow> addr \<Rightarrow> mem" where
  "list_splice_tail m l h = (if \<not> list_empty m l then raw_list_splice m l (m (prev_of h)) h else m)"

definition list_splice_init :: "mem \<Rightarrow> addr \<Rightarrow> addr \<Rightarrow> mem" where
  "list_splice_init m l h =
     (if \<not> list_empty m l then INIT_LIST_HEAD (raw_list_splice m l h (m h)) l else m)"

definition list_splice_tail_init :: "mem \<Rightarrow> addr \<Rightarrow> addr \<Rightarrow> mem" where
  "list_splice_tail_init m l h =
     (if \<not> list_empty m l then INIT_LIST_HEAD (raw_list_splice m l (m (prev_of h)) h) l else m)"

text \<open>
  The traversals \<open>list_for_each\<close> and \<open>list_for_each_prev\<close>: the nodes visited, in order; the bound on
  the number of steps is \<open>n\<close>, and \<open>None\<close> means the walk did not come back to the head within it.
\<close>

fun list_for_each_from :: "nat \<Rightarrow> mem \<Rightarrow> addr \<Rightarrow> addr \<Rightarrow> addr list option" where
  "list_for_each_from 0 m pos h = (if pos = h then Some [] else None)"
| "list_for_each_from (Suc n) m pos h =
     (if pos = h then Some [] else map_option ((#) pos) (list_for_each_from n m (m pos) h))"

definition list_for_each :: "nat \<Rightarrow> mem \<Rightarrow> addr \<Rightarrow> addr list option" where
  "list_for_each n m h = list_for_each_from n m (m h) h"

fun list_for_each_prev_from :: "nat \<Rightarrow> mem \<Rightarrow> addr \<Rightarrow> addr \<Rightarrow> addr list option" where
  "list_for_each_prev_from 0 m pos h = (if pos = h then Some [] else None)"
| "list_for_each_prev_from (Suc n) m pos h =
     (if pos = h then Some [] else map_option ((#) pos) (list_for_each_prev_from n m (m (prev_of pos)) h))"

definition list_for_each_prev :: "nat \<Rightarrow> mem \<Rightarrow> addr \<Rightarrow> addr list option" where
  "list_for_each_prev n m h = list_for_each_prev_from n m (m (prev_of h)) h"

section \<open>Operations on hlist\<close>

definition INIT_HLIST_HEAD :: "mem \<Rightarrow> addr \<Rightarrow> mem" where
  "INIT_HLIST_HEAD m h = m(h := 0)"

definition INIT_HLIST_NODE :: "mem \<Rightarrow> addr \<Rightarrow> mem" where
  "INIT_HLIST_NODE m n = (let m1 = m(n := 0) in m1(prev_of n := 0))"

definition hlist_unhashed :: "mem \<Rightarrow> addr \<Rightarrow> bool" where
  "hlist_unhashed m n \<longleftrightarrow> m (prev_of n) = 0"

definition hlist_empty :: "mem \<Rightarrow> addr \<Rightarrow> bool" where
  "hlist_empty m h \<longleftrightarrow> m h = 0"

definition raw_hlist_del :: "mem \<Rightarrow> addr \<Rightarrow> mem" where
  "raw_hlist_del m n =
     (let next = m n; pprev = m (prev_of n); m1 = m(pprev := next)
      in if next \<noteq> 0 then m1(prev_of next := pprev) else m1)"

definition hlist_del :: "mem \<Rightarrow> addr \<Rightarrow> mem" where
  "hlist_del m n = (let m1 = raw_hlist_del m n; m2 = m1(n := LIST_POISON1) in m2(prev_of n := LIST_POISON2))"

definition hlist_del_init :: "mem \<Rightarrow> addr \<Rightarrow> mem" where
  "hlist_del_init m n = (if \<not> hlist_unhashed m n then INIT_HLIST_NODE (raw_hlist_del m n) n else m)"

definition hlist_add_head :: "mem \<Rightarrow> addr \<Rightarrow> addr \<Rightarrow> mem" where
  "hlist_add_head m n h =
     (let first = m h; m1 = m(n := first); m2 = (if first \<noteq> 0 then m1(prev_of first := n) else m1);
          m3 = m2(h := n) in m3(prev_of n := h))"

definition hlist_add_before :: "mem \<Rightarrow> addr \<Rightarrow> addr \<Rightarrow> mem" where
  "hlist_add_before m n next =
     (let m1 = m(prev_of n := m (prev_of next)); m2 = m1(n := next); m3 = m2(prev_of next := n)
      in m3(m3 (prev_of n) := n))"

definition hlist_add_behind :: "mem \<Rightarrow> addr \<Rightarrow> addr \<Rightarrow> mem" where
  "hlist_add_behind m n prev =
     (let m1 = m(n := m prev); m2 = m1(prev := n); m3 = m2(prev_of n := prev)
      in if m3 n \<noteq> 0 then m3(prev_of (m3 n) := n) else m3)"

definition hlist_add_fake :: "mem \<Rightarrow> addr \<Rightarrow> mem" where
  "hlist_add_fake m n = m(prev_of n := n)"

definition hlist_move_list :: "mem \<Rightarrow> addr \<Rightarrow> addr \<Rightarrow> mem" where
  "hlist_move_list m old new =
     (let m1 = m(new := m old); m2 = (if m1 new \<noteq> 0 then m1(prev_of (m1 new) := new) else m1)
      in m2(old := 0))"

text \<open>The traversal \<open>hlist_for_each\<close> with a bound on its steps.\<close>

fun hlist_for_each_from :: "nat \<Rightarrow> mem \<Rightarrow> addr \<Rightarrow> addr list option" where
  "hlist_for_each_from 0 m pos = (if pos = 0 then Some [] else None)"
| "hlist_for_each_from (Suc n) m pos =
     (if pos = 0 then Some [] else map_option ((#) pos) (hlist_for_each_from n m (m pos)))"

definition hlist_for_each :: "nat \<Rightarrow> mem \<Rightarrow> addr \<Rightarrow> addr list option" where
  "hlist_for_each n m h = hlist_for_each_from n m (m h)"

section \<open>Circular lists\<close>

fun cells :: "addr list \<Rightarrow> addr list" where
  "cells [] = []"
| "cells (p # ps) = p # (prev_of p) # cells ps"

fun links :: "mem \<Rightarrow> addr list \<Rightarrow> bool" where
  "links m (a # b # ps) \<longleftrightarrow> m a = b \<and> m (prev_of b) = a \<and> links m (b # ps)"
| "links m ps \<longleftrightarrow> True"

definition clist :: "mem \<Rightarrow> addr \<Rightarrow> addr list \<Rightarrow> bool" where
  "clist m h xs \<longleftrightarrow> links m (h # xs @ [h]) \<and> distinct (cells (h # xs))"

lemma prev_of_simps [simp]: "prev_of p = prev_of q \<longleftrightarrow> p = q" "prev_of p \<noteq> p" "p \<noteq> prev_of p"
  by (auto simp: prev_of_def)

lemma cells_append [simp]: "cells (xs @ ys) = cells xs @ cells ys"
  by (induction xs) auto

lemma in_cells: "p \<in> set (cells xs) \<longleftrightarrow> p \<in> set xs \<or> (\<exists>q \<in> set xs. p = prev_of q)"
  by (induction xs) auto

lemma distinct_cells_distinct: "distinct (cells xs) \<Longrightarrow> distinct xs"
  by (induction xs) (auto simp: in_cells)

lemma links_append:
  "xs \<noteq> [] \<Longrightarrow> ys \<noteq> [] \<Longrightarrow> links m (xs @ ys) \<longleftrightarrow>
     links m xs \<and> m (last xs) = hd ys \<and> m (prev_of (hd ys)) = last xs \<and> links m ys"
proof (induction xs)
  case (Cons x xs)
  then show ?case by (cases xs; cases ys) auto
qed simp

lemma links_cong:
  assumes "\<And>p. p \<in> set (butlast ps) \<Longrightarrow> m' p = m p" "\<And>p. p \<in> set (tl ps) \<Longrightarrow> m' (prev_of p) = m (prev_of p)"
  shows "links m' ps = links m ps"
  using assms by (induction m ps rule: links.induct) (auto split: if_splits)

lemma clist_split:
  "links m (h # xs @ ys @ [h]) \<longleftrightarrow> links m (h # xs) \<and> m (last (h # xs)) = hd (ys @ [h]) \<and>
     m (prev_of (hd (ys @ [h]))) = last (h # xs) \<and> links m (ys @ [h])"
  using links_append [of "h # xs" "ys @ [h]" m] by simp

lemma links_agree:
  assumes "\<forall>p \<in> set (butlast ps) \<union> (\<lambda>p. prev_of p) ` set (tl ps). m' p = m p"
  shows "links m' ps = links m ps"
  using assms by (intro links_cong) auto

lemma links_upd:
  "c \<notin> set (butlast ps) \<Longrightarrow> c \<notin> (\<lambda>p. prev_of p) ` set (tl ps) \<Longrightarrow> links (m(c := v)) ps = links m ps"
  by (rule links_cong) auto

lemma cells_disjoint:
  assumes "distinct (cells ps)" "a \<in> set ps" "b \<in> set ps"
  shows "a \<noteq> prev_of b"
  using assms by (induction ps) (auto simp: in_cells)

lemma cells_perm: "mset xs = mset ys \<Longrightarrow> distinct (cells xs) = distinct (cells ys)"
proof -
  assume "mset xs = mset ys"
  moreover have "mset (cells zs) = mset zs + image_mset (\<lambda>p. prev_of p) (mset zs)" for zs
    by (induction zs) auto
  ultimately have "mset (cells xs) = mset (cells ys)" by simp
  then show ?thesis by (metis mset_eq_imp_distinct_iff)
qed

text \<open>A list is linked the same way before and after a store outside its nodes.\<close>

lemma clist_frame:
  assumes "\<And>p. p \<in> set (cells (h # xs)) \<Longrightarrow> m' p = m p"
  shows "clist m' h xs = clist m h xs"
proof -
  have "links m' (h # xs @ [h]) = links m (h # xs @ [h])"
    by (rule links_cong) (use assms in \<open>auto simp: in_cells butlast_append\<close>)
  then show ?thesis by (simp add: clist_def)
qed

lemma hd_snoc: "hd (ys @ [h]) = (case ys of [] \<Rightarrow> h | y # _ \<Rightarrow> y)"
  by (cases ys) auto

lemma clist_next: "clist m h (ys @ e # zs) \<Longrightarrow> m e = hd (zs @ [h]) \<and> m (prev_of e) = last (h # ys)"
  using clist_split [of m h ys "e # zs"] links_append [of "[e]" "zs @ [h]" m] by (simp add: clist_def)

lemma clist_head: "clist m h xs \<Longrightarrow> m h = hd (xs @ [h]) \<and> m (prev_of h) = last (h # xs)"
  using clist_split [of m h "[]" xs] clist_split [of m h xs "[]"] by (simp add: clist_def)

lemma clist_distinct: "clist m h xs \<Longrightarrow> distinct (h # xs)"
  by (auto simp: clist_def simp del: cells.simps dest!: distinct_cells_distinct)

lemma set_butlast_distinct: "distinct xs \<Longrightarrow> xs \<noteq> [] \<Longrightarrow> set (butlast xs) = set xs - {last xs}"
  by (induction xs rule: rev_induct) auto

lemma set_tl_distinct: "distinct xs \<Longrightarrow> xs \<noteq> [] \<Longrightarrow> set (tl xs) = set xs - {hd xs}"
  by (cases xs) auto

lemma seg_ends: "last (h # ys) \<in> set (h # ys)" "hd (zs @ [h]) \<in> set (h # zs)"
  "set (tl (zs @ [h])) \<subseteq> set (h # zs)"
  by (metis last_in_set list.distinct(1)) (cases zs, auto)+

text \<open>
  Every operation sets some links \<open>a \<rightarrow> b\<close>, that is \<open>a->next = b\<close> and \<open>b->prev = a\<close>.  Setting a link joins
  the path that ends in \<open>a\<close> to the path that starts with \<open>b\<close>.
\<close>

definition link :: "mem \<Rightarrow> addr \<Rightarrow> addr \<Rightarrow> mem" where
  "link m a b = m(prev_of b := a, a := b)"

definition apart :: "addr set \<Rightarrow> bool" where
  "apart S \<longleftrightarrow> (\<forall>p \<in> S. \<forall>q \<in> S. p \<noteq> prev_of q)"

lemma apart_iff: "apart S \<longleftrightarrow> (\<forall>p \<in> S. \<forall>q \<in> S. p \<noteq> prev_of q \<and> prev_of q \<noteq> p)"
  by (auto simp: apart_def)

lemma apart_cells: "distinct (cells ps) \<Longrightarrow> apart (set ps)"
  using cells_disjoint by (auto simp: apart_def)

lemma apart_subset: "apart S \<Longrightarrow> T \<subseteq> S \<Longrightarrow> apart T"
  by (auto simp: apart_def)

lemma link_at:
  assumes "apart S" "a \<in> S" "b \<in> S"
  shows "link m a b a = b" "link m a b (prev_of b) = a"
    "p \<in> S \<Longrightarrow> p \<noteq> a \<Longrightarrow> link m a b p = m p"
    "p \<in> S \<Longrightarrow> p \<noteq> b \<Longrightarrow> link m a b (prev_of p) = m (prev_of p)"
  using assms by (auto simp: link_def apart_def)

lemma links_link_frame:
  assumes "apart S" "a \<in> S" "b \<in> S" "set P \<subseteq> S" "a \<notin> set (butlast P)" "b \<notin> set (tl P)"
  shows "links (link m a b) P = links m P"
proof (rule links_cong)
  fix p assume p: "p \<in> set (butlast P)"
  then have "p \<in> S" "p \<noteq> a" using assms(4,5) by (auto dest: in_set_butlastD)
  then show "link m a b p = m p" by (rule link_at(3) [OF assms(1-3)])
next
  fix p assume p: "p \<in> set (tl P)"
  then have "p \<in> S" "p \<noteq> b" using assms(4,6) by (cases P; auto)+
  then show "link m a b (prev_of p) = m (prev_of p)" by (rule link_at(4) [OF assms(1-3)])
qed

lemma links_link_join:
  assumes "apart S" "P \<noteq> []" "Q \<noteq> []" "set P \<subseteq> S" "set Q \<subseteq> S" "a = last P" "b = hd Q"
    "a \<notin> set (butlast P)" "b \<notin> set (tl P)" "a \<notin> set (butlast Q)" "b \<notin> set (tl Q)"
  shows "links (link m a b) (P @ Q) \<longleftrightarrow> links m P \<and> links m Q"
proof -
  have S: "a \<in> S" "b \<in> S" using assms(2-7) by auto
  show ?thesis
    using links_append [OF assms(2,3), of "link m a b"] link_at(1,2) [OF assms(1) S]
      links_link_frame [OF assms(1) S assms(4,8,9)] links_link_frame [OF assms(1) S assms(5,10,11)] assms(6,7)
    by auto
qed

lemma last_notin_butlast: "distinct xs \<Longrightarrow> last xs \<notin> set (butlast xs)"
  by (cases "xs = []") (auto simp: set_butlast_distinct)

lemma hd_notin_tl: "distinct xs \<Longrightarrow> hd xs \<notin> set (tl xs)"
  by (cases xs) auto

text \<open>The two paths of a circular list cut between \<open>ys\<close> and \<open>zs\<close>, and the conditions to join them.\<close>

lemma seg_conditions:
  assumes "distinct (h # ys @ zs)"
  shows "last (h # ys) \<notin> set (butlast (h # ys))" "hd (zs @ [h]) \<notin> set (tl (h # ys))"
    "last (h # ys) \<notin> set (butlast (zs @ [h]))" "hd (zs @ [h]) \<notin> set (tl (zs @ [h]))"
proof -
  show "last (h # ys) \<notin> set (butlast (h # ys))" using assms by (intro last_notin_butlast) auto
  show "hd (zs @ [h]) \<notin> set (tl (zs @ [h]))" using assms by (intro hd_notin_tl) auto
  have "last (h # ys) \<notin> set zs" using assms seg_ends(1) [of h ys] by (auto simp del: last.simps)
  then show "last (h # ys) \<notin> set (butlast (zs @ [h]))" by simp
  show "hd (zs @ [h]) \<notin> set (tl (h # ys))" using assms by (cases zs) auto
qed

lemma raw_list_add_link:
  assumes "apart {new, a, b}" "a \<noteq> new" "b \<noteq> new"
  shows "raw_list_add m new a b = link (link m a new) new b"
  using assms by (auto simp: raw_list_add_def link_def Let_def fun_eq_iff apart_def)

lemma raw_list_del_link: "raw_list_del m a b = link m a b"
  by (simp add: raw_list_del_def link_def)

lemma raw_list_add_clist:
  assumes "clist m h (ys @ zs)" "distinct (cells (new # h # ys @ zs))"
  shows "clist (raw_list_add m new (last (h # ys)) (hd (zs @ [h]))) h (ys @ new # zs)"
proof -
  let ?S = "set (new # h # ys @ zs)" and ?a = "last (h # ys)" and ?b = "hd (zs @ [h])"
  have S: "apart ?S" using assms(2) by (rule apart_cells)
  have d: "distinct (new # h # ys @ zs)" using distinct_cells_distinct [OF assms(2)] .
  note c = seg_conditions [of h ys zs]
  have e: "?a \<in> set (h # ys)" "?b \<in> set (h # zs)" by (rule seg_ends)+
  then have ab: "?a \<in> ?S" "?b \<in> ?S" "?a \<noteq> new" "?b \<noteq> new" using d by auto
  have l: "links m (h # ys)" "links m (zs @ [h])" using assms(1) by (simp_all add: clist_def clist_split)
  have "links (link m ?a new) ((h # ys) @ [new])"
    by (subst links_link_join [OF S]) (use d c l in auto)
  moreover have "links (link m ?a new) (zs @ [h])"
    by (subst links_link_frame [OF S]) (use d c l ab seg_ends(3) [of zs h] in auto)
  ultimately have "links (link (link m ?a new) new ?b) (((h # ys) @ [new]) @ (zs @ [h]))"
    by (subst links_link_join [OF S]) (use d c ab in auto)
  moreover have "raw_list_add m new ?a ?b = link (link m ?a new) new ?b"
    using ab by (intro raw_list_add_link apart_subset [OF S]) auto
  moreover have "distinct (cells (h # ys @ new # zs))"
    using assms(2) cells_perm [of "new # h # ys @ zs" "h # ys @ new # zs"] by simp
  ultimately show ?thesis by (simp add: clist_def)
qed

lemma clist_parts:
  assumes "clist m h (ys @ zs)"
  shows "links m (h # ys)" "links m (zs @ [h])" "apart (set (h # ys @ zs))" "distinct (h # ys @ zs)"
  using assms clist_distinct [OF assms] apart_cells [of "h # ys @ zs"]
  by (simp_all add: clist_def clist_split)

lemma clist_parts_mid:
  assumes "clist m h (ys @ e # zs)"
  shows "links m (h # ys)" "links m (zs @ [h])" "apart (set (h # ys @ e # zs))" "distinct (h # ys @ e # zs)"
  using clist_parts [OF assms] links_append [of "[e]" "zs @ [h]" m] by simp_all

lemma cells_sub: "distinct (cells (xs @ e # ys)) \<Longrightarrow> distinct (cells (xs @ ys))"
  by simp

lemma INIT_LIST_HEAD_clist: "clist (INIT_LIST_HEAD m l) l []"
  by (simp add: INIT_LIST_HEAD_def clist_def)

lemma raw_list_del_entry_clist:
  assumes "clist m h (ys @ e # zs)"
  shows "clist (raw_list_del_entry m e) h (ys @ zs)"
proof -
  note p = clist_parts_mid [OF assms]
  have "links (link m (last (h # ys)) (hd (zs @ [h]))) ((h # ys) @ (zs @ [h]))"
    by (subst links_link_join [OF p(3)]) (use p seg_conditions [of h ys zs] in auto)
  moreover have "distinct (cells (h # ys @ zs))" using assms by (simp add: clist_def)
  ultimately show ?thesis
    using clist_next [OF assms] by (simp add: clist_def raw_list_del_entry_def raw_list_del_link)
qed

lemma clist_store_outside:
  "clist m h xs \<Longrightarrow> c \<notin> set (cells (h # xs)) \<Longrightarrow> clist (m(c := v)) h xs"
  by (subst clist_frame [of h xs "m(c := v)" m]) auto

lemma clist_removed_cells:
  assumes "clist m h (ys @ e # zs)"
  shows "e \<notin> set (cells (h # ys @ zs))" "prev_of e \<notin> set (cells (h # ys @ zs))"
  using assms by (auto simp: clist_def)

lemma list_del_clist:
  assumes "clist m h (ys @ e # zs)"
  shows "clist (list_del m e) h (ys @ zs)"
  using raw_list_del_entry_clist [OF assms] clist_removed_cells [OF assms]
  by (auto simp: list_del_def Let_def raw_list_del_entry_def intro!: clist_store_outside)

lemma list_del_init_clist:
  assumes "clist m h (ys @ e # zs)"
  shows "clist (list_del_init m e) h (ys @ zs)" "clist (list_del_init m e) e []"
  using raw_list_del_entry_clist [OF assms] clist_removed_cells [OF assms] INIT_LIST_HEAD_clist
  by (auto simp: list_del_init_def INIT_LIST_HEAD_def Let_def intro!: clist_store_outside)

lemma list_add_clist:
  assumes "clist m h xs" "distinct (cells (new # h # xs))"
  shows "clist (list_add m new h) h (new # xs)"
  using raw_list_add_clist [of m h "[]" xs new] assms clist_head [OF assms(1)] by (simp add: list_add_def)

lemma list_add_tail_clist:
  assumes "clist m h xs" "distinct (cells (new # h # xs))"
  shows "clist (list_add_tail m new h) h (xs @ [new])"
  using raw_list_add_clist [of m h xs "[]" new] assms clist_head [OF assms(1)] by (simp add: list_add_tail_def)

lemma list_move_clist:
  assumes "clist m h (ys @ e # zs)"
  shows "clist (list_move m e h) h (e # ys @ zs)"
proof -
  have "distinct (cells (e # h # ys @ zs))"
    using assms cells_perm [of "h # ys @ e # zs" "e # h # ys @ zs"] by (simp add: clist_def)
  then show ?thesis
    unfolding list_move_def by (rule list_add_clist [OF raw_list_del_entry_clist [OF assms]])
qed

lemma list_move_tail_clist:
  assumes "clist m h (ys @ e # zs)"
  shows "clist (list_move_tail m e h) h (ys @ zs @ [e])"
proof -
  have "distinct (cells (e # h # ys @ zs))"
    using assms cells_perm [of "h # ys @ e # zs" "e # h # ys @ zs"] by (simp add: clist_def)
  then show ?thesis
    unfolding list_move_tail_def using list_add_tail_clist [OF raw_list_del_entry_clist [OF assms]] by simp
qed

lemma list_empty_clist: "clist m h xs \<Longrightarrow> list_empty m h \<longleftrightarrow> xs = []"
  using clist_head [of m h xs] clist_distinct [of m h xs] by (cases xs) (auto simp: list_empty_def)

lemma list_empty_careful_clist: "clist m h xs \<Longrightarrow> list_empty_careful m h \<longleftrightarrow> xs = []"
  using clist_head [of m h xs] clist_distinct [of m h xs]
  by (cases xs) (auto simp: list_empty_careful_def Let_def)

lemma list_is_last_clist: "clist m h (ys @ e # zs) \<Longrightarrow> list_is_last m e h \<longleftrightarrow> zs = []"
  using clist_next [of m h ys e zs] clist_distinct [of m h "ys @ e # zs"]
  by (cases zs) (auto simp: list_is_last_def)

lemma list_is_singular_clist: "clist m h xs \<Longrightarrow> list_is_singular m h \<longleftrightarrow> length xs = 1"
  using clist_head [of m h xs] clist_distinct [of m h xs] list_empty_clist [of m h xs]
  by (cases xs; cases "tl xs") (auto simp: list_is_singular_def)

lemma list_rotate_left_clist:
  assumes "clist m h xs"
  shows "clist (list_rotate_left m h) h (rotate1 xs)"
proof (cases xs)
  case (Cons x r)
  then show ?thesis
    using assms list_empty_clist [OF assms] clist_head [OF assms] list_move_tail_clist [of m h "[]" x r]
    by (simp add: list_rotate_left_def)
qed (use assms list_empty_clist [OF assms] in \<open>simp add: list_rotate_left_def\<close>)

lemma list_replace_link:
  assumes "apart {new, old, a, b}" "a \<noteq> new" "b \<noteq> new" "b \<noteq> old" "m old = b" "m (prev_of old) = a"
  shows "list_replace m old new = link (link m a new) new b"
proof -
  have "list_replace m old new = m(new := b, prev_of b := new, prev_of new := a, a := new)"
    using assms by (simp add: list_replace_def Let_def apart_iff)
  also have "\<dots> = link (link m a new) new b"
    by (rule ext) (use assms(1-3) in \<open>simp add: link_def apart_iff\<close>)
  finally show ?thesis .
qed

lemma raw_list_splice_link:
  assumes "apart {f, l, a, b}" "a \<noteq> l" "b \<noteq> f" "m p = f" "m (prev_of p) = l"
  shows "raw_list_splice m p a b = link (link m a f) l b"
  by (rule ext) (use assms in \<open>simp add: raw_list_splice_def Let_def link_def apart_iff\<close>)

lemma list_replace_clist:
  assumes "clist m h (ys @ old # zs)" "distinct (cells (new # h # ys @ old # zs))"
  shows "clist (list_replace m old new) h (ys @ new # zs)"
proof -
  let ?S = "set (new # h # ys @ old # zs)" and ?a = "last (h # ys)" and ?b = "hd (zs @ [h])"
  note p = clist_parts_mid [OF assms(1)]
  have S: "apart ?S" using assms(2) by (rule apart_cells)
  have d: "distinct (new # h # ys @ old # zs)" using distinct_cells_distinct [OF assms(2)] .
  note c = seg_conditions [of h ys zs]
  have e: "?a \<in> set (h # ys)" "?b \<in> set (h # zs)" by (rule seg_ends)+
  then have ab: "?a \<in> ?S" "?b \<in> ?S" "?a \<noteq> new" "?b \<noteq> new" "?b \<noteq> old" using d by auto
  have "links (link m ?a new) ((h # ys) @ [new])"
    by (subst links_link_join [OF S]) (use d c p in auto)
  moreover have "links (link m ?a new) (zs @ [h])"
    by (subst links_link_frame [OF S]) (use d c p ab seg_ends(3) [of zs h] in auto)
  ultimately have "links (link (link m ?a new) new ?b) (((h # ys) @ [new]) @ (zs @ [h]))"
    by (subst links_link_join [OF S]) (use d c ab in auto)
  moreover have "list_replace m old new = link (link m ?a new) new ?b"
    using ab clist_next [OF assms(1)] by (intro list_replace_link apart_subset [OF S]) auto
  moreover have "distinct (cells (h # ys @ new # zs))"
    using assms(2) cells_perm [of "new # h # ys @ old # zs" "old # h # ys @ new # zs"] by simp
  ultimately show ?thesis by (simp add: clist_def)
qed

text \<open>Splicing the list at \<open>l\<close> in at a cut of the list at \<open>h\<close>.\<close>

lemma raw_list_splice_clist:
  assumes "clist m l xs" "xs \<noteq> []" "clist m h (ys @ zs)" "distinct (cells (l # xs @ h # ys @ zs))"
  shows "clist (raw_list_splice m l (last (h # ys)) (hd (zs @ [h]))) h (ys @ xs @ zs)"
proof -
  define a b f t where "a = last (h # ys)" and "b = hd (zs @ [h])" and "f = hd xs" and "t = last xs"
  note ends = a_def b_def f_def t_def
  define S where "S = set (l # xs @ h # ys @ zs)"
  have S: "apart S" unfolding S_def using assms(4) by (rule apart_cells)
  have d: "distinct (l # xs @ h # ys @ zs)" using distinct_cells_distinct [OF assms(4)] .
  note p = clist_parts [OF assms(3)] and c = seg_conditions [of h ys zs, folded ends]
  have e: "a \<in> set (h # ys)" "b \<in> set (h # zs)" unfolding ends by (rule seg_ends)+
  have ft: "f \<in> set xs" "t \<in> set xs" using assms(2) by (simp_all add: ends)
  have ab: "a \<in> S" "b \<in> S" "f \<in> S" "t \<in> S" "a \<notin> set xs" "b \<notin> set xs"
    using d e ft by (auto simp: S_def)
  have x: "t \<notin> set (butlast xs)" "f \<notin> set (tl xs)" "a \<notin> set (butlast xs)" "b \<notin> set (tl xs)"
    using d ab assms(2) last_notin_butlast [of xs] hd_notin_tl [of xs]
    by (auto simp: ends(3,4) dest: in_set_butlastD list.set_sel(2))
  have y: "f \<notin> set (tl (h # ys))" "t \<notin> set (butlast (zs @ [h]))" "t \<notin> set (butlast (h # ys))"
    "f \<notin> set (tl (zs @ [h]))" "t \<notin> set (h # ys)"
    using d ft seg_ends(3) [of zs h] by (auto dest: in_set_butlastD)
  have lx: "links m xs"
    using assms(1,2) clist_split [of m l "[]" xs] links_append [of xs "[l]" m] by (simp add: clist_def)
  have sub: "set (h # ys) \<subseteq> S" "set xs \<subseteq> S" "set (zs @ [h]) \<subseteq> S" by (auto simp: S_def)
  have "links (link m a f) ((h # ys) @ xs)"
    using links_link_join [OF S _ assms(2) sub(1,2) a_def f_def] c(1) [OF p(4)] x y p(1) lx by simp
  moreover have "links (link m a f) (zs @ [h])"
    using links_link_frame [OF S ab(1,3) sub(3)] c [OF p(4)] y p(2) by simp
  moreover have "t = last ((h # ys) @ xs)" "t \<notin> set (butlast ((h # ys) @ xs))" "b \<notin> set (tl ((h # ys) @ xs))"
    using assms(2) x(1) y(5) c(2) [OF p(4)] ab(6) by (simp_all add: t_def butlast_append)
  ultimately have "links (link (link m a f) t b) (((h # ys) @ xs) @ (zs @ [h]))"
    using links_link_join [OF S, of "(h # ys) @ xs" "zs @ [h]" t b "link m a f"] c(4) [OF p(4)] y sub
    by (simp add: b_def)
  moreover have "raw_list_splice m l a b = link (link m a f) t b"
  proof (rule raw_list_splice_link)
    show "m l = f" "m (prev_of l) = t"
      using clist_head [OF assms(1)] assms(2) unfolding ends(3,4) by (cases xs; simp)+
    show "apart {f, t, a, b}" by (rule apart_subset [OF S]) (use ab in auto)
  qed (use ab ft in auto)
  moreover have "distinct (cells (h # ys @ xs @ zs))"
    using assms(4) cells_perm [of "l # xs @ h # ys @ zs" "l # h # ys @ xs @ zs"] by simp
  ultimately show ?thesis by (simp add: clist_def a_def b_def)
qed

lemma list_splice_clist:
  assumes "clist m l xs" "clist m h ys" "distinct (cells (l # xs @ h # ys))"
  shows "clist (list_splice m l h) h (xs @ ys)" "clist (list_splice_tail m l h) h (ys @ xs)"
    "clist (list_splice_init m l h) h (xs @ ys)" "clist (list_splice_init m l h) l []"
    "clist (list_splice_tail_init m l h) h (ys @ xs)" "clist (list_splice_tail_init m l h) l []"
proof -
  have i: "clist (INIT_LIST_HEAD m' l) h zs" if "clist m' h zs" "l \<notin> set (cells (h # zs))"
    "prev_of l \<notin> set (cells (h # zs))" for m' zs
    using that by (simp add: INIT_LIST_HEAD_def clist_store_outside del: cells.simps)
  have out: "l \<notin> set (cells (h # xs @ ys))" "prev_of l \<notin> set (cells (h # xs @ ys))"
    "l \<notin> set (cells (h # ys @ xs))" "prev_of l \<notin> set (cells (h # ys @ xs))"
    using assms(3) by auto
  note f = raw_list_splice_clist [OF assms(1) _ , of h "[]" ys] raw_list_splice_clist [OF assms(1) _, of h ys "[]"]
  note e = list_empty_clist [OF assms(1)]
  show "clist (list_splice m l h) h (xs @ ys)" "clist (list_splice_tail m l h) h (ys @ xs)"
    using f assms clist_head [OF assms(2)] e by (auto simp: list_splice_def list_splice_tail_def)
  show "clist (list_splice_init m l h) h (xs @ ys)" "clist (list_splice_tail_init m l h) h (ys @ xs)"
    using f assms clist_head [OF assms(2)] e i out
    by (auto simp: list_splice_init_def list_splice_tail_init_def simp del: cells.simps)
  show "clist (list_splice_init m l h) l []" "clist (list_splice_tail_init m l h) l []"
    using e assms(1) INIT_LIST_HEAD_clist by (auto simp: list_splice_init_def list_splice_tail_init_def)
qed

text \<open>Cutting a list after the entry \<open>e\<close>: the head \<open>l\<close> receives the front part.\<close>

lemma raw_list_cut_link:
  assumes "apart {l, h, e, f, nf}" "l \<noteq> h" "l \<noteq> e" "h \<noteq> e" "f \<noteq> l" "nf \<noteq> l" "m h = f" "m e = nf"
  shows "raw_list_cut_position m l h e = link (link (link m l f) e l) h nf"
proof -
  have "raw_list_cut_position m l h e =
      m(l := f, prev_of f := l, prev_of l := e, e := l, h := nf, prev_of nf := h)"
    using assms by (simp add: raw_list_cut_position_def Let_def)
  also have "\<dots> = link (link (link m l f) e l) h nf"
    by (rule ext) (use assms(1-6) in \<open>simp add: link_def apart_iff\<close>)
  finally show ?thesis .
qed

lemma raw_list_cut_clist:
  assumes "clist m h (ys @ e # zs)" "distinct (cells (l # h # ys @ e # zs))"
  shows "clist (raw_list_cut_position m l h e) l (ys @ [e])" "clist (raw_list_cut_position m l h e) h zs"
proof -
  define f nf where "f = hd (ys @ [e])" and "nf = hd (zs @ [h])"
  define S where "S = set (l # h # ys @ e # zs)"
  have S: "apart S" unfolding S_def using assms(2) by (rule apart_cells)
  have d: "distinct (l # h # ys @ e # zs)" using distinct_cells_distinct [OF assms(2)] .
  have f: "f \<in> set (e # ys)" "nf \<in> set (h # zs)" unfolding f_def nf_def by (rule seg_ends)+
  have tls: "set (tl (ys @ [e])) \<subseteq> set (e # ys)" "set (tl (zs @ [h])) \<subseteq> set (h # zs)" by (rule seg_ends)+
  have mem: "l \<in> S" "h \<in> S" "e \<in> S" "f \<in> S" "nf \<in> S" "set (ys @ [e]) \<subseteq> S" "set (zs @ [h]) \<subseteq> S"
    using f by (auto simp: S_def)
  have ne: "f \<noteq> l" "nf \<noteq> l" "f \<noteq> h" "nf \<noteq> e" "l \<noteq> h" "l \<noteq> e" "h \<noteq> e" "f \<notin> set (h # zs)" "nf \<notin> set (e # ys)"
    using f d by auto
  have tl: "f \<notin> set (tl (ys @ [e]))" "nf \<notin> set (tl (zs @ [h]))"
    using d unfolding f_def nf_def by (intro hd_notin_tl; simp)+
  note p = clist_parts_mid [OF assms(1)]
  have "links m (ys @ [e])"
    using clist_split [of m h "[]" "ys @ e # zs"] links_append [of "ys @ [e]" "zs @ [h]" m] assms(1)
    by (simp add: clist_def)
  then have "links (link m l f) ([l] @ (ys @ [e]))"
    using links_link_join [OF S, of "[l]" "ys @ [e]" l f m] mem d tl(1) by (simp add: f_def)
  then have "links (link (link m l f) e l) (([l] @ ys @ [e]) @ [l])"
    using links_link_join [OF S, of "[l] @ ys @ [e]" "[l]" e l "link m l f"] mem d by (simp add: butlast_append)
  then have 1: "links (link (link (link m l f) e l) h nf) (l # (ys @ [e]) @ [l])"
    using links_link_frame [OF S mem(2,5), of "([l] @ ys @ [e]) @ [l]" "link (link m l f) e l"] mem d ne
    by (auto simp: butlast_append)
  have "links (link m l f) (zs @ [h])"
    using links_link_frame [OF S mem(1,4,7), of m] p(2) d ne tls by auto
  then have "links (link (link m l f) e l) (zs @ [h])"
    using links_link_frame [OF S mem(3,1,7), of "link m l f"] d tls by auto
  then have 2: "links (link (link (link m l f) e l) h nf) ([h] @ zs @ [h])"
    using links_link_join [OF S, of "[h]" "zs @ [h]" h nf "link (link m l f) e l"] mem d tl(2)
    by (simp add: nf_def)
  have "m h = f" "m e = nf"
    using clist_head [OF assms(1)] clist_next [OF assms(1)] by (cases ys; simp add: f_def nf_def)+
  then have eq: "raw_list_cut_position m l h e = link (link (link m l f) e l) h nf"
    using ne mem by (intro raw_list_cut_link apart_subset [OF S]) auto
  show "clist (raw_list_cut_position m l h e) l (ys @ [e])"
    using 1 assms(2) by (simp add: clist_def eq) 
  show "clist (raw_list_cut_position m l h e) h zs"
    using 2 assms(2) by (simp add: clist_def eq)
qed

lemma list_cut_position_clist:
  assumes "clist m h (ys @ e # zs)" "distinct (cells (l # h # ys @ e # zs))"
  shows "clist (list_cut_position m l h e) l (ys @ [e])" "clist (list_cut_position m l h e) h zs"
proof -
  have "h \<noteq> e" using clist_distinct [OF assms(1)] by auto
  moreover have "m h = e" if "length (ys @ e # zs) = 1" using that clist_head [OF assms(1)] by (cases ys) auto
  ultimately have "list_cut_position m l h e = raw_list_cut_position m l h e"
    using list_empty_clist [OF assms(1)] list_is_singular_clist [OF assms(1)]
    by (auto simp: list_cut_position_def)
  then show "clist (list_cut_position m l h e) l (ys @ [e])" "clist (list_cut_position m l h e) h zs"
    using raw_list_cut_clist [OF assms] by simp_all
qed

text \<open>The traversals visit the nodes of the list in order and end.\<close>

lemma list_for_each_clist:
  assumes "clist m h xs" "length xs \<le> n"
  shows "list_for_each n m h = Some xs"
proof -
  have "list_for_each_from n m (hd (zs @ [h])) h = Some zs"
    if "clist m h (ys @ zs)" "length zs \<le> n" for ys zs n
    using that
  proof (induction zs arbitrary: ys n)
    case Nil
    then show ?case by (cases n) auto
  next
    case (Cons z zs)
    then obtain k where n: "n = Suc k" "length zs \<le> k" by (cases n) auto
    have "list_for_each_from k m (hd (zs @ [h])) h = Some zs" using Cons.IH [of "ys @ [z]" k] Cons.prems n by simp
    moreover have "z \<noteq> h" "m z = hd (zs @ [h])"
      using clist_distinct [OF Cons.prems(1)] clist_next [OF Cons.prems(1)] by auto
    ultimately show ?case using n by simp
  qed
  from this [of "[]" xs n] show ?thesis using assms clist_head [OF assms(1)] by (simp add: list_for_each_def)
qed

lemma list_for_each_prev_clist:
  assumes "clist m h xs" "length xs \<le> n"
  shows "list_for_each_prev n m h = Some (rev xs)"
proof -
  have "list_for_each_prev_from n m (last (h # ys)) h = Some (rev ys)"
    if "clist m h (ys @ zs)" "length ys \<le> n" for ys zs n
    using that
  proof (induction ys arbitrary: zs n rule: rev_induct)
    case Nil
    then show ?case by (cases n) auto
  next
    case (snoc y ys)
    then obtain k where n: "n = Suc k" "length ys \<le> k" by (cases n) auto
    have "list_for_each_prev_from k m (last (h # ys)) h = Some (rev ys)"
      using snoc.IH [of "y # zs" k] snoc.prems n by simp
    moreover have "y \<noteq> h" "m (prev_of y) = last (h # ys)"
      using clist_distinct [OF snoc.prems(1)] clist_next [of m h ys y zs] snoc.prems(1) by auto
    ultimately show ?case using n by simp
  qed
  from this [of xs "[]" n] show ?thesis
    using assms clist_head [OF assms(1)] by (simp add: list_for_each_prev_def)
qed

section \<open>Hash chains\<close>

text \<open>
  \<open>hlinks m c xs\<close>: the pointer in cell \<open>c\<close> starts the chain \<open>xs\<close>, whose last \<open>next\<close> is \<open>NULL\<close>, and every
  \<open>pprev\<close> is the cell that points to its node.
\<close>

fun hseg :: "mem \<Rightarrow> addr \<Rightarrow> addr list \<Rightarrow> bool" where
  "hseg m c [] \<longleftrightarrow> True"
| "hseg m c (x # xs) \<longleftrightarrow> m c = x \<and> x \<noteq> 0 \<and> m (prev_of x) = c \<and> hseg m x xs"

definition hlinks :: "mem \<Rightarrow> addr \<Rightarrow> addr list \<Rightarrow> bool" where
  "hlinks m c xs \<longleftrightarrow> hseg m c xs \<and> m (last (c # xs)) = 0"

definition hlist :: "mem \<Rightarrow> addr \<Rightarrow> addr list \<Rightarrow> bool" where
  "hlist m h xs \<longleftrightarrow> hlinks m h xs \<and> distinct (h # cells xs)"

lemma hseg_append: "hseg m c (xs @ ys) \<longleftrightarrow> hseg m c xs \<and> hseg m (last (c # xs)) ys"
  by (induction xs arbitrary: c) auto

lemma hlinks_append: "hlinks m c (xs @ ys) \<longleftrightarrow> hseg m c xs \<and> hlinks m (last (c # xs)) ys"
  by (auto simp: hlinks_def hseg_append)

lemma hlinks_simps [simp]:
  "hlinks m c [] \<longleftrightarrow> m c = 0"
  "hlinks m c (x # xs) \<longleftrightarrow> m c = x \<and> x \<noteq> 0 \<and> m (prev_of x) = c \<and> hlinks m x xs"
  by (auto simp: hlinks_def)

lemma hseg_cong:
  assumes "\<And>p. p \<in> set (butlast (c # xs)) \<Longrightarrow> m' p = m p" "\<And>p. p \<in> set xs \<Longrightarrow> m' (prev_of p) = m (prev_of p)"
  shows "hseg m' c xs = hseg m c xs"
  using assms by (induction xs arbitrary: c) auto

lemma hlinks_cong:
  assumes "\<And>p. p \<in> set (c # cells xs) \<Longrightarrow> m' p = m p"
  shows "hlinks m' c xs = hlinks m c xs"
  using assms by (induction xs arbitrary: c) auto

lemma hlist_frame:
  assumes "\<And>p. p \<in> set (h # cells xs) \<Longrightarrow> m' p = m p"
  shows "hlist m' h xs = hlist m h xs"
  using hlinks_cong [of h xs m' m] assms by (simp add: hlist_def)

text \<open>Insertion behind the cell \<open>c\<close>, which is the head or the \<open>next\<close> of a node.\<close>

definition hins :: "mem \<Rightarrow> addr \<Rightarrow> addr \<Rightarrow> mem" where
  "hins m n c = (let m1 = m(n := m c, c := n, prev_of n := c)
     in if m c \<noteq> 0 then m1(prev_of (m c) := n) else m1)"

definition hrem :: "mem \<Rightarrow> addr \<Rightarrow> addr \<Rightarrow> mem" where
  "hrem m c x = (let m1 = m(c := x) in if x \<noteq> 0 then m1(prev_of x := c) else m1)"

lemma hseg_at_end:
  assumes "distinct (h # cells (ys @ zs))" "c = last (h # ys)"
  shows "hseg (m(c := v)) h ys = hseg m h ys"
proof -
  have d: "distinct (h # ys)" using assms(1) distinct_cells_distinct [of ys] by (auto simp: in_cells)
  have c: "c \<in> set (h # ys)" "c \<notin> set (butlast (h # ys))"
    using seg_ends(1) [of h ys] last_notin_butlast [OF d] assms(2) by auto
  have "c \<noteq> prev_of p" if "p \<in> set ys" for p
    using c(1) that assms(1) cells_disjoint [of ys c p] by (auto simp: in_cells)
  then show ?thesis using c by (intro hseg_cong) auto
qed

lemma hseg_outside:
  assumes "c \<notin> set (cells ys)" "c \<noteq> h"
  shows "hseg (m(c := v)) h ys = hseg m h ys"
  using assms by (intro hseg_cong) (auto simp: in_cells split: if_splits dest!: in_set_butlastD)

lemma hins_hlist:
  assumes "hlist m h (ys @ zs)" "distinct (h # cells (n # ys @ zs))" "n \<noteq> 0" "c = last (h # ys)"
  shows "hlist (hins m n c) h (ys @ n # zs)"
proof -
  have c: "c \<in> set (h # ys)" using assms(4) by (metis seg_ends(1))
  then have cc: "c \<in> set (h # cells ys)" by (auto simp: in_cells)
  have s: "hseg m h ys" and l: "hlinks m c zs" using assms(1,4) by (simp_all add: hlist_def hlinks_append)
  have d: "c \<notin> set (cells zs)" "c \<noteq> n" "c \<noteq> prev_of n" "distinct (cells zs)"
      "n \<notin> set (cells ys)" "prev_of n \<notin> set (cells ys)" "n \<noteq> h" "prev_of n \<noteq> h"
      "n \<notin> set (cells zs)" "prev_of n \<notin> set (cells zs)"
    using assms(2) cc by auto
  have dy: "distinct (h # cells (ys @ zs))" using assms(2) by simp
  note out = hseg_at_end [OF dy assms(4)] hseg_outside
  have "hlist (hins m n c) h (ys @ n # zs) \<longleftrightarrow> hlinks (hins m n c) h (ys @ n # zs)"
    using assms(2) by (auto simp: hlist_def)
  moreover have "hseg (hins m n c) h ys \<and> hlinks (hins m n c) c (n # zs)"
  proof (cases zs)
    case Nil
    have "hins m n c = m(n := m c, c := n, prev_of n := c)" using l Nil by (simp add: hins_def)
    then show ?thesis using s d out Nil l assms(3) by simp
  next
    case (Cons z r)
    then have z: "m c = z" "z \<noteq> 0" "m (prev_of z) = c" "hlinks m z r" using l by auto
    have m: "hins m n c = m(n := z, c := n, prev_of n := c, prev_of z := n)" using z by (simp add: hins_def)
    have pz: "prev_of z \<notin> set (cells ys)" "prev_of z \<noteq> h" "prev_of z \<noteq> n" "z \<noteq> n" "z \<noteq> c" "prev_of z \<noteq> c"
        "prev_of z \<notin> set (z # cells r)" "z \<notin> set (cells r)"
      using assms(2) Cons d by auto
    have "hlinks (hins m n c) z r = hlinks m z r"
      unfolding m using d pz Cons by (intro hlinks_cong) auto
    then show ?thesis using s d out pz z Cons assms(3) by (simp add: m)
  qed
  ultimately show ?thesis using assms(4) by (simp add: hlinks_append)
qed

lemma hlist_add_head_hlist:
  assumes "hlist m h xs" "distinct (h # cells (n # xs))" "n \<noteq> 0"
  shows "hlist (hlist_add_head m n h) h (n # xs)"
proof -
  have "hlist_add_head m n h = hins m n h"
  proof (rule ext)
    fix p
    have "m h \<noteq> 0 \<Longrightarrow> prev_of (m h) \<noteq> h \<and> m h \<noteq> n" using assms by (cases xs) (auto simp: hlist_def)
    then show "hlist_add_head m n h p = hins m n h p"
      using assms(2) by (auto simp: hlist_add_head_def hins_def Let_def)
  qed
  then show ?thesis using hins_hlist [of m h "[]" xs n h] assms by simp
qed

lemma hlist_add_behind_hlist:
  assumes "hlist m h (ys @ p # zs)" "distinct (h # cells (n # ys @ p # zs))" "n \<noteq> 0"
  shows "hlist (hlist_add_behind m n p) h (ys @ p # n # zs)"
proof -
  have "hlist_add_behind m n p = hins m n p"
    using assms(2) by (auto simp: hlist_add_behind_def hins_def Let_def)
  then show ?thesis using hins_hlist [of m h "ys @ [p]" zs n p] assms by simp
qed

lemma hlist_add_before_hlist:
  assumes "hlist m h (ys @ x # zs)" "distinct (h # cells (n # ys @ x # zs))" "n \<noteq> 0"
  shows "hlist (hlist_add_before m n x) h (ys @ n # x # zs)"
proof -
  let ?c = "last (h # ys)"
  have c: "m ?c = x" "x \<noteq> 0" "m (prev_of x) = ?c" using assms(1) by (simp_all add: hlist_def hlinks_append)
  have "?c \<in> set (h # cells ys)" using seg_ends(1) [of h ys] by (auto simp: in_cells simp del: last.simps)
  then have "?c \<noteq> n" "?c \<noteq> prev_of n" "?c \<noteq> prev_of x" "n \<noteq> prev_of x" "x \<noteq> n" using assms(2) by auto
  then have "hlist_add_before m n x = hins m n ?c"
    using c by (auto simp: hlist_add_before_def hins_def Let_def fun_eq_iff simp del: last.simps)
  then show ?thesis using hins_hlist [of m h ys "x # zs" n ?c] assms by simp
qed

lemma raw_hlist_del_hlist:
  assumes "hlist m h (ys @ n # zs)"
  shows "hlist (raw_hlist_del m n) h (ys @ zs)"
proof -
  define c where "c = last (h # ys)"
  have c: "c \<in> set (h # ys)" unfolding c_def by (rule seg_ends)
  then have cc: "c \<in> set (h # cells ys)" by (auto simp: in_cells)
  have s: "hseg m h ys" and l: "m c = n" "m (prev_of n) = c" "hlinks m n zs"
    using assms by (simp_all add: hlist_def hlinks_append c_def)
  have dd: "distinct (h # cells (ys @ n # zs))" using assms by (simp add: hlist_def)
  then have dy: "distinct (h # cells (ys @ zs))" by simp
  have d: "c \<notin> set (cells zs)" "distinct (cells zs)" using dd cc by auto
  note out = hseg_at_end [OF dy c_def] hseg_outside
  have "hseg (raw_hlist_del m n) h ys \<and> hlinks (raw_hlist_del m n) c zs"
  proof (cases zs)
    case Nil
    then show ?thesis using s l out by (simp add: raw_hlist_del_def)
  next
    case (Cons z r)
    then have z: "m n = z" "z \<noteq> 0" "hlinks m z r" using l by auto
    have m: "raw_hlist_del m n = m(c := z, prev_of z := c)" using z l by (simp add: raw_hlist_del_def)
    have pz: "prev_of z \<notin> set (cells ys)" "prev_of z \<noteq> h" "prev_of z \<noteq> c" "c \<notin> set (z # cells r)"
        "prev_of z \<notin> set (z # cells r)"
      using dd Cons d cc by auto
    have "hlinks (raw_hlist_del m n) z r = hlinks m z r"
      unfolding m using pz by (intro hlinks_cong) auto
    then show ?thesis using s z pz out Cons by (simp add: m)
  qed
  then show ?thesis using dy by (simp add: hlist_def hlinks_append c_def)
qed

lemma hlist_store_outside: "hlist m h xs \<Longrightarrow> c \<notin> set (h # cells xs) \<Longrightarrow> hlist (m(c := v)) h xs"
  by (subst hlist_frame [of h xs "m(c := v)" m]) auto

lemma hlist_del_hlist:
  assumes "hlist m h (ys @ n # zs)"
  shows "hlist (hlist_del m n) h (ys @ zs)"
proof -
  have "n \<notin> set (h # cells (ys @ zs))" "prev_of n \<notin> set (h # cells (ys @ zs))"
    using assms by (auto simp: hlist_def)
  then show ?thesis
    unfolding hlist_del_def Let_def by (intro hlist_store_outside raw_hlist_del_hlist [OF assms])
qed

lemma hlist_del_init_hlist:
  assumes "hlist m h (ys @ n # zs)" "h \<noteq> 0"
  shows "hlist (hlist_del_init m n) h (ys @ zs)" "hlist_unhashed (hlist_del_init m n) n"
proof -
  have "m (prev_of n) = last (h # ys)" "\<forall>y \<in> set ys. y \<noteq> 0"
    using assms(1) by (auto simp: hlist_def hlinks_append in_set_conv_decomp hseg_append)
  then have nz: "\<not> hlist_unhashed m n"
    using assms(2) seg_ends(1) [of h ys] by (auto simp: hlist_unhashed_def simp del: last.simps)
  have "n \<notin> set (h # cells (ys @ zs))" "prev_of n \<notin> set (h # cells (ys @ zs))"
    using assms(1) by (auto simp: hlist_def)
  then show "hlist (hlist_del_init m n) h (ys @ zs)"
    using nz raw_hlist_del_hlist [OF assms(1)]
    by (simp add: hlist_del_init_def INIT_HLIST_NODE_def hlist_store_outside)
  show "hlist_unhashed (hlist_del_init m n) n"
    using nz by (simp add: hlist_del_init_def INIT_HLIST_NODE_def hlist_unhashed_def)
qed

lemma hlist_move_list_hlist:
  assumes "hlist m old xs" "distinct (new # old # cells xs)"
  shows "hlist (hlist_move_list m old new) new xs" "hlist (hlist_move_list m old new) old []"
proof -
  show "hlist (hlist_move_list m old new) old []" by (simp add: hlist_move_list_def Let_def hlist_def)
  show "hlist (hlist_move_list m old new) new xs"
  proof (cases xs)
    case Nil
    then show ?thesis using assms by (simp add: hlist_move_list_def Let_def hlist_def)
  next
    case (Cons x r)
    then have x: "m old = x" "x \<noteq> 0" "hlinks m x r" using assms(1) by (auto simp: hlist_def)
    have "hlinks (hlist_move_list m old new) x r = hlinks m x r"
      using x assms(2) Cons by (intro hlinks_cong) (auto simp: hlist_move_list_def Let_def)
    then show ?thesis using x assms(2) Cons by (auto simp: hlist_move_list_def Let_def hlist_def)
  qed
qed

lemma hlist_empty_hlist: "hlist m h xs \<Longrightarrow> hlist_empty m h \<longleftrightarrow> xs = []"
  by (cases xs) (auto simp: hlist_def hlist_empty_def)

lemma hlist_for_each_hlist:
  assumes "hlist m h xs" "length xs \<le> n"
  shows "hlist_for_each n m h = Some xs"
proof -
  have "hlist_for_each_from n m (m c) = Some xs" if "hlinks m c xs" "length xs \<le> n" for c xs n
    using that
  proof (induction xs arbitrary: c n)
    case Nil
    then show ?case by (cases n) auto
  next
    case (Cons x xs)
    then show ?case by (cases n) auto
  qed
  then show ?thesis using assms by (simp add: hlist_for_each_def hlist_def)
qed

section \<open>Sequences of operations\<close>

text \<open>
  What the users of both kinds of list rely on: insertion at the head of a node that is not on the
  list, and removal of any node of the list.  A sequence of such calls, run on memory, is the same
  sequence on lists.
\<close>

datatype lop = Add addr | Del addr

fun run_ops :: "(mem \<Rightarrow> addr \<Rightarrow> addr \<Rightarrow> mem) \<Rightarrow> (mem \<Rightarrow> addr \<Rightarrow> mem) \<Rightarrow> addr \<Rightarrow> lop list \<Rightarrow> mem \<Rightarrow> mem" where
  "run_ops add del h [] m = m"
| "run_ops add del h (Add n # ops) m = run_ops add del h ops (add m n h)"
| "run_ops add del h (Del n # ops) m = run_ops add del h ops (del m n)"

fun spec_ops :: "(addr \<Rightarrow> addr \<Rightarrow> addr list \<Rightarrow> bool) \<Rightarrow> addr \<Rightarrow> lop list \<Rightarrow> addr list \<Rightarrow> addr list option" where
  "spec_ops fresh h [] xs = Some xs"
| "spec_ops fresh h (Add n # ops) xs = (if fresh n h xs then spec_ops fresh h ops (n # xs) else None)"
| "spec_ops fresh h (Del n # ops) xs = (if n \<in> set xs then spec_ops fresh h ops (remove1 n xs) else None)"

locale intrusive_list =
  fixes rep :: "mem \<Rightarrow> addr \<Rightarrow> addr list \<Rightarrow> bool"
    and fresh :: "addr \<Rightarrow> addr \<Rightarrow> addr list \<Rightarrow> bool"
    and add :: "mem \<Rightarrow> addr \<Rightarrow> addr \<Rightarrow> mem"
    and del :: "mem \<Rightarrow> addr \<Rightarrow> mem"
  assumes add_rep: "\<lbrakk>rep m h xs; fresh n h xs\<rbrakk> \<Longrightarrow> rep (add m n h) h (n # xs)"
    and del_rep: "rep m h (ys @ n # zs) \<Longrightarrow> rep (del m n) h (ys @ zs)"
begin

lemma del_remove1:
  assumes "rep m h xs" "n \<in> set xs"
  shows "rep (del m n) h (remove1 n xs)"
proof -
  obtain ys zs where "xs = ys @ n # zs" "n \<notin> set ys" using assms(2) by (metis split_list_first)
  then show ?thesis using assms(1) del_rep by (simp add: remove1_append)
qed

lemma run_refines:
  assumes "rep m h xs" "spec_ops fresh h ops xs = Some ys"
  shows "rep (run_ops add del h ops m) h ys"
  using assms
proof (induction ops arbitrary: m xs)
  case (Cons op ops)
  then show ?case
    by (cases op) (auto intro: add_rep del_remove1 split: if_splits)
qed simp

end

definition cfresh :: "addr \<Rightarrow> addr \<Rightarrow> addr list \<Rightarrow> bool" where
  "cfresh n h xs \<longleftrightarrow> distinct (cells (n # h # xs))"

definition hfresh :: "addr \<Rightarrow> addr \<Rightarrow> addr list \<Rightarrow> bool" where
  "hfresh n h xs \<longleftrightarrow> n \<noteq> 0 \<and> distinct (h # cells (n # xs))"

interpretation list_head_list: intrusive_list clist cfresh list_add list_del
  by unfold_locales (auto simp: cfresh_def simp del: cells.simps intro: list_add_clist list_del_clist)

interpretation list_head_queue: intrusive_list "\<lambda>m h xs. clist m h (rev xs)" "\<lambda>n h xs. cfresh n h (rev xs)"
    list_add_tail list_del
proof unfold_locales
  show "clist (list_add_tail m n h) h (rev (n # xs))" if "clist m h (rev xs)" "cfresh n h (rev xs)" for m h xs n
    using list_add_tail_clist that by (simp add: cfresh_def)
  show "clist (list_del m n) h (rev (ys @ zs))" if "clist m h (rev (ys @ n # zs))" for m h ys n zs
    using list_del_clist [of m h "rev zs" n "rev ys"] that by simp
qed

interpretation hash_chain: intrusive_list hlist hfresh hlist_add_head hlist_del
  by unfold_locales (auto simp: hfresh_def simp del: cells.simps intro: hlist_add_head_hlist hlist_del_hlist)

text \<open>
  C9.  A sequence of \<open>hlist_add_head\<close> and \<open>hlist_del\<close> calls on an initialised head leaves a chain that
  \<open>hlist_for_each\<close> traverses completely, in the order that the calls give as list operations.
\<close>

theorem hlist_sequence_correct:
  assumes "spec_ops hfresh h ops [] = Some xs" "length xs \<le> n"
  shows "hlist_for_each n (run_ops hlist_add_head hlist_del h ops (INIT_HLIST_HEAD m h)) h = Some xs \<and>
    hlist_empty (run_ops hlist_add_head hlist_del h ops (INIT_HLIST_HEAD m h)) h = (xs = [])"
proof -
  have "hlist (INIT_HLIST_HEAD m h) h []" by (simp add: hlist_def INIT_HLIST_HEAD_def)
  from hash_chain.run_refines [OF this assms(1)] show ?thesis
    using hlist_for_each_hlist hlist_empty_hlist assms(2) by simp
qed

theorem hlist_sequence_correct_witness:
  "hlist_for_each 5 (run_ops hlist_add_head hlist_del 8 [Add 16, Add 32, Add 48, Del 32]
     (INIT_HLIST_HEAD (\<lambda>_. 77) 8)) 8 = Some [48, 16]"
  using hlist_sequence_correct [of 8 "[Add 16, Add 32, Add 48, Del 32]" "[48, 16]" 5 "\<lambda>_. 77"]
  by (simp add: hfresh_def prev_of_def)

text \<open>
  C10.  A sequence of \<open>list_add\<close> and \<open>list_del\<close> calls on an initialised \<open>list_head\<close> leaves a circular
  list that both traversals, forwards and backwards, visit completely and in the order that the
  calls give as list operations; \<open>list_empty\<close> and \<open>list_is_singular\<close> tell its length.
\<close>

theorem list_sequence_correct:
  assumes "spec_ops cfresh h ops [] = Some xs" "length xs \<le> n"
    "m1 = run_ops list_add list_del h ops (INIT_LIST_HEAD m h)"
  shows "list_for_each n m1 h = Some xs \<and> list_for_each_prev n m1 h = Some (rev xs) \<and>
    list_empty m1 h = (xs = []) \<and> list_is_singular m1 h = (length xs = 1)"
proof -
  have "clist m1 h xs" unfolding assms(3)
    by (rule list_head_list.run_refines [OF INIT_LIST_HEAD_clist assms(1)])
  then show ?thesis
    using list_for_each_clist list_for_each_prev_clist list_empty_clist list_is_singular_clist assms(2) by simp
qed

theorem list_sequence_correct_witness:
  "list_for_each_prev 4 (run_ops list_add list_del 8 [Add 32, Add 48, Add 64, Del 48]
     (INIT_LIST_HEAD (\<lambda>_. 77) 8)) 8 = Some [32, 64]"
  using list_sequence_correct [of 8 "[Add 32, Add 48, Add 64, Del 48]" "[64, 32]" 4 _ "\<lambda>_. 77"]
  by (simp add: cfresh_def prev_of_def)

text \<open>
  C11.  Splicing and cutting keep every node: splicing the list at \<open>l\<close> into an empty list at \<open>h\<close> and
  cutting it again after any entry gives the two parts, and splicing the parts back together restores
  the list.
\<close>

theorem list_splice_cut_roundtrip:
  assumes "clist m l (ys @ e # zs)" "clist m h []" "distinct (cells (l # (ys @ e # zs) @ [h]))"
    "m1 = list_splice_init m l h" "m2 = list_cut_position m1 l h e" "m3 = list_splice_init m2 l h"
  shows "clist m1 h (ys @ e # zs) \<and> clist m1 l [] \<and> clist m2 l (ys @ [e]) \<and> clist m2 h zs \<and>
    clist m3 h (ys @ e # zs) \<and> clist m3 l []"
proof -
  have m1: "clist m1 h (ys @ e # zs)" "clist m1 l []"
    using list_splice_clist [OF assms(1,2)] assms(3,4) by simp_all
  have d: "distinct (cells (l # h # ys @ e # zs))"
    using assms(3) cells_perm [of "l # (ys @ e # zs) @ [h]" "l # h # ys @ e # zs"] by simp
  have m2: "clist m2 l (ys @ [e])" "clist m2 h zs"
    using list_cut_position_clist [OF m1(1) d] assms(5) by simp_all
  have "distinct (cells (l # (ys @ [e]) @ h # zs))"
    using d cells_perm [of "l # h # ys @ e # zs" "l # (ys @ [e]) @ h # zs"] by simp
  then have "clist m3 h ((ys @ [e]) @ zs)" "clist m3 l []"
    using list_splice_clist [OF m2] assms(6) by simp_all
  then show ?thesis using m1 m2 by simp
qed

theorem list_splice_cut_roundtrip_witness:
  "clist (list_splice_init (run_ops list_add list_del 8 [Add 48, Add 32]
      (INIT_LIST_HEAD (INIT_LIST_HEAD (\<lambda>_. 0) 64) 8)) 8 64) 64 [32, 48]"
proof -
  let ?m = "run_ops list_add list_del 8 [Add 48, Add 32] (INIT_LIST_HEAD (INIT_LIST_HEAD (\<lambda>_. 0) 64) 8)"
  have "spec_ops cfresh 8 [Add 48, Add 32] [] = Some [32, 48]" by (simp add: cfresh_def prev_of_def)
  from list_head_list.run_refines [OF INIT_LIST_HEAD_clist this] have l: "clist ?m 8 ([] @ 32 # [48])"
    unfolding append_Nil .
  have "clist ?m 64 []"
    by (simp add: clist_def list_add_def raw_list_add_def INIT_LIST_HEAD_def Let_def prev_of_def)
  from list_splice_cut_roundtrip [OF l this _ refl refl refl] show ?thesis by (simp add: prev_of_def)
qed

end
