(* ===== verification/Driver.thy ===== *)
theory Driver
  imports Ixmap_Prelude "HOL-Library.Multiset"
begin

text \<open>
  The descriptor-ring driver of the library (\<open>src/lib/driver.c\<close> with the structures of
  \<open>src/lib/ixmap.h\<close>): packet slots and their in-flight flags, the receive and transmit rings, and
  the four ring operations \<open>ixmap_rx_assign\<close>, \<open>ixmap_rx_clean\<close>, \<open>ixmap_tx_assign\<close> and
  \<open>ixmap_tx_clean\<close>, with \<open>ixmap_tx_xmit\<close> and \<open>ixmap_irq_unmask_queues\<close>.

  A descriptor is the 16 bytes the card and the driver share, as two 64-bit halves; the members of
  the C unions are read off these halves, so writing the read format of a receive descriptor
  overwrites its write-back status as it does in memory.  Writes to device registers are recorded
  in order in the field \<open>mmio\<close> of the plane.  Array accesses out of range are undefined behaviour of
  the C code and unspecified here; the well-formedness predicates below exclude them.
\<close>

section \<open>Data\<close>

record adv_desc =
  desc_lo :: u64
  desc_hi :: u64

record ixmap_ring =
  ring_virt :: addr
  ring_dma :: u64
  tail :: addr
  next_to_use :: u16
  next_to_clean :: u16
  slot_index :: "int list"
  descs :: "adv_desc list"

record ixmap_buf =
  buf_virt :: addr
  buf_dma :: "u64 list"
  buf_size :: u32
  buf_count :: u32
  slots :: "u32 list"

record ixmap_irq_handle =
  irq_fd :: int
  qmask :: u64
  irq_vector :: u32

record ixmap_port =
  irqreg0 :: addr
  irqreg1 :: addr
  rx_ring :: ixmap_ring
  tx_ring :: ixmap_ring
  rx_irq :: ixmap_irq_handle
  tx_irq :: ixmap_irq_handle
  rx_slot_next :: u32
  rx_slot_offset :: u32
  tx_suspended :: u32
  mtu_frame :: u32
  num_tx_desc :: u32
  num_rx_desc :: u32
  num_queues :: u32
  rx_budget :: u32
  tx_budget :: u32
  mac_addr :: "u8 list"
  interface_name :: string
  count_rx_alloc_failed :: u64
  count_rx_clean_total :: u64
  count_tx_xmit_failed :: u64
  count_tx_clean_total :: u64

record ixmap_plane =
  ports :: "ixmap_port list"
  mmio :: "(addr \<times> u32) list"

record ixmap_packet =
  slot_buf :: addr
  slot_size :: u32
  pkt_slot :: int

definition IXMAP_SLOT_INFLIGHT :: u32 where "IXMAP_SLOT_INFLIGHT = 0x1"
definition IXGBE_RXD_STAT_DD :: u32 where "IXGBE_RXD_STAT_DD = 0x01"
definition IXGBE_TXD_STAT_DD :: u32 where "IXGBE_TXD_STAT_DD = 0x00000001"
definition IXGBE_MAX_DATA_PER_TXD :: u32 where "IXGBE_MAX_DATA_PER_TXD = push_bit 14 1"
definition IXGBE_TXD_CMD_EOP :: u32 where "IXGBE_TXD_CMD_EOP = 0x01000000"
definition IXGBE_TXD_CMD_RS :: u32 where "IXGBE_TXD_CMD_RS = 0x08000000"
definition IXGBE_ADVTXD_DTYP_DATA :: u32 where "IXGBE_ADVTXD_DTYP_DATA = 0x00300000"
definition IXGBE_ADVTXD_DCMD_IFCS :: u32 where "IXGBE_ADVTXD_DCMD_IFCS = 0x02000000"
definition IXGBE_ADVTXD_DCMD_DEXT :: u32 where "IXGBE_ADVTXD_DCMD_DEXT = 0x20000000"

text \<open>The members of the descriptor unions of \<open>src/lib/ixmap.h\<close>.\<close>

definition rx_status_error :: "adv_desc \<Rightarrow> u32" where
  "rx_status_error d = ucast (desc_hi d)"

definition rx_length :: "adv_desc \<Rightarrow> u16" where
  "rx_length d = ucast (drop_bit 32 (desc_hi d))"

definition tx_cmd_type_len :: "adv_desc \<Rightarrow> u32" where
  "tx_cmd_type_len d = ucast (desc_hi d)"

definition tx_olinfo_status :: "adv_desc \<Rightarrow> u32" where
  "tx_olinfo_status d = ucast (drop_bit 32 (desc_hi d))"

text \<open>\<open>wb.status\<close> of a transmit descriptor overlays \<open>read.olinfo_status\<close>.\<close>

definition tx_wb_status :: "adv_desc \<Rightarrow> u32" where
  "tx_wb_status d = ucast (drop_bit 32 (desc_hi d))"

definition rx_read_desc :: "u64 \<Rightarrow> adv_desc" where
  "rx_read_desc pkt_addr = \<lparr>desc_lo = pkt_addr, desc_hi = 0\<rparr>"

definition tx_read_desc :: "u64 \<Rightarrow> u32 \<Rightarrow> u32 \<Rightarrow> adv_desc" where
  "tx_read_desc buffer_addr cmd_type olinfo =
     \<lparr>desc_lo = buffer_addr, desc_hi = ucast cmd_type OR push_bit 32 (ucast olinfo)\<rparr>"

section \<open>Operations\<close>

definition ixmap_desc_unused :: "ixmap_ring \<Rightarrow> u16 \<Rightarrow> u16" where
  "ixmap_desc_unused ring num_desc =
     (let ntc = next_to_clean ring; ntu = next_to_use ring
      in if ntc > ntu then ntc - ntu - 1 else (num_desc - ntu) + ntc - 1)"

definition ixmap_test_staterr :: "adv_desc \<Rightarrow> u32 \<Rightarrow> u32" where
  "ixmap_test_staterr d stat_err_bits = rx_status_error d AND stat_err_bits"

definition ixmap_writel :: "u32 \<Rightarrow> addr \<Rightarrow> ixmap_plane \<Rightarrow> ixmap_plane" where
  "ixmap_writel b a plane = plane\<lparr>mmio := mmio plane @ [(a, b)]\<rparr>"

definition ixmap_write_tail :: "ixmap_ring \<Rightarrow> u32 \<Rightarrow> ixmap_plane \<Rightarrow> ixmap_plane" where
  "ixmap_write_tail ring v plane = ixmap_writel v (tail ring) plane"

definition get_port :: "ixmap_plane \<Rightarrow> nat \<Rightarrow> ixmap_port" where
  "get_port plane pi = ports plane ! pi"

definition put_port :: "nat \<Rightarrow> ixmap_port \<Rightarrow> ixmap_plane \<Rightarrow> ixmap_plane" where
  "put_port pi port plane = plane\<lparr>ports := (ports plane)[pi := port]\<rparr>"

definition ixmap_irq_unmask_queues :: "ixmap_plane \<Rightarrow> nat \<Rightarrow> ixmap_irq_handle \<Rightarrow> ixmap_plane" where
  "ixmap_irq_unmask_queues plane pi irqh =
     (let port = get_port plane pi;
          mask0 = ucast (qmask irqh AND 0xFFFFFFFF) :: u32;
          plane1 = (if mask0 \<noteq> 0 then ixmap_writel mask0 (irqreg0 port) plane else plane);
          mask1 = ucast (drop_bit 32 (qmask irqh)) :: u32
      in if mask1 \<noteq> 0 then ixmap_writel mask1 (irqreg1 port) plane1 else plane1)"

definition ixmap_count_rx_alloc_failed :: "ixmap_plane \<Rightarrow> nat \<Rightarrow> u64" where
  "ixmap_count_rx_alloc_failed plane pi = count_rx_alloc_failed (get_port plane pi)"

definition ixmap_count_rx_clean_total :: "ixmap_plane \<Rightarrow> nat \<Rightarrow> u64" where
  "ixmap_count_rx_clean_total plane pi = count_rx_clean_total (get_port plane pi)"

definition ixmap_count_tx_xmit_failed :: "ixmap_plane \<Rightarrow> nat \<Rightarrow> u64" where
  "ixmap_count_tx_xmit_failed plane pi = count_tx_xmit_failed (get_port plane pi)"

definition ixmap_count_tx_clean_total :: "ixmap_plane \<Rightarrow> nat \<Rightarrow> u64" where
  "ixmap_count_tx_clean_total plane pi = count_tx_clean_total (get_port plane pi)"

definition ixmap_macaddr :: "ixmap_plane \<Rightarrow> nat \<Rightarrow> u8 list" where
  "ixmap_macaddr plane pi = mac_addr (get_port plane pi)"

text \<open>The addresses of a slot: for the card the index is an \<open>int\<close>, for the CPU a \<open>uint16_t\<close>.\<close>

definition ixmap_slot_addr_dma :: "ixmap_buf \<Rightarrow> int \<Rightarrow> nat \<Rightarrow> u64" where
  "ixmap_slot_addr_dma buf si pi = buf_dma buf ! pi + ucast (buf_size buf * word_of_int si)"

definition ixmap_slot_addr_virt :: "ixmap_buf \<Rightarrow> u16 \<Rightarrow> addr" where
  "ixmap_slot_addr_virt buf si = buf_virt buf + unat (buf_size buf * ucast si)"

definition ixmap_slot_size :: "ixmap_buf \<Rightarrow> u32" where
  "ixmap_slot_size buf = buf_size buf"

definition ixmap_slot_release :: "ixmap_buf \<Rightarrow> int \<Rightarrow> ixmap_buf" where
  "ixmap_slot_release buf si = buf\<lparr>slots := (slots buf)[nat si := 0]\<rparr>"

definition ixmap_slot_attach :: "ixmap_ring \<Rightarrow> u16 \<Rightarrow> int \<Rightarrow> ixmap_ring" where
  "ixmap_slot_attach ring di si = ring\<lparr>slot_index := (slot_index ring)[unat di := si]\<rparr>"

definition ixmap_slot_detach :: "ixmap_ring \<Rightarrow> u16 \<Rightarrow> int" where
  "ixmap_slot_detach ring di = slot_index ring ! unat di"

text \<open>The scan of \<open>ixmap_slot_assign\<close>; the first argument counts the iterations left.\<close>

fun slot_scan :: "nat \<Rightarrow> ixmap_buf \<Rightarrow> u32 \<Rightarrow> u32 \<Rightarrow> u32 option" where
  "slot_scan 0 buf offset slot_next = None"
| "slot_scan (Suc n) buf offset slot_next =
     (if slots buf ! nat (sint (offset + slot_next)) AND IXMAP_SLOT_INFLIGHT = 0
      then Some slot_next
      else slot_scan n buf offset (if slot_next + 1 = buf_count buf then 0 else slot_next + 1))"

definition ixmap_slot_assign :: "ixmap_buf \<Rightarrow> ixmap_port \<Rightarrow> int \<times> ixmap_buf \<times> ixmap_port" where
  "ixmap_slot_assign buf port =
     (case slot_scan (unat (buf_count buf)) buf (rx_slot_offset port) (rx_slot_next port) of
        None \<Rightarrow> (-1, buf, port)
      | Some slot_next \<Rightarrow>
          let si = sint (rx_slot_offset port + slot_next);
              nxt = (if slot_next + 1 = buf_count buf then 0 else slot_next + 1)
          in (si,
              buf\<lparr>slots := (slots buf)[nat si := slots buf ! nat si OR IXMAP_SLOT_INFLIGHT]\<rparr>,
              port\<lparr>rx_slot_next := nxt\<rparr>))"

text \<open>
  Both producers fill the descriptor at \<open>next_to_use\<close> and advance it, both consumers advance
  \<open>next_to_clean\<close>; an index that reaches the ring size becomes 0.
\<close>

definition ring_push :: "u32 \<Rightarrow> int \<Rightarrow> adv_desc \<Rightarrow> ixmap_ring \<Rightarrow> ixmap_ring" where
  "ring_push num_desc si d ring =
     (let ring1 = ixmap_slot_attach ring (next_to_use ring) si;
          ring2 = ring1\<lparr>descs := (descs ring1)[unat (next_to_use ring1) := d]\<rparr>;
          ntu = next_to_use ring2 + 1
      in ring2\<lparr>next_to_use := (if ucast ntu < num_desc then ntu else 0)\<rparr>)"

definition ring_pop :: "u32 \<Rightarrow> ixmap_ring \<Rightarrow> ixmap_ring" where
  "ring_pop num_desc ring =
     (let ntc = next_to_clean ring + 1
      in ring\<lparr>next_to_clean := (if ucast ntc < num_desc then ntc else 0)\<rparr>)"

text \<open>The loop of \<open>ixmap_rx_assign\<close>; the second argument is \<open>max_allocation - total_allocated\<close>.\<close>

fun rx_assign_loop :: "nat \<Rightarrow> nat \<Rightarrow> u32 \<Rightarrow> ixmap_port \<Rightarrow> ixmap_buf \<Rightarrow> u32 \<times> ixmap_port \<times> ixmap_buf" where
  "rx_assign_loop pi 0 total_count port buf = (total_count, port, buf)"
| "rx_assign_loop pi (Suc n) total_count port buf =
     (case ixmap_slot_assign buf port of
        (si, buf1, port1) \<Rightarrow>
          if si < 0
          then (total_count,
                port1\<lparr>count_rx_alloc_failed := count_rx_alloc_failed port1 + of_nat (Suc n)\<rparr>, buf1)
          else let d = rx_read_desc (ixmap_slot_addr_dma buf1 si pi);
                   ring = ring_push (num_rx_desc port1) si d (rx_ring port1)
               in rx_assign_loop pi n (total_count + 1) (port1\<lparr>rx_ring := ring\<rparr>) buf1)"

definition ixmap_rx_assign :: "ixmap_plane \<Rightarrow> nat \<Rightarrow> ixmap_buf \<Rightarrow> ixmap_plane \<times> ixmap_buf" where
  "ixmap_rx_assign plane pi buf =
     (let port = get_port plane pi;
          max_allocation = ixmap_desc_unused (rx_ring port) (ucast (num_rx_desc port))
      in if max_allocation = 0 then (plane, buf)
         else case rx_assign_loop pi (unat max_allocation) 0 port buf of
           (total_count, port1, buf1) \<Rightarrow>
             let plane1 = put_port pi port1 plane
             in (if total_count \<noteq> 0
                 then ixmap_write_tail (rx_ring port1) (ucast (next_to_use (rx_ring port1))) plane1
                 else plane1, buf1))"

definition tx_desc_of :: "ixmap_buf \<Rightarrow> nat \<Rightarrow> ixmap_packet \<Rightarrow> adv_desc" where
  "tx_desc_of buf pi packet =
     (let tx_flags = IXGBE_ADVTXD_DTYP_DATA OR IXGBE_ADVTXD_DCMD_DEXT OR IXGBE_ADVTXD_DCMD_IFCS
      in tx_read_desc (ixmap_slot_addr_dma buf (pkt_slot packet) pi)
           (slot_size packet OR IXGBE_TXD_CMD_EOP OR IXGBE_TXD_CMD_RS OR tx_flags)
           (push_bit 14 (slot_size packet)))"

definition ixmap_tx_assign ::
    "ixmap_plane \<Rightarrow> nat \<Rightarrow> ixmap_buf \<Rightarrow> ixmap_packet \<Rightarrow> ixmap_plane \<times> ixmap_buf" where
  "ixmap_tx_assign plane pi buf packet =
     (let port = get_port plane pi;
          failed = (put_port pi (port\<lparr>count_tx_xmit_failed := count_tx_xmit_failed port + 1\<rparr>) plane,
                    ixmap_slot_release buf (pkt_slot packet))
      in if ixmap_desc_unused (tx_ring port) (ucast (num_tx_desc port)) = 0 then failed
         else if slot_size packet > IXGBE_MAX_DATA_PER_TXD then failed
         else let ring = ring_push (num_tx_desc port) (pkt_slot packet)
                           (tx_desc_of buf pi packet) (tx_ring port)
              in (put_port pi (port\<lparr>tx_ring := ring, tx_suspended := tx_suspended port + 1\<rparr>) plane,
                  buf))"

definition ixmap_tx_xmit :: "ixmap_plane \<Rightarrow> nat \<Rightarrow> ixmap_plane" where
  "ixmap_tx_xmit plane pi =
     (let port = get_port plane pi
      in if tx_suspended port \<noteq> 0
         then put_port pi (port\<lparr>tx_suspended := 0\<rparr>)
                (ixmap_write_tail (tx_ring port) (ucast (next_to_use (tx_ring port))) plane)
         else plane)"

text \<open>The loops of the two consumers; the first argument is the budget that is left.\<close>

fun rx_clean_loop :: "nat \<Rightarrow> ixmap_buf \<Rightarrow> ixmap_port \<Rightarrow> ixmap_packet list \<times> ixmap_port" where
  "rx_clean_loop 0 buf port = ([], port)"
| "rx_clean_loop (Suc n) buf port =
     (let ring = rx_ring port; d = descs ring ! unat (next_to_clean ring)
      in if next_to_clean ring = next_to_use ring then ([], port)
         else if ixmap_test_staterr d IXGBE_RXD_STAT_DD = 0 then ([], port)
         else let si = ixmap_slot_detach ring (next_to_clean ring);
                  packet = \<lparr>slot_buf = ixmap_slot_addr_virt buf (word_of_int si),
                            slot_size = ucast (rx_length d), pkt_slot = si\<rparr>;
                  port1 = port\<lparr>rx_ring := ring_pop (num_rx_desc port) ring\<rparr>
              in case rx_clean_loop n buf port1 of (packets, port2) \<Rightarrow> (packet # packets, port2))"

definition ixmap_rx_clean :: "ixmap_plane \<Rightarrow> nat \<Rightarrow> ixmap_buf \<Rightarrow> ixmap_packet list \<times> ixmap_plane" where
  "ixmap_rx_clean plane pi buf =
     (let port = get_port plane pi
      in case rx_clean_loop (unat (rx_budget port)) buf port of
           (packets, port1) \<Rightarrow>
             (packets,
              put_port pi (port1\<lparr>count_rx_clean_total :=
                count_rx_clean_total port1 + of_nat (length packets)\<rparr>) plane))"

fun tx_clean_loop :: "nat \<Rightarrow> u32 \<Rightarrow> ixmap_port \<Rightarrow> ixmap_buf \<Rightarrow> u32 \<times> ixmap_port \<times> ixmap_buf" where
  "tx_clean_loop 0 total_count port buf = (total_count, port, buf)"
| "tx_clean_loop (Suc n) total_count port buf =
     (let ring = tx_ring port; d = descs ring ! unat (next_to_clean ring)
      in if next_to_clean ring = next_to_use ring then (total_count, port, buf)
         else if tx_wb_status d AND IXGBE_TXD_STAT_DD = 0 then (total_count, port, buf)
         else let si = ixmap_slot_detach ring (next_to_clean ring)
              in tx_clean_loop n (total_count + 1)
                   (port\<lparr>tx_ring := ring_pop (num_tx_desc port) ring\<rparr>) (ixmap_slot_release buf si))"

definition ixmap_tx_clean :: "ixmap_plane \<Rightarrow> nat \<Rightarrow> ixmap_buf \<Rightarrow> ixmap_plane \<times> ixmap_buf" where
  "ixmap_tx_clean plane pi buf =
     (let port = get_port plane pi
      in case tx_clean_loop (unat (tx_budget port)) 0 port buf of
           (total_count, port1, buf1) \<Rightarrow>
             (put_port pi (port1\<lparr>count_tx_clean_total :=
                count_tx_clean_total port1 + ucast total_count\<rparr>) plane, buf1))"

section \<open>The interface of a bounded queue\<close>

text \<open>
  What the loops of the driver use of a ring: \<open>push\<close> appends while there is room, \<open>pop\<close> removes the
  oldest element.
\<close>

locale bounded_fifo =
  fixes wf :: "'s \<Rightarrow> bool"
    and room :: "'s \<Rightarrow> nat"
    and contents :: "'s \<Rightarrow> 'a list"
    and push :: "'a \<Rightarrow> 's \<Rightarrow> 's"
    and pop :: "'s \<Rightarrow> 's"
  assumes push_wf: "wf s \<Longrightarrow> wf (push x s)"
    and push_contents: "\<lbrakk>wf s; 0 < room s\<rbrakk> \<Longrightarrow> contents (push x s) = contents s @ [x]"
    and push_room: "\<lbrakk>wf s; 0 < room s\<rbrakk> \<Longrightarrow> room (push x s) = room s - 1"
    and pop_wf: "wf s \<Longrightarrow> wf (pop s)"
    and pop_contents: "\<lbrakk>wf s; contents s \<noteq> []\<rbrakk> \<Longrightarrow> contents (pop s) = tl (contents s)"
    and pop_room: "\<lbrakk>wf s; contents s \<noteq> []\<rbrakk> \<Longrightarrow> room (pop s) = room s + 1"
begin

lemma fold_push:
  assumes "wf s" "length xs \<le> room s"
  shows "wf (fold push xs s) \<and> contents (fold push xs s) = contents s @ xs \<and>
    room (fold push xs s) = room s - length xs"
  using assms
proof (induction xs arbitrary: s)
  case (Cons x xs)
  then have "wf (push x s)" "contents (push x s) = contents s @ [x]" "room (push x s) = room s - 1"
    using push_wf push_contents push_room by auto
  then show ?case using Cons.IH [of "push x s"] Cons.prems by auto
qed simp

lemma funpow_pop:
  assumes "wf s" "k \<le> length (contents s)"
  shows "wf ((pop ^^ k) s) \<and> contents ((pop ^^ k) s) = drop k (contents s) \<and>
    room ((pop ^^ k) s) = room s + k"
  using assms
proof (induction k)
  case (Suc k)
  then have IH: "wf ((pop ^^ k) s)" "contents ((pop ^^ k) s) = drop k (contents s)"
      "room ((pop ^^ k) s) = room s + k" by auto
  have ne: "contents ((pop ^^ k) s) \<noteq> []" using IH Suc.prems by simp
  show ?case
    using pop_wf [OF IH(1)] pop_contents [OF IH(1) ne] pop_room [OF IH(1) ne] IH
    by (simp add: drop_Suc tl_drop)
qed simp

end

section \<open>A ring as a queue\<close>

text \<open>
  The contents of a ring are the (slot, descriptor) pairs from \<open>next_to_clean\<close> up to
  \<open>next_to_use\<close>, cyclically; one descriptor always stays empty.
\<close>

definition ring_used :: "nat \<Rightarrow> ixmap_ring \<Rightarrow> nat" where
  "ring_used n ring = (unat (next_to_use ring) + n - unat (next_to_clean ring)) mod n"

definition ring_queue :: "nat \<Rightarrow> ixmap_ring \<Rightarrow> (int \<times> adv_desc) list" where
  "ring_queue n ring =
     map (\<lambda>k. (slot_index ring ! ((unat (next_to_clean ring) + k) mod n),
              descs ring ! ((unat (next_to_clean ring) + k) mod n))) [0..<ring_used n ring]"

definition ring_slots :: "nat \<Rightarrow> ixmap_ring \<Rightarrow> int list" where
  "ring_slots n ring = map fst (ring_queue n ring)"

definition ring_wf :: "nat \<Rightarrow> ixmap_ring \<Rightarrow> bool" where
  "ring_wf n ring \<longleftrightarrow> 0 < n \<and> n \<le> 65536 \<and> unat (next_to_use ring) < n \<and>
     unat (next_to_clean ring) < n \<and> length (slot_index ring) = n \<and> length (descs ring) = n"

lemma cyclic_step:
  fixes i n :: nat
  assumes "i < n"
  shows "(i + 1) mod n = (if i + 1 < n then i + 1 else 0)"
  using assms by (cases "i + 1 = n") auto

lemma ring_next_index:
  fixes i :: u16 and num :: u32
  assumes "unat i < unat num" "unat num \<le> 65536"
  shows "unat (if ucast (i + 1) < num then i + 1 else 0) = (unat i + 1) mod unat num"
proof (cases "unat i = 65535")
  case True
  then have "unat (i + 1) = 0" by (simp add: unat_word_ariths)
  then have "i + 1 = 0" by (simp add: unat_eq_0)
  moreover have "unat num = 65536" using True assms by simp
  ultimately show ?thesis using True by simp
next
  case False
  then have "unat i < 65535" using unat_bound_u16 [of i] by linarith
  then have "unat (i + 1) = unat i + 1" by (simp add: unat_word_ariths)
  moreover have "unat (ucast (i + 1) :: u32) = unat (i + 1)"
    by simp
  ultimately show ?thesis
    using assms cyclic_step [OF assms(1)] by (simp add: word_less_nat_alt)
qed

lemma cyclic_distance:
  fixes c k n :: nat
  assumes "c < n" "k < n"
  shows "((c + k) mod n + n - c) mod n = k"
  using assms by (cases "c + k < n") (auto simp: mod_if)

lemma cyclic_inj:
  fixes c k l n :: nat
  assumes "c < n" "k < n" "l < n" "(c + k) mod n = (c + l) mod n"
  shows "k = l"
  using assms cyclic_distance by metis

lemma ring_used_less: "ring_wf n ring \<Longrightarrow> ring_used n ring < n"
  by (simp add: ring_used_def ring_wf_def)

lemma ring_used_end:
  assumes "ring_wf n ring"
  shows "(unat (next_to_clean ring) + ring_used n ring) mod n = unat (next_to_use ring)"
  using assms by (simp add: ring_used_def ring_wf_def mod_add_right_eq)

lemma ring_used_eqI:
  assumes "ring_wf n ring" "k < n" "(unat (next_to_clean ring) + k) mod n = unat (next_to_use ring)"
  shows "ring_used n ring = k"
  using assms cyclic_distance [of "unat (next_to_clean ring)" n k]
  by (simp add: ring_used_def ring_wf_def)

lemma length_ring_queue [simp]: "length (ring_queue n ring) = ring_used n ring"
  by (simp add: ring_queue_def)

lemma ring_push_fields [simp]:
  "next_to_clean (ring_push num si d ring) = next_to_clean ring"
  "slot_index (ring_push num si d ring) = (slot_index ring)[unat (next_to_use ring) := si]"
  "descs (ring_push num si d ring) = (descs ring)[unat (next_to_use ring) := d]"
  "tail (ring_push num si d ring) = tail ring"
  by (simp_all add: ring_push_def ixmap_slot_attach_def Let_def)

lemma ring_push_ntu:
  assumes "ring_wf (unat num) ring"
  shows "unat (next_to_use (ring_push num si d ring)) = (unat (next_to_use ring) + 1) mod unat num"
  using assms ring_next_index [of "next_to_use ring" num]
  by (simp split: if_splits add: ring_push_def ixmap_slot_attach_def Let_def ring_wf_def)

lemma ring_pop_fields [simp]:
  "next_to_use (ring_pop num ring) = next_to_use ring"
  "slot_index (ring_pop num ring) = slot_index ring"
  "descs (ring_pop num ring) = descs ring"
  "tail (ring_pop num ring) = tail ring"
  by (simp_all add: ring_pop_def Let_def)

lemma ring_pop_ntc:
  assumes "ring_wf (unat num) ring"
  shows "unat (next_to_clean (ring_pop num ring)) = (unat (next_to_clean ring) + 1) mod unat num"
  using assms ring_next_index [of "next_to_clean ring" num]
  by (simp split: if_splits add: ring_pop_def Let_def ring_wf_def)

lemma ring_push_wf [inv_intro]:
  assumes "ring_wf (unat num) ring"
  shows "ring_wf (unat num) (ring_push num si d ring)"
  using assms ring_push_ntu [OF assms] by (simp add: ring_wf_def)

lemma ring_pop_wf [inv_intro]:
  assumes "ring_wf (unat num) ring"
  shows "ring_wf (unat num) (ring_pop num ring)"
  using assms ring_pop_ntc [OF assms] by (simp add: ring_wf_def)

lemma ring_push_used:
  assumes wf: "ring_wf (unat num) ring" and room: "ring_used (unat num) ring + 1 < unat num"
  shows "ring_used (unat num) (ring_push num si d ring) = ring_used (unat num) ring + 1"
proof (rule ring_used_eqI)
  have "(unat (next_to_clean ring) + (ring_used (unat num) ring + 1)) mod unat num
      = ((unat (next_to_clean ring) + ring_used (unat num) ring) mod unat num + 1) mod unat num"
    by (simp add: mod_Suc_eq)
  then show "(unat (next_to_clean (ring_push num si d ring)) + (ring_used (unat num) ring + 1))
      mod unat num = unat (next_to_use (ring_push num si d ring))"
    using ring_push_ntu [OF wf] ring_used_end [OF wf] by simp
qed (use wf room in \<open>auto intro: ring_push_wf\<close>)

lemma ring_push_queue:
  assumes wf: "ring_wf (unat num) ring" and room: "ring_used (unat num) ring + 1 < unat num"
  shows "ring_queue (unat num) (ring_push num si d ring) = ring_queue (unat num) ring @ [(si, d)]"
proof -
  let ?n = "unat num" and ?c = "unat (next_to_clean ring)" and ?u = "unat (next_to_use ring)"
  have neq: "?u \<noteq> (?c + k) mod ?n" if "k < ring_used ?n ring" for k
    using that cyclic_inj [of ?c ?n k "ring_used ?n ring"] ring_used_end [OF wf] ring_used_less [OF wf] wf
    by (auto simp: ring_wf_def)
  have "?u < length (slot_index ring)" "?u < length (descs ring)"
    using wf by (auto simp: ring_wf_def)
  then show ?thesis
    using neq by (simp add: ring_queue_def ring_push_used [OF wf room] ring_used_end [OF wf] nth_list_update)
qed

lemma ring_pop_used:
  assumes wf: "ring_wf (unat num) ring" and ne: "0 < ring_used (unat num) ring"
  shows "ring_used (unat num) (ring_pop num ring) = ring_used (unat num) ring - 1"
proof (rule ring_used_eqI)
  have "((unat (next_to_clean ring) + 1) mod unat num + (ring_used (unat num) ring - 1)) mod unat num
      = (unat (next_to_clean ring) + 1 + (ring_used (unat num) ring - 1)) mod unat num"
    by (rule mod_add_left_eq)
  then show "(unat (next_to_clean (ring_pop num ring)) + (ring_used (unat num) ring - 1))
      mod unat num = unat (next_to_use (ring_pop num ring))"
    using ring_pop_ntc [OF wf] ring_used_end [OF wf] ne by simp
qed (use wf ring_used_less [OF wf] in \<open>auto intro: ring_pop_wf\<close>)

lemma ring_pop_queue:
  assumes wf: "ring_wf (unat num) ring" and ne: "ring_queue (unat num) ring \<noteq> []"
  shows "ring_queue (unat num) (ring_pop num ring) = tl (ring_queue (unat num) ring)"
proof -
  have pos: "0 < ring_used (unat num) ring" using ne by (metis length_greater_0_conv length_ring_queue)
  have "((unat (next_to_clean ring) + 1) mod unat num + k) mod unat num
      = (unat (next_to_clean ring) + Suc k) mod unat num" for k
    using mod_add_left_eq [of "unat (next_to_clean ring) + 1" "unat num" k] by simp
  then show ?thesis
    by (simp add: ring_queue_def ring_pop_used [OF wf pos] ring_pop_ntc [OF wf] list_eq_iff_nth_eq nth_tl
        less_diff_conv)
qed

lemma ring_queue_empty_iff:
  assumes "ring_wf n ring"
  shows "ring_queue n ring = [] \<longleftrightarrow> next_to_clean ring = next_to_use ring"
proof -
  have "ring_used n ring = 0 \<longleftrightarrow> unat (next_to_clean ring) = unat (next_to_use ring)"
    using assms ring_used_end [OF assms] ring_used_eqI [OF assms, of 0] by (auto simp: ring_wf_def)
  then show ?thesis by (metis length_0_conv length_ring_queue word_unat_eq_iff)
qed

lemma ring_queue_front:
  assumes "ring_wf n ring" "ring_queue n ring \<noteq> []"
  shows "hd (ring_queue n ring) = (ixmap_slot_detach ring (next_to_clean ring),
     descs ring ! unat (next_to_clean ring))"
  using assms by (simp add: hd_conv_nth ixmap_slot_detach_def)
     (simp add: ring_queue_def ring_wf_def)

lemma unat_of_nat_u16: "k < 65536 \<Longrightarrow> unat (of_nat k :: u16) = k"
  by (simp add: unat_of_nat)

lemma ring_used_cases:
  assumes "ring_wf n ring"
  shows "ring_used n ring =
    (if unat (next_to_use ring) < unat (next_to_clean ring)
     then unat (next_to_use ring) + n - unat (next_to_clean ring)
     else unat (next_to_use ring) - unat (next_to_clean ring))"
  using assms by (auto simp: ring_used_def ring_wf_def mod_if)

lemma ixmap_desc_unused_room:
  assumes wf: "ring_wf (unat num) ring"
  shows "unat (ixmap_desc_unused ring (ucast num)) = unat num - 1 - ring_used (unat num) ring"
proof -
  let ?n = "unat num" and ?c = "unat (next_to_clean ring)" and ?u = "unat (next_to_use ring)"
  let ?room = "?n - 1 - ring_used ?n ring"
  have b: "?u < ?n" "?c < ?n" "?n \<le> 65536" using wf by (auto simp: ring_wf_def)
  have w: "next_to_use ring = of_nat ?u" "next_to_clean ring = of_nat ?c" "(ucast num :: u16) = of_nat ?n"
    by (simp_all add: unsigned_ucast_eq word_unat_eq_iff unat_of_nat take_bit_eq_mod)
  have "ixmap_desc_unused ring (ucast num) = of_nat ?room"
  proof (cases "?u < ?c")
    case True
    then have "ixmap_desc_unused ring (ucast num) = of_nat ?c - of_nat ?u - 1"
      using w by (simp add: ixmap_desc_unused_def Let_def word_less_nat_alt)
    also have "\<dots> = of_nat (?c - ?u - 1)" using True by (simp add: of_nat_diff)
    finally show ?thesis using True b by (simp add: ring_used_cases [OF wf])
  next
    case False
    then have "ixmap_desc_unused ring (ucast num) = (of_nat ?n - of_nat ?u) + of_nat ?c - 1"
      using w by (simp add: ixmap_desc_unused_def Let_def word_less_nat_alt)
    also have "\<dots> = of_nat (?n - ?u + ?c - 1)" using b by (simp add: of_nat_diff)
    finally show ?thesis using False b by (simp add: ring_used_cases [OF wf])
  qed
  then show ?thesis using b by (simp add: unat_of_nat_u16)
qed

interpretation ring_fifo: bounded_fifo "ring_wf (unat num)"
    "\<lambda>ring. unat (ixmap_desc_unused ring (ucast num))" "ring_queue (unat num)"
    "\<lambda>(si, d). ring_push num si d" "ring_pop num" for num :: u32
proof unfold_locales
  fix ring and x :: "int \<times> adv_desc"
  assume wf: "ring_wf (unat num) ring"
  obtain si d where x: "x = (si, d)" by fastforce
  show "ring_wf (unat num) ((case x of (si, d) \<Rightarrow> ring_push num si d) ring)"
    using wf x by (simp add: ring_push_wf)
  show "ring_wf (unat num) (ring_pop num ring)" using wf by (rule ring_pop_wf)
  show "ring_queue (unat num) ((case x of (si, d) \<Rightarrow> ring_push num si d) ring) = ring_queue (unat num) ring @ [x]"
    if "0 < unat (ixmap_desc_unused ring (ucast num))"
    using that wf x by (simp add: ixmap_desc_unused_room ring_push_queue)
  show "unat (ixmap_desc_unused ((case x of (si, d) \<Rightarrow> ring_push num si d) ring) (ucast num))
      = unat (ixmap_desc_unused ring (ucast num)) - 1"
    if "0 < unat (ixmap_desc_unused ring (ucast num))"
    using that wf x by (simp add: ixmap_desc_unused_room ring_push_wf ring_push_used)
  show "ring_queue (unat num) (ring_pop num ring) = tl (ring_queue (unat num) ring)"
    if "ring_queue (unat num) ring \<noteq> []"
    using wf that by (rule ring_pop_queue)
  show "unat (ixmap_desc_unused (ring_pop num ring) (ucast num))
      = unat (ixmap_desc_unused ring (ucast num)) + 1"
    if "ring_queue (unat num) ring \<noteq> []"
  proof -
    have "0 < ring_used (unat num) ring" using that by (metis length_greater_0_conv length_ring_queue)
    then show ?thesis using wf ring_used_less [OF wf]
      by (simp add: ixmap_desc_unused_room ring_pop_wf ring_pop_used)
  qed
qed

section \<open>Slots\<close>

definition slot_free :: "ixmap_buf \<Rightarrow> nat \<Rightarrow> bool" where
  "slot_free buf i \<longleftrightarrow> slots buf ! i AND IXMAP_SLOT_INFLIGHT = 0"

text \<open>The slots a port may assign: its own \<open>count\<close> slots from \<open>rx_slot_offset\<close>.\<close>

definition port_slots :: "ixmap_buf \<Rightarrow> ixmap_port \<Rightarrow> nat set" where
  "port_slots buf port =
     {unat (rx_slot_offset port) ..< unat (rx_slot_offset port) + unat (buf_count buf)}"

definition slots_wf :: "ixmap_buf \<Rightarrow> ixmap_port \<Rightarrow> bool" where
  "slots_wf buf port \<longleftrightarrow> length (slots buf) < 2 ^ 31 \<and>
     unat (rx_slot_offset port) + unat (buf_count buf) \<le> length (slots buf) \<and>
     unat (rx_slot_next port) < unat (buf_count buf)"

lemma slot_next_index:
  fixes i num :: u32
  assumes "unat i < unat num"
  shows "unat (if i + 1 = num then 0 else i + 1) = (unat i + 1) mod unat num"
proof -
  have "unat i < 4294967295" using assms unat_bound_u32 [of num] by linarith
  then have "unat (i + 1) = unat i + 1" by (simp add: unat_word_ariths)
  then show ?thesis using assms cyclic_step [OF assms] by (auto simp: word_unat_eq_iff)
qed

lemma slot_index_value:
  fixes offset s :: u32
  assumes "unat offset + unat s < 2 ^ 31"
  shows "sint (offset + s) = int (unat offset + unat s)"
proof -
  have "unat (offset + s) = unat offset + unat s" using assms by (simp add: unat_word_ariths)
  then show ?thesis using assms sint_small [of "offset + s"] by simp
qed

lemma slot_index_nat:
  fixes offset s :: u32
  assumes "unat offset + unat s < 2 ^ 31"
  shows "nat (sint (offset + s)) = unat offset + unat s"
  using slot_index_value [OF assms] by (simp only: nat_int)

text \<open>The scan visits the slots of the port cyclically and stops at the first free one.\<close>

lemma slot_scan_Some:
  assumes "slot_scan m buf offset nxt = Some s" "unat nxt < unat (buf_count buf)"
    "unat offset + unat (buf_count buf) < 2 ^ 31"
  shows "\<exists>k<m. unat s = (unat nxt + k) mod unat (buf_count buf) \<and> slot_free buf (unat offset + unat s) \<and>
    (\<forall>j<k. \<not> slot_free buf (unat offset + (unat nxt + j) mod unat (buf_count buf)))"
  using assms
proof (induction m arbitrary: nxt)
  case (Suc m)
  let ?c = "unat (buf_count buf)" and ?n' = "if nxt + 1 = buf_count buf then 0 else nxt + 1"
  have idx: "nat (sint (offset + nxt)) = unat offset + unat nxt"
    using Suc.prems by (intro slot_index_nat) simp
  show ?case
  proof (cases "slot_free buf (unat offset + unat nxt)")
    case True
    then show ?thesis using Suc.prems idx by (intro exI [of _ 0]) (simp add: slot_free_def)
  next
    case False
    have n': "unat ?n' = (unat nxt + 1) mod ?c" using Suc.prems by (intro slot_next_index)
    have scan: "slot_scan m buf offset ?n' = Some s"
      using False Suc.prems(1) idx by (simp add: slot_free_def)
    have "unat ?n' < ?c" using n' Suc.prems(2) by simp
    from Suc.IH [OF scan this Suc.prems(3)] obtain k where k: "k < m" "unat s = (unat ?n' + k) mod ?c"
      "slot_free buf (unat offset + unat s)"
      "\<forall>j<k. \<not> slot_free buf (unat offset + (unat ?n' + j) mod ?c)" by blast
    have shift: "(unat ?n' + j) mod ?c = (unat nxt + Suc j) mod ?c" for j
      using mod_add_left_eq [of "unat nxt + 1" ?c j] n' by simp
    have "\<not> slot_free buf (unat offset + (unat nxt + j) mod ?c)" if "j < Suc k" for j
      using that k(4) False Suc.prems(2) by (cases j) (auto simp: shift)
    then show ?thesis using k(1-3) shift by (intro exI [of _ "Suc k"]) auto
  qed
qed simp

lemma slot_scan_None:
  assumes "slot_scan m buf offset nxt = None" "unat nxt < unat (buf_count buf)"
    "unat offset + unat (buf_count buf) < 2 ^ 31" "k < m"
  shows "\<not> slot_free buf (unat offset + (unat nxt + k) mod unat (buf_count buf))"
  using assms
proof (induction m arbitrary: nxt k)
  case (Suc m)
  let ?c = "unat (buf_count buf)" and ?n' = "if nxt + 1 = buf_count buf then 0 else nxt + 1"
  have idx: "nat (sint (offset + nxt)) = unat offset + unat nxt"
    using Suc.prems by (intro slot_index_nat) simp
  have n': "unat ?n' = (unat nxt + 1) mod ?c" using Suc.prems by (intro slot_next_index)
  have "slot_scan m buf offset ?n' = None" and here: "\<not> slot_free buf (unat offset + unat nxt)"
    using Suc.prems(1) idx by (auto simp: slot_free_def split: if_splits)
  moreover have "unat ?n' < ?c" using n' Suc.prems(2) by simp
  ultimately have IH: "\<not> slot_free buf (unat offset + (unat ?n' + j) mod ?c)" if "j < m" for j
    using Suc.IH Suc.prems(3) that by blast
  have shift: "(unat ?n' + j) mod ?c = (unat nxt + Suc j) mod ?c" for j
    using mod_add_left_eq [of "unat nxt + 1" ?c j] n' by simp
  show ?case using IH [unfolded shift] here Suc.prems by (cases k) auto
qed simp

lemma cyclic_cover:
  fixes x i c :: nat
  assumes "x < c" "i < c"
  shows "\<exists>k<c. (x + k) mod c = i"
  using assms by (intro exI [of _ "(i + c - x) mod c"]) (auto simp: mod_add_right_eq)

lemma ixmap_slot_assign_cases:
  assumes wf: "slots_wf buf port"
  obtains (none) "\<forall>i \<in> port_slots buf port. \<not> slot_free buf i" "ixmap_slot_assign buf port = (-1, buf, port)"
  | (some) i k nxt where "k < unat (buf_count buf)"
      "i = unat (rx_slot_offset port) + (unat (rx_slot_next port) + k) mod unat (buf_count buf)"
      "slot_free buf i"
      "\<forall>j<k. \<not> slot_free buf (unat (rx_slot_offset port) +
         (unat (rx_slot_next port) + j) mod unat (buf_count buf))"
      "unat nxt = (unat (rx_slot_next port) + Suc k) mod unat (buf_count buf)"
      "ixmap_slot_assign buf port =
         (int i, buf\<lparr>slots := (slots buf)[i := slots buf ! i OR IXMAP_SLOT_INFLIGHT]\<rparr>,
          port\<lparr>rx_slot_next := nxt\<rparr>)"
proof (cases "slot_scan (unat (buf_count buf)) buf (rx_slot_offset port) (rx_slot_next port)")
  case None
  have "\<not> slot_free buf i" if "i \<in> port_slots buf port" for i
  proof -
    have "i - unat (rx_slot_offset port) < unat (buf_count buf)"
      using that by (auto simp: port_slots_def)
    then obtain k where "k < unat (buf_count buf)"
      "(unat (rx_slot_next port) + k) mod unat (buf_count buf) = i - unat (rx_slot_offset port)"
      using cyclic_cover wf by (metis slots_wf_def)
    then show ?thesis
      using slot_scan_None [OF None, of k] wf that by (auto simp: slots_wf_def port_slots_def)
  qed
  then show thesis using None none by (simp add: ixmap_slot_assign_def)
next
  case (Some s)
  let ?c = "unat (buf_count buf)" and ?off = "unat (rx_slot_offset port)" and ?n = "unat (rx_slot_next port)"
  let ?nxt = "if s + 1 = buf_count buf then 0 else s + 1"
  have small: "?off + ?c < 2 ^ 31" and n: "?n < ?c" using wf by (auto simp: slots_wf_def)
  obtain k where k: "k < ?c" "unat s = (?n + k) mod ?c" "slot_free buf (?off + unat s)"
    "\<forall>j<k. \<not> slot_free buf (?off + (?n + j) mod ?c)"
    using slot_scan_Some [OF Some n small] by blast
  have s: "unat s < ?c" using k(2) n by simp
  have "unat ?nxt = (?n + Suc k) mod ?c"
    using slot_next_index [OF s] k(2) by (simp add: mod_Suc_eq)
  moreover have "ixmap_slot_assign buf port = (int (?off + unat s),
      buf\<lparr>slots := (slots buf)[?off + unat s := slots buf ! (?off + unat s) OR IXMAP_SLOT_INFLIGHT]\<rparr>,
      port\<lparr>rx_slot_next := ?nxt\<rparr>)"
    using s small slot_index_value [of "rx_slot_offset port" s] slot_index_nat [of "rx_slot_offset port" s]
    by (simp add: ixmap_slot_assign_def Let_def Some)
  ultimately show thesis using some [of k "?off + (?n + k) mod ?c" ?nxt] k by simp
qed

section \<open>The loops in terms of the queue\<close>

abbreviation rx_done :: "int \<times> adv_desc \<Rightarrow> bool" where
  "rx_done e \<equiv> ixmap_test_staterr (snd e) IXGBE_RXD_STAT_DD \<noteq> 0"

abbreviation tx_done :: "int \<times> adv_desc \<Rightarrow> bool" where
  "tx_done e \<equiv> tx_wb_status (snd e) AND IXGBE_TXD_STAT_DD \<noteq> 0"

abbreviation rx_queue :: "ixmap_port \<Rightarrow> (int \<times> adv_desc) list" where
  "rx_queue port \<equiv> ring_queue (unat (num_rx_desc port)) (rx_ring port)"

abbreviation tx_queue :: "ixmap_port \<Rightarrow> (int \<times> adv_desc) list" where
  "tx_queue port \<equiv> ring_queue (unat (num_tx_desc port)) (tx_ring port)"

definition rx_packet :: "ixmap_buf \<Rightarrow> int \<times> adv_desc \<Rightarrow> ixmap_packet" where
  "rx_packet buf e = \<lparr>slot_buf = ixmap_slot_addr_virt buf (word_of_int (fst e)),
     slot_size = ucast (rx_length (snd e)), pkt_slot = fst e\<rparr>"

definition port_wf :: "ixmap_port \<Rightarrow> bool" where
  "port_wf port \<longleftrightarrow> ring_wf (unat (num_rx_desc port)) (rx_ring port) \<and>
     ring_wf (unat (num_tx_desc port)) (tx_ring port)"

lemma rx_clean_loop_spec:
  assumes "ring_wf (unat (num_rx_desc port)) (rx_ring port)"
    "xs = take m (takeWhile rx_done (rx_queue port))"
  shows "rx_clean_loop m buf port = (map (rx_packet buf) xs,
    port\<lparr>rx_ring := (ring_pop (num_rx_desc port) ^^ length xs) (rx_ring port)\<rparr>)"
  using assms
proof (induction m arbitrary: port xs)
  case (Suc m)
  note wf = Suc.prems(1)
  let ?ring = "rx_ring port" and ?port1 = "port\<lparr>rx_ring := ring_pop (num_rx_desc port) (rx_ring port)\<rparr>"
  let ?xs1 = "take m (takeWhile rx_done (rx_queue ?port1))"
  show ?case
  proof (cases "rx_queue port")
    case Nil
    then show ?thesis using Suc.prems(2) ring_queue_empty_iff [OF wf] by simp
  next
    case (Cons e q)
    then have e: "e = (ixmap_slot_detach ?ring (next_to_clean ?ring), descs ?ring ! unat (next_to_clean ?ring))"
      and neq: "next_to_clean ?ring \<noteq> next_to_use ?ring"
      using ring_queue_front [OF wf] ring_queue_empty_iff [OF wf] by auto
    have "rx_queue ?port1 = q" using Cons ring_pop_queue [OF wf] by simp
    moreover have "rx_clean_loop m buf ?port1 = (map (rx_packet buf) ?xs1,
        ?port1\<lparr>rx_ring := (ring_pop (num_rx_desc ?port1) ^^ length ?xs1) (rx_ring ?port1)\<rparr>)"
      using wf by (intro Suc.IH) (auto intro: ring_pop_wf)
    ultimately show ?thesis
      using Cons Suc.prems(2) e neq by (simp add: Let_def rx_packet_def funpow_swap1)
  qed
qed simp

lemma tx_clean_loop_spec:
  assumes "ring_wf (unat (num_tx_desc port)) (tx_ring port)"
    "xs = take m (takeWhile tx_done (tx_queue port))"
  shows "tx_clean_loop m t port buf = (t + of_nat (length xs),
    port\<lparr>tx_ring := (ring_pop (num_tx_desc port) ^^ length xs) (tx_ring port)\<rparr>,
    fold (\<lambda>e b. ixmap_slot_release b (fst e)) xs buf)"
  using assms
proof (induction m arbitrary: port xs t buf)
  case (Suc m)
  note wf = Suc.prems(1)
  let ?ring = "tx_ring port" and ?port1 = "port\<lparr>tx_ring := ring_pop (num_tx_desc port) (tx_ring port)\<rparr>"
  let ?xs1 = "take m (takeWhile tx_done (tx_queue ?port1))"
  show ?case
  proof (cases "tx_queue port")
    case Nil
    then show ?thesis using Suc.prems(2) ring_queue_empty_iff [OF wf] by simp
  next
    case (Cons e q)
    then have e: "e = (ixmap_slot_detach ?ring (next_to_clean ?ring), descs ?ring ! unat (next_to_clean ?ring))"
      and neq: "next_to_clean ?ring \<noteq> next_to_use ?ring"
      using ring_queue_front [OF wf] ring_queue_empty_iff [OF wf] by auto
    have "tx_queue ?port1 = q" using Cons ring_pop_queue [OF wf] by simp
    moreover have "tx_clean_loop m (t + 1) ?port1 b = (t + 1 + of_nat (length ?xs1),
        ?port1\<lparr>tx_ring := (ring_pop (num_tx_desc ?port1) ^^ length ?xs1) (tx_ring ?port1)\<rparr>,
        fold (\<lambda>e b. ixmap_slot_release b (fst e)) ?xs1 b)" for b
      using wf by (intro Suc.IH) (auto intro: ring_pop_wf)
    ultimately show ?thesis
      using Cons Suc.prems(2) e neq by (simp add: Let_def funpow_swap1 algebra_simps)
  qed
qed simp

definition free_slots :: "ixmap_buf \<Rightarrow> ixmap_port \<Rightarrow> nat set" where
  "free_slots buf port = {i \<in> port_slots buf port. slot_free buf i}"

definition mark_slot :: "nat \<Rightarrow> ixmap_buf \<Rightarrow> ixmap_buf" where
  "mark_slot i buf = buf\<lparr>slots := (slots buf)[i := slots buf ! i OR IXMAP_SLOT_INFLIGHT]\<rparr>"

lemma mark_slot_fields [simp]:
  "buf_count (mark_slot i buf) = buf_count buf" "buf_size (mark_slot i buf) = buf_size buf"
  "buf_dma (mark_slot i buf) = buf_dma buf" "buf_virt (mark_slot i buf) = buf_virt buf"
  "length (slots (mark_slot i buf)) = length (slots buf)"
  by (simp_all add: mark_slot_def)

lemma inflight_nonzero [simp]: "IXMAP_SLOT_INFLIGHT \<noteq> 0"
  by (simp add: IXMAP_SLOT_INFLIGHT_def)

lemma slot_free_mark:
  "i < length (slots buf) \<Longrightarrow> slot_free (mark_slot i buf) j \<longleftrightarrow> j \<noteq> i \<and> slot_free buf j"
  by (cases "j = i") (simp_all add: slot_free_def mark_slot_def)

lemma slots_wf_mark [inv_intro]:
  assumes "slots_wf buf port" "unat nxt < unat (buf_count buf)"
  shows "slots_wf (mark_slot i buf) (port\<lparr>rx_slot_next := nxt\<rparr>)"
  using assms by (simp add: slots_wf_def)

lemma port_slots_in_range: "\<lbrakk>slots_wf buf port; i \<in> port_slots buf port\<rbrakk> \<Longrightarrow> i < length (slots buf)"
  by (auto simp: slots_wf_def port_slots_def)

lemma port_slots_cong:
  "buf_count buf1 = buf_count buf \<Longrightarrow> rx_slot_offset port1 = rx_slot_offset port \<Longrightarrow>
   port_slots buf1 port1 = port_slots buf port"
  by (simp add: port_slots_def)

lemma finite_free_slots [simp]: "finite (free_slots buf port)"
  by (simp add: free_slots_def port_slots_def)

lemma free_slots_mark:
  assumes "slots_wf buf port" "i \<in> free_slots buf port"
  shows "free_slots (mark_slot i buf) (port\<lparr>rx_slot_next := nxt\<rparr>) = free_slots buf port - {i}"
  using assms port_slots_in_range [OF assms(1)]
  by (auto simp: free_slots_def slot_free_mark port_slots_def)

text \<open>The descriptor and slot pairs a call of \<open>ixmap_rx_assign\<close> puts on the ring.\<close>

definition rx_entry :: "nat \<Rightarrow> ixmap_buf \<Rightarrow> nat \<Rightarrow> int \<times> adv_desc" where
  "rx_entry pi buf i = (int i, rx_read_desc (ixmap_slot_addr_dma buf (int i) pi))"

lemma rx_entry_mark [simp]: "rx_entry pi (mark_slot j buf) = rx_entry pi buf"
  by (rule ext) (simp add: rx_entry_def ixmap_slot_addr_dma_def)

definition rx_assigned :: "nat \<Rightarrow> ixmap_buf \<Rightarrow> nat list \<Rightarrow> nat \<Rightarrow> u32 \<Rightarrow> ixmap_port \<Rightarrow> ixmap_port" where
  "rx_assigned pi buf is missed nxt port = port\<lparr>rx_slot_next := nxt,
     rx_ring := fold (\<lambda>(si, d). ring_push (num_rx_desc port) si d) (map (rx_entry pi buf) is) (rx_ring port),
     count_rx_alloc_failed := count_rx_alloc_failed port + of_nat missed\<rparr>"

lemma rx_assign_loop_spec:
  assumes "slots_wf buf port"
  shows "\<exists>is nxt. rx_assign_loop pi m t port buf =
      (t + of_nat (length is), rx_assigned pi buf is (m - length is) nxt port, fold mark_slot is buf) \<and>
    distinct is \<and> set is \<subseteq> free_slots buf port \<and> length is = min m (card (free_slots buf port)) \<and>
    unat nxt < unat (buf_count buf)"
  using assms
proof (induction m arbitrary: port buf t)
  case 0
  then show ?case
    by (intro exI [of _ "[]"] exI [of _ "rx_slot_next port"]) (simp add: rx_assigned_def slots_wf_def)
next
  case (Suc m)
  from Suc.prems show ?case
  proof (cases rule: ixmap_slot_assign_cases)
    case none
    then have "free_slots buf port = {}" by (auto simp: free_slots_def)
    then show ?thesis using none Suc.prems
      by (intro exI [of _ "[]"] exI [of _ "rx_slot_next port"]) (simp add: rx_assigned_def slots_wf_def)
  next
    case (some i k nxt)
    have c: "0 < unat (buf_count buf)" using Suc.prems by (simp add: slots_wf_def)
    then have i: "i \<in> free_slots buf port" using some by (auto simp: free_slots_def port_slots_def)
    let ?buf1 = "mark_slot i buf" and ?port1 = "port\<lparr>rx_slot_next := nxt\<rparr>"
    let ?ring1 = "ring_push (num_rx_desc port) (int i) (rx_read_desc (ixmap_slot_addr_dma buf (int i) pi)) (rx_ring port)"
    have wf1: "slots_wf ?buf1 (?port1\<lparr>rx_ring := ?ring1\<rparr>)"
      using slots_wf_mark [OF Suc.prems, of nxt i] c some(5) by (simp add: slots_wf_def)
    have free1: "free_slots ?buf1 (?port1\<lparr>rx_ring := ?ring1\<rparr>) = free_slots buf port - {i}"
      using free_slots_mark [OF Suc.prems i, of nxt] by (simp add: free_slots_def port_slots_def)
    from Suc.IH [OF wf1, of "t + 1"] obtain "is" nxt' where IH:
      "rx_assign_loop pi m (t + 1) (?port1\<lparr>rx_ring := ?ring1\<rparr>) ?buf1 = (t + 1 + of_nat (length is),
         rx_assigned pi ?buf1 is (m - length is) nxt' (?port1\<lparr>rx_ring := ?ring1\<rparr>), fold mark_slot is ?buf1)"
      "distinct is" "set is \<subseteq> free_slots buf port - {i}" "length is = min m (card (free_slots buf port - {i}))"
      "unat nxt' < unat (buf_count buf)" unfolding free1 by auto
    have "rx_assign_loop pi (Suc m) t port buf =
        rx_assign_loop pi m (t + 1) (?port1\<lparr>rx_ring := ?ring1\<rparr>) ?buf1"
      using some(6) by (simp add: mark_slot_def Let_def ixmap_slot_addr_dma_def)
    moreover have "rx_assigned pi ?buf1 is (m - length is) nxt' (?port1\<lparr>rx_ring := ?ring1\<rparr>) =
        rx_assigned pi buf (i # is) (Suc m - length (i # is)) nxt' port"
      by (simp add: rx_assigned_def comp_def) (simp add: rx_entry_def)
    ultimately have "rx_assign_loop pi (Suc m) t port buf = (t + of_nat (length (i # is)),
        rx_assigned pi buf (i # is) (Suc m - length (i # is)) nxt' port, fold mark_slot (i # is) buf)"
      unfolding IH(1) by simp
    moreover have "length (i # is) = min (Suc m) (card (free_slots buf port))"
      using IH(4) card_Suc_Diff1 [OF finite_free_slots i] by (simp add: min_def)
    moreover have "distinct (i # is)" "set (i # is) \<subseteq> free_slots buf port" using IH(2,3) i by auto
    ultimately show ?thesis using IH(5) by blast
  qed
qed

lemma get_put_port [simp]:
  "pi < length (ports plane) \<Longrightarrow> get_port (put_port pi port plane) pi = port"
  "pj \<noteq> pi \<Longrightarrow> get_port (put_port pi port plane) pj = get_port plane pj"
  "mmio (put_port pi port plane) = mmio plane"
  "length (ports (put_port pi port plane)) = length (ports plane)"
  by (simp_all add: get_port_def put_port_def)

lemma ixmap_writel_fields [simp]:
  "get_port (ixmap_writel v a plane) = get_port plane"
  "ports (ixmap_writel v a plane) = ports plane"
  "mmio (ixmap_writel v a plane) = mmio plane @ [(a, v)]"
  by (simp_all add: ixmap_writel_def get_port_def fun_eq_iff)

lemma rx_assigned_queue:
  assumes "ring_wf (unat (num_rx_desc port)) (rx_ring port)"
    "length is \<le> unat (ixmap_desc_unused (rx_ring port) (ucast (num_rx_desc port)))"
  shows "rx_queue (rx_assigned pi buf is missed nxt port) = rx_queue port @ map (rx_entry pi buf) is"
    "ring_wf (unat (num_rx_desc port)) (rx_ring (rx_assigned pi buf is missed nxt port))"
  using ring_fifo.fold_push [OF assms(1), of "map (rx_entry pi buf) is"] assms(2)
  by (simp_all add: rx_assigned_def)

lemma tail_fold_push: "tail (fold (\<lambda>(si, d). ring_push num si d) xs ring) = tail ring"
  by (induction xs arbitrary: ring) (simp_all add: case_prod_beta)

definition rx_published :: "nat \<Rightarrow> nat list \<Rightarrow> ixmap_port \<Rightarrow> ixmap_plane \<Rightarrow> ixmap_plane" where
  "rx_published pi is port1 plane = (if is = [] then put_port pi port1 plane
     else ixmap_write_tail (rx_ring port1) (ucast (next_to_use (rx_ring port1))) (put_port pi port1 plane))"

lemma ixmap_rx_assign_eq:
  assumes port: "port = get_port plane pi" and wf: "slots_wf buf port"
    and room: "room = unat (ixmap_desc_unused (rx_ring port) (ucast (num_rx_desc port)))"
  obtains "is" nxt where "distinct is" "set is \<subseteq> free_slots buf port"
    "length is = min room (card (free_slots buf port))" "unat nxt < unat (buf_count buf)"
    "ixmap_rx_assign plane pi buf =
       (rx_published pi is (rx_assigned pi buf is (room - length is) nxt port) plane, fold mark_slot is buf)"
proof -
  obtain "is" nxt where l: "rx_assign_loop pi room 0 port buf =
      (of_nat (length is), rx_assigned pi buf is (room - length is) nxt port, fold mark_slot is buf)"
    and p: "distinct is" "set is \<subseteq> free_slots buf port" "length is = min room (card (free_slots buf port))"
      "unat nxt < unat (buf_count buf)"
    using rx_assign_loop_spec [OF wf, of pi room 0] by auto
  show thesis
  proof (cases "room = 0")
    case True
    then have "ixmap_desc_unused (rx_ring port) (ucast (num_rx_desc port)) = 0"
      using room by (simp add: word_unat_eq_iff)
    then have "ixmap_rx_assign plane pi buf =
       (rx_published pi [] (rx_assigned pi buf [] (room - length []) (rx_slot_next port) port) plane, buf)"
      using True port
      by (simp add: ixmap_rx_assign_def Let_def rx_assigned_def rx_published_def put_port_def get_port_def)
    then show thesis using that [of "[]" "rx_slot_next port"] True wf by (simp add: slots_wf_def)
  next
    case False
    then have ne: "ixmap_desc_unused (rx_ring port) (ucast (num_rx_desc port)) \<noteq> 0"
      using room by auto
    have "room < 65536" using room by simp
    then have "length is < 65536" using p(3) by simp
    then have "(of_nat (length is) :: u32) = 0 \<longleftrightarrow> is = []"
      by (auto simp: word_unat_eq_iff unat_of_nat)
    then have "ixmap_rx_assign plane pi buf =
       (rx_published pi is (rx_assigned pi buf is (room - length is) nxt port) plane, fold mark_slot is buf)"
      using ne port l unfolding room by (simp add: ixmap_rx_assign_def Let_def rx_published_def)
    then show thesis using that p by blast
  qed
qed

lemma fold_mark_fields [simp]:
  "buf_count (fold mark_slot is buf) = buf_count buf"
  "length (slots (fold mark_slot is buf)) = length (slots buf)"
  by (induction "is" arbitrary: buf) simp_all

lemma slot_free_fold_mark:
  "\<forall>i \<in> set is. i < length (slots buf) \<Longrightarrow>
   slot_free (fold mark_slot is buf) j \<longleftrightarrow> j \<notin> set is \<and> slot_free buf j"
  by (induction "is" arbitrary: buf) (auto simp: slot_free_mark)

lemma rx_assigned_fields [simp]:
  "rx_slot_offset (rx_assigned pi buf is missed nxt port) = rx_slot_offset port"
  "rx_slot_next (rx_assigned pi buf is missed nxt port) = nxt"
  "num_rx_desc (rx_assigned pi buf is missed nxt port) = num_rx_desc port"
  "num_tx_desc (rx_assigned pi buf is missed nxt port) = num_tx_desc port"
  "tx_ring (rx_assigned pi buf is missed nxt port) = tx_ring port"
  "tail (rx_ring (rx_assigned pi buf is missed nxt port)) = tail (rx_ring port)"
  "count_rx_alloc_failed (rx_assigned pi buf is missed nxt port) =
     count_rx_alloc_failed port + of_nat missed"
  by (simp_all add: rx_assigned_def tail_fold_push)

lemma ixmap_rx_clean_eq:
  assumes "port = get_port plane pi" "port_wf port"
    "xs = take (unat (rx_budget port)) (takeWhile rx_done (rx_queue port))"
  shows "ixmap_rx_clean plane pi buf = (map (rx_packet buf) xs,
    put_port pi (port\<lparr>rx_ring := (ring_pop (num_rx_desc port) ^^ length xs) (rx_ring port),
      count_rx_clean_total := count_rx_clean_total port + of_nat (length xs)\<rparr>) plane)"
  using assms rx_clean_loop_spec [OF _ assms(3), of buf]
  by (simp add: ixmap_rx_clean_def Let_def port_wf_def)

lemma ixmap_tx_clean_eq:
  assumes "port = get_port plane pi" "port_wf port"
    "xs = take (unat (tx_budget port)) (takeWhile tx_done (tx_queue port))"
  shows "ixmap_tx_clean plane pi buf =
    (put_port pi (port\<lparr>tx_ring := (ring_pop (num_tx_desc port) ^^ length xs) (tx_ring port),
      count_tx_clean_total := count_tx_clean_total port + of_nat (length xs)\<rparr>) plane,
     fold (\<lambda>e b. ixmap_slot_release b (fst e)) xs buf)"
proof -
  have wf: "ring_wf (unat (num_tx_desc port)) (tx_ring port)" using assms by (simp add: port_wf_def)
  have "length xs \<le> length (tx_queue port)"
    using length_takeWhile_le [of tx_done "tx_queue port"] assms(3) by simp
  then have "length xs < 65536" using ring_used_less [OF wf] wf by (simp add: ring_wf_def)
  then have "(ucast (of_nat (length xs) :: u32) :: u64) = of_nat (length xs)"
    by (simp add: word_unat_eq_iff unat_of_nat)
  then show ?thesis
    using assms(1) tx_clean_loop_spec [OF wf assms(3), of 0 buf] by (simp add: ixmap_tx_clean_def Let_def)
qed

lemma tx_room_iff:
  assumes "port_wf port"
  shows "ixmap_desc_unused (tx_ring port) (ucast (num_tx_desc port)) = 0 \<longleftrightarrow>
    \<not> length (tx_queue port) + 1 < unat (num_tx_desc port)"
proof -
  have wf: "ring_wf (unat (num_tx_desc port)) (tx_ring port)" using assms by (simp add: port_wf_def)
  show ?thesis using ixmap_desc_unused_room [OF wf] by (simp add: word_unat_eq_iff) linarith
qed

lemma ixmap_tx_assign_eq:
  assumes "port = get_port plane pi" "port_wf port"
  shows "ixmap_tx_assign plane pi buf packet =
    (if length (tx_queue port) + 1 < unat (num_tx_desc port) \<and> slot_size packet \<le> IXGBE_MAX_DATA_PER_TXD
     then (put_port pi (port\<lparr>tx_ring := ring_push (num_tx_desc port) (pkt_slot packet)
        (tx_desc_of buf pi packet) (tx_ring port), tx_suspended := tx_suspended port + 1\<rparr>) plane, buf)
     else (put_port pi (port\<lparr>count_tx_xmit_failed := count_tx_xmit_failed port + 1\<rparr>) plane,
       ixmap_slot_release buf (pkt_slot packet)))"
  using assms(1) tx_room_iff [OF assms(2)] by (auto simp: ixmap_tx_assign_def Let_def dest: leD)

section \<open>A concrete plane\<close>

text \<open>One port with four-entry rings and two slots of 2048 bytes, used to instantiate the theorems.\<close>

definition ex_ring :: ixmap_ring where
  "ex_ring = \<lparr>ring_virt = 4096, ring_dma = 0x100000, tail = 64, next_to_use = 0, next_to_clean = 0,
     slot_index = [0, 0, 0, 0], descs = replicate 4 \<lparr>desc_lo = 0, desc_hi = 0\<rparr>\<rparr>"

definition ex_irq :: ixmap_irq_handle where
  "ex_irq = \<lparr>irq_fd = 5, qmask = 1, irq_vector = 40\<rparr>"

definition ex_port :: ixmap_port where
  "ex_port = \<lparr>irqreg0 = 16, irqreg1 = 20, rx_ring = ex_ring, tx_ring = ex_ring, rx_irq = ex_irq,
     tx_irq = ex_irq, rx_slot_next = 0, rx_slot_offset = 0, tx_suspended = 0, mtu_frame = 1518,
     num_tx_desc = 4, num_rx_desc = 4, num_queues = 1, rx_budget = 2, tx_budget = 2,
     mac_addr = [2, 0, 0, 0, 0, 1], interface_name = ''ixgbe0'', count_rx_alloc_failed = 0,
     count_rx_clean_total = 0, count_tx_xmit_failed = 0, count_tx_clean_total = 0\<rparr>"

definition ex_buf :: ixmap_buf where
  "ex_buf = \<lparr>buf_virt = 65536, buf_dma = [0x200000], buf_size = 2048, buf_count = 2, slots = [0, 0]\<rparr>"

definition ex_plane :: ixmap_plane where
  "ex_plane = \<lparr>ports = [ex_port], mmio = []\<rparr>"

text \<open>The plane after a refill of both slots, with both frames received: 60 bytes and 64 bytes.\<close>

definition ex_rx_ring :: ixmap_ring where
  "ex_rx_ring = ex_ring\<lparr>next_to_use := 2, slot_index := [0, 1, 0, 0],
     descs := [\<lparr>desc_lo = 0, desc_hi = 0x3C00000001\<rparr>, \<lparr>desc_lo = 0, desc_hi = 0x4000000001\<rparr>,
               \<lparr>desc_lo = 0, desc_hi = 0\<rparr>, \<lparr>desc_lo = 0, desc_hi = 0\<rparr>]\<rparr>"

definition ex_rx_plane :: ixmap_plane where
  "ex_rx_plane = \<lparr>ports = [ex_port\<lparr>rx_ring := ex_rx_ring\<rparr>], mmio = [(64, 2)]\<rparr>"

text \<open>The plane with slot 1 sent and written back by the card.\<close>

definition ex_tx_plane :: ixmap_plane where
  "ex_tx_plane = \<lparr>ports = [ex_port\<lparr>tx_ring := ex_ring\<lparr>next_to_use := 1, slot_index := [1, 0, 0, 0],
     descs := [\<lparr>desc_lo = 0, desc_hi = 0x100000000\<rparr>, \<lparr>desc_lo = 0, desc_hi = 0\<rparr>,
               \<lparr>desc_lo = 0, desc_hi = 0\<rparr>, \<lparr>desc_lo = 0, desc_hi = 0\<rparr>]\<rparr>\<rparr>], mmio = []\<rparr>"

definition ex_packet :: ixmap_packet where
  "ex_packet = \<lparr>slot_buf = 65536, slot_size = 60, pkt_slot = 0\<rparr>"

lemmas ex_defs = ex_ring_def ex_irq_def ex_port_def ex_buf_def ex_plane_def ex_rx_ring_def ex_rx_plane_def
  ex_tx_plane_def ex_packet_def get_port_def

lemma ex_wf [simp]:
  "port_wf (get_port ex_plane 0)" "port_wf (get_port ex_rx_plane 0)" "port_wf (get_port ex_tx_plane 0)"
  "slots_wf ex_buf (get_port ex_plane 0)"
  "length (ports ex_plane) = 1" "length (ports ex_rx_plane) = 1" "length (ports ex_tx_plane) = 1"
  by (simp_all add: ex_defs port_wf_def ring_wf_def slots_wf_def)

lemma ex_free [simp]: "free_slots ex_buf (get_port ex_plane 0) = {0, 1}"
  by (auto simp: free_slots_def port_slots_def slot_free_def ex_defs less_2_cases_iff)

text \<open>
  C1.  \<open>ixmap_rx_assign\<close> refills the receive ring: it appends to the ring one entry for each of
  \<open>min room free\<close> slots of the port that were free, each with the DMA address of its slot and a
  cleared status, marks exactly these slots in flight, counts the entries it could not fill, and
  writes the new tail to the card exactly when it added an entry.  Ring and slots stay well formed.
\<close>

theorem ixmap_rx_assign_correct:
  assumes "pi < length (ports plane)" "port = get_port plane pi" "slots_wf buf port" "port_wf port"
    "room = unat (ixmap_desc_unused (rx_ring port) (ucast (num_rx_desc port)))"
    "ixmap_rx_assign plane pi buf = (plane1, buf1)" "port1 = get_port plane1 pi"
  shows "\<exists>is. distinct is \<and> set is \<subseteq> free_slots buf port \<and>
    length is = min room (card (free_slots buf port)) \<and>
    rx_queue port1 = rx_queue port @ map (rx_entry pi buf) is \<and>
    free_slots buf1 port1 = free_slots buf port - set is \<and>
    count_rx_alloc_failed port1 = count_rx_alloc_failed port + of_nat (room - length is) \<and>
    mmio plane1 = mmio plane @
      (if is = [] then [] else [(tail (rx_ring port), ucast (next_to_use (rx_ring port1)))]) \<and>
    port_wf port1 \<and> slots_wf buf1 port1"
proof -
  obtain "is" nxt where p: "distinct is" "set is \<subseteq> free_slots buf port"
      "length is = min room (card (free_slots buf port))" "unat nxt < unat (buf_count buf)"
    and eq: "ixmap_rx_assign plane pi buf =
      (rx_published pi is (rx_assigned pi buf is (room - length is) nxt port) plane, fold mark_slot is buf)"
    using ixmap_rx_assign_eq [OF assms(2,3,5)] .
  let ?p = "rx_assigned pi buf is (room - length is) nxt port"
  have b: "buf1 = fold mark_slot is buf" and q: "plane1 = rx_published pi is ?p plane"
    using eq assms(6) by simp_all
  have port1: "port1 = ?p" using q assms(1,7) by (auto simp: ixmap_write_tail_def rx_published_def)
  have ring: "rx_queue ?p = rx_queue port @ map (rx_entry pi buf) is" "ring_wf (unat (num_rx_desc port)) (rx_ring ?p)"
    using rx_assigned_queue [of port "is" pi buf "room - length is" nxt] assms(4,5) p(3)
    by (simp_all add: port_wf_def)
  have rng: "\<forall>i \<in> set is. i < length (slots buf)"
    using p(2) port_slots_in_range assms(3) by (auto simp: free_slots_def)
  have "free_slots buf1 port1 = free_slots buf port - set is"
    by (auto simp: free_slots_def b port1 slot_free_fold_mark [OF rng] port_slots_def)
  moreover have "mmio plane1 = mmio plane @
      (if is = [] then [] else [(tail (rx_ring port), ucast (next_to_use (rx_ring port1)))])"
    using q port1 by (auto simp: ixmap_write_tail_def rx_published_def)
  moreover have "port_wf port1" "slots_wf buf1 port1"
    using ring assms(3,4) p(4) by (simp_all add: port1 b port_wf_def slots_wf_def)
  ultimately show ?thesis using p ring port1 by auto
qed

theorem ixmap_rx_assign_correct_witness:
  "\<exists>is. distinct is \<and> set is \<subseteq> {0, 1} \<and> length is = 2 \<and>
     rx_queue (get_port (fst (ixmap_rx_assign ex_plane 0 ex_buf)) 0) = map (rx_entry 0 ex_buf) is"
proof -
  have "rx_queue (get_port ex_plane 0) = []" by (simp add: ex_defs ring_queue_def ring_used_def)
  moreover have "unat (ixmap_desc_unused (rx_ring (get_port ex_plane 0)) (ucast (num_rx_desc (get_port ex_plane 0)))) = 3"
    by (simp add: ixmap_desc_unused_def ex_defs)
  ultimately show ?thesis
    using ixmap_rx_assign_correct [of 0 ex_plane "get_port ex_plane 0" ex_buf 3
        "fst (ixmap_rx_assign ex_plane 0 ex_buf)" "snd (ixmap_rx_assign ex_plane 0 ex_buf)"] by auto
qed

text \<open>
  C2.  \<open>ixmap_rx_clean\<close> returns, oldest first, a packet for every entry of the longest prefix of the
  receive ring that the card has finished (status DD), at most \<open>rx_budget\<close> of them, and removes
  exactly these entries from the ring.
\<close>

theorem ixmap_rx_clean_correct:
  assumes "pi < length (ports plane)" "port = get_port plane pi" "port_wf port"
    "xs = take (unat (rx_budget port)) (takeWhile rx_done (rx_queue port))"
    "ixmap_rx_clean plane pi buf = (packets, plane1)" "port1 = get_port plane1 pi"
  shows "packets = map (rx_packet buf) xs \<and> rx_queue port1 = drop (length xs) (rx_queue port) \<and>
    count_rx_clean_total port1 = count_rx_clean_total port + of_nat (length xs) \<and>
    tx_ring port1 = tx_ring port \<and> mmio plane1 = mmio plane \<and> port_wf port1"
proof -
  have wf: "ring_wf (unat (num_rx_desc port)) (rx_ring port)" using assms by (simp add: port_wf_def)
  note eq = ixmap_rx_clean_eq [OF assms(2-4), of buf, unfolded assms(5)]
  have len: "length xs \<le> length (rx_queue port)"
    using length_takeWhile_le [of rx_done "rx_queue port"] assms(4) by simp
  show ?thesis
    using ring_fifo.funpow_pop [OF wf len] eq assms by (simp add: port_wf_def)
qed

theorem ixmap_rx_clean_correct_witness:
  "map slot_size (fst (ixmap_rx_clean ex_rx_plane 0 ex_buf)) = [60, 64] \<and>
   map pkt_slot (fst (ixmap_rx_clean ex_rx_plane 0 ex_buf)) = [0, 1] \<and>
   rx_queue (get_port (snd (ixmap_rx_clean ex_rx_plane 0 ex_buf)) 0) = []"
proof -
  let ?port = "get_port ex_rx_plane 0"
  let ?xs = "[(0, \<lparr>desc_lo = 0, desc_hi = 0x3C00000001\<rparr>), (1, \<lparr>desc_lo = 0, desc_hi = 0x4000000001\<rparr>)]
     :: (int \<times> adv_desc) list"
  have q: "rx_queue ?port = ?xs"
    by code_simp
  have "rx_done (hd ?xs)" "rx_done (hd (tl ?xs))"
    by (simp_all add: ixmap_test_staterr_def rx_status_error_def IXGBE_RXD_STAT_DD_def)
  then have xs: "?xs = take (unat (rx_budget ?port)) (takeWhile rx_done (rx_queue ?port))"
    unfolding q by (simp add: ex_defs)
  show ?thesis
    using ixmap_rx_clean_correct [of 0 ex_rx_plane ?port ?xs ex_buf "fst (ixmap_rx_clean ex_rx_plane 0 ex_buf)"
        "snd (ixmap_rx_clean ex_rx_plane 0 ex_buf)", OF _ refl _ xs] q
    by (simp add: rx_packet_def rx_length_def)
qed

section \<open>The transmit ring\<close>

text \<open>
  C3.  \<open>ixmap_tx_assign\<close> appends the packet to the transmit ring and counts it as suspended when the
  ring has room and the packet fits one descriptor; otherwise it counts a failure, releases the
  packet's slot and leaves the ring as it was.
\<close>

theorem ixmap_tx_assign_correct:
  assumes "pi < length (ports plane)" "port = get_port plane pi" "port_wf port"
    "ixmap_tx_assign plane pi buf packet = (plane1, buf1)" "port1 = get_port plane1 pi"
  shows "(if length (tx_queue port) + 1 < unat (num_tx_desc port) \<and> slot_size packet \<le> IXGBE_MAX_DATA_PER_TXD
     then tx_queue port1 = tx_queue port @ [(pkt_slot packet, tx_desc_of buf pi packet)] \<and> buf1 = buf \<and>
       tx_suspended port1 = tx_suspended port + 1 \<and> count_tx_xmit_failed port1 = count_tx_xmit_failed port
     else tx_queue port1 = tx_queue port \<and> buf1 = ixmap_slot_release buf (pkt_slot packet) \<and>
       tx_suspended port1 = tx_suspended port \<and> count_tx_xmit_failed port1 = count_tx_xmit_failed port + 1) \<and>
    rx_ring port1 = rx_ring port \<and> mmio plane1 = mmio plane \<and> port_wf port1"
proof -
  have wf: "ring_wf (unat (num_tx_desc port)) (tx_ring port)" using assms by (simp add: port_wf_def)
  show ?thesis
    using assms ixmap_tx_assign_eq [OF assms(2,3), of buf packet] ring_push_queue [OF wf] ring_push_wf [OF wf]
    by (auto simp: port_wf_def split: if_splits)
qed

theorem ixmap_tx_assign_correct_witness:
  "tx_queue (get_port (fst (ixmap_tx_assign ex_plane 0 ex_buf ex_packet)) 0) =
     [(0, tx_desc_of ex_buf 0 ex_packet)] \<and> snd (ixmap_tx_assign ex_plane 0 ex_buf ex_packet) = ex_buf"
proof -
  have q: "tx_queue (get_port ex_plane 0) = []" by (simp add: ex_defs ring_queue_def ring_used_def)
  have c: "length ([] :: (int \<times> adv_desc) list) + 1 < unat (num_tx_desc (get_port ex_plane 0)) \<and>
      slot_size ex_packet \<le> IXGBE_MAX_DATA_PER_TXD"
    by (simp add: ex_defs IXGBE_MAX_DATA_PER_TXD_def)
  show ?thesis
    using ixmap_tx_assign_correct [of 0 ex_plane "get_port ex_plane 0" ex_buf ex_packet
        "fst (ixmap_tx_assign ex_plane 0 ex_buf ex_packet)" "snd (ixmap_tx_assign ex_plane 0 ex_buf ex_packet)"]
    unfolding q if_P [OF c] by (simp add: ex_packet_def)
qed

lemma fold_release_slots:
  assumes "i < length (slots buf)"
  shows "slots (fold (\<lambda>e b. ixmap_slot_release b (fst e)) xs buf) ! i =
    (if i \<in> nat ` fst ` set xs then 0 else slots buf ! i)"
  using assms
  by (induction xs arbitrary: buf) (auto simp: ixmap_slot_release_def nth_list_update)

lemma fold_release_length [simp]:
  "length (slots (fold (\<lambda>e b. ixmap_slot_release b (fst e)) xs buf)) = length (slots buf)"
  by (induction xs arbitrary: buf) (auto simp: ixmap_slot_release_def)

text \<open>
  C4.  \<open>ixmap_tx_clean\<close> removes from the transmit ring the longest prefix of entries the card has
  written back as done, at most \<open>tx_budget\<close> of them, and clears exactly their slots.
\<close>

theorem ixmap_tx_clean_correct:
  assumes "pi < length (ports plane)" "port = get_port plane pi" "port_wf port"
    "xs = take (unat (tx_budget port)) (takeWhile tx_done (tx_queue port))"
    "ixmap_tx_clean plane pi buf = (plane1, buf1)" "port1 = get_port plane1 pi"
  shows "tx_queue port1 = drop (length xs) (tx_queue port) \<and>
    (\<forall>i. i < length (slots buf) \<longrightarrow>
       slots buf1 ! i = (if i \<in> nat ` fst ` set xs then 0 else slots buf ! i)) \<and>
    length (slots buf1) = length (slots buf) \<and>
    count_tx_clean_total port1 = count_tx_clean_total port + of_nat (length xs) \<and>
    rx_ring port1 = rx_ring port \<and> mmio plane1 = mmio plane \<and> port_wf port1"
proof -
  have wf: "ring_wf (unat (num_tx_desc port)) (tx_ring port)" using assms by (simp add: port_wf_def)
  have len: "length xs \<le> length (tx_queue port)"
    using length_takeWhile_le [of tx_done "tx_queue port"] assms(4) by simp
  note eq = ixmap_tx_clean_eq [OF assms(2-4), of buf, unfolded assms(5)]
  show ?thesis
    using ring_fifo.funpow_pop [OF wf len] eq assms by (simp add: port_wf_def fold_release_slots)
qed

theorem ixmap_tx_clean_correct_witness:
  "tx_queue (get_port (fst (ixmap_tx_clean ex_tx_plane 0 (ex_buf\<lparr>slots := [0, 1]\<rparr>))) 0) = [] \<and>
   slots (snd (ixmap_tx_clean ex_tx_plane 0 (ex_buf\<lparr>slots := [0, 1]\<rparr>))) ! 1 = 0"
proof -
  let ?port = "get_port ex_tx_plane 0" and ?buf = "ex_buf\<lparr>slots := [0, 1]\<rparr>"
  let ?xs = "[(1, \<lparr>desc_lo = 0, desc_hi = 0x100000000\<rparr>)] :: (int \<times> adv_desc) list"
  have q: "tx_queue ?port = ?xs" by (simp add: ex_defs ring_queue_def ring_used_def)
  have "tx_done (hd ?xs)" by (simp add: tx_wb_status_def IXGBE_TXD_STAT_DD_def)
  then have xs: "?xs = take (unat (tx_budget ?port)) (takeWhile tx_done (tx_queue ?port))"
    unfolding q by (simp add: ex_defs)
  show ?thesis
    using ixmap_tx_clean_correct [of 0 ex_tx_plane ?port ?xs ?buf "fst (ixmap_tx_clean ex_tx_plane 0 ?buf)"
        "snd (ixmap_tx_clean ex_tx_plane 0 ?buf)", OF _ refl _ xs] q
    by simp
qed

lemma tx_mask_bits: "n < 32 \<Longrightarrow> bit (0xFFFF :: u32) n = (n < 16)" 
  by (auto simp: bit_numeral_rec(1) numeral_eq_Suc less_Suc_eq)

lemma tx_flag_bits: "n < 16 \<Longrightarrow> \<not> bit (0x2B300000 :: u32) n"
    by (auto simp: bit_numeral_rec(1) numeral_eq_Suc less_Suc_eq)

lemma tx_len_fields:
  fixes x :: u32
  assumes "unat x < 2 ^ 15"
  shows "(x OR 0x2B300000) AND 0xFFFF = x" "(x OR 0x2B300000) AND NOT 0xFFFF = 0x2B300000"
proof -
  have hi: "\<not> bit x n" if "15 \<le> n" for n using that assms not_bit_if_less by blast
  show "(x OR 0x2B300000) AND 0xFFFF = x"
  proof (rule bit_word_eqI)
    fix n assume "n < LENGTH(32)"
    then show "bit ((x OR 0x2B300000) AND 0xFFFF) n = bit x n"
      using hi [of n] tx_mask_bits [of n] tx_flag_bits [of n]
      by (cases "n < 16") (simp_all only: bit_and_iff bit_or_iff, auto)
  qed
  show "(x OR 0x2B300000) AND NOT 0xFFFF = 0x2B300000"
  proof (rule bit_word_eqI)
    fix n assume "n < LENGTH(32)"
    then show "bit ((x OR 0x2B300000) AND NOT 0xFFFF) n = bit (0x2B300000 :: u32) n"
      using hi [of n] tx_mask_bits [of n] tx_flag_bits [of n]
      by (cases "n < 16") (simp_all only: bit_and_iff bit_or_iff bit_not_iff, auto)
  qed
qed

text \<open>
  C5.  The descriptor of a packet of at most 2^14 bytes carries the DMA address of its slot, the
  packet's size in the length and payload fields, and the command bits of a single-descriptor frame
  with checksum insertion and status report; the done bit is clear, so \<open>ixmap_tx_clean\<close> does not
  reclaim the slot before the card has written the descriptor back.
\<close>

theorem tx_desc_of_encodes:
  assumes "slot_size packet \<le> IXGBE_MAX_DATA_PER_TXD"
  shows "desc_lo (tx_desc_of buf pi packet) = ixmap_slot_addr_dma buf (pkt_slot packet) pi \<and>
    tx_cmd_type_len (tx_desc_of buf pi packet) AND 0xFFFF = slot_size packet \<and>
    tx_cmd_type_len (tx_desc_of buf pi packet) AND NOT 0xFFFF = 0x2B300000 \<and>
    drop_bit 14 (tx_olinfo_status (tx_desc_of buf pi packet)) = slot_size packet \<and>
    \<not> tx_done (si, tx_desc_of buf pi packet)"
proof -
  let ?x = "slot_size packet"
  have "unat ?x < 2 ^ 15" using assms by (simp add: IXGBE_MAX_DATA_PER_TXD_def word_le_nat_alt)
  then have len: "(?x OR 0x2B300000) AND 0xFFFF = ?x" "(?x OR 0x2B300000) AND NOT 0xFFFF = 0x2B300000"
    and hi: "\<And>n. bit ?x n \<Longrightarrow> n < 15"
    using tx_len_fields not_bit_if_less by (blast intro: not_le_imp_less)+
  have cmd: "tx_cmd_type_len (tx_desc_of buf pi packet) = ?x OR 0x2B300000"
    by (simp add: tx_desc_of_def tx_cmd_type_len_def tx_read_desc_def Let_def IXGBE_TXD_CMD_EOP_def
        IXGBE_TXD_CMD_RS_def IXGBE_ADVTXD_DTYP_DATA_def IXGBE_ADVTXD_DCMD_IFCS_def
        IXGBE_ADVTXD_DCMD_DEXT_def or.assoc)
  have ol: "tx_olinfo_status (tx_desc_of buf pi packet) = push_bit 14 ?x"
    "tx_wb_status (tx_desc_of buf pi packet) = push_bit 14 ?x"
    by (simp_all only: tx_desc_of_def tx_olinfo_status_def tx_wb_status_def tx_read_desc_def Let_def
        adv_desc.simps word_join_high)
  have "drop_bit 14 (push_bit 14 ?x) = ?x"
    by (rule bit_word_eqI) (auto simp: bit_simps dest: hi)
  moreover have "push_bit 14 ?x AND 1 = 0"
    by (rule bit_word_eqI) (auto simp: bit_simps)
  ultimately show ?thesis
    using cmd ol len by (simp add: IXGBE_TXD_STAT_DD_def) (simp add: tx_desc_of_def tx_read_desc_def Let_def)
qed

theorem tx_desc_of_encodes_witness:
  "tx_cmd_type_len (tx_desc_of ex_buf 0 ex_packet) AND 0xFFFF = 60"
  using tx_desc_of_encodes [of ex_packet ex_buf 0 0]
  by (simp add: ex_packet_def IXGBE_MAX_DATA_PER_TXD_def)

section \<open>Slots and their addresses\<close>

text \<open>
  C6.  \<open>ixmap_slot_assign\<close> returns -1 exactly when every slot of the port is in flight; otherwise it
  returns the first free slot in cyclic order from \<open>rx_slot_next\<close>, marks that slot and no other in
  flight, and the next search starts right after it.
\<close>

theorem ixmap_slot_assign_correct:
  assumes "slots_wf buf port" "ixmap_slot_assign buf port = (si, buf1, port1)"
    "pos = (\<lambda>k. unat (rx_slot_offset port) + (unat (rx_slot_next port) + k) mod unat (buf_count buf))"
  shows "if free_slots buf port = {} then si = -1 \<and> buf1 = buf \<and> port1 = port
    else \<exists>k<unat (buf_count buf). si = int (pos k) \<and> slot_free buf (pos k) \<and> (\<forall>j<k. \<not> slot_free buf (pos j)) \<and>
      free_slots buf1 port1 = free_slots buf port - {pos k} \<and> pos (Suc k) = unat (rx_slot_offset port1) + unat (rx_slot_next port1) \<and>
      slots_wf buf1 port1"
  using assms(1)
proof (cases rule: ixmap_slot_assign_cases)
  case none
  then show ?thesis using assms by (auto simp: free_slots_def)
next
  case (some i k nxt)
  have c: "0 < unat (buf_count buf)" using assms(1) by (simp add: slots_wf_def)
  then have i: "i \<in> free_slots buf port" using some by (auto simp: free_slots_def port_slots_def)
  have eq: "si = int i" "buf1 = mark_slot i buf" "port1 = port\<lparr>rx_slot_next := nxt\<rparr>"
    using some(6) assms(2) by (simp_all add: mark_slot_def)
  have "slots_wf buf1 port1" using slots_wf_mark [OF assms(1)] some(5) c eq by simp
  moreover have "free_slots buf1 port1 = free_slots buf port - {i}"
    using free_slots_mark [OF assms(1) i] eq by simp
  moreover have "i = pos k" "\<forall>j<k. \<not> slot_free buf (pos j)"
      "pos (Suc k) = unat (rx_slot_offset port1) + unat (rx_slot_next port1)"
    using some(2,4,5) eq(3) unfolding assms(3) by simp_all
  moreover have "free_slots buf port \<noteq> {}" using i by blast
  ultimately show ?thesis using some(1,3) eq(1) by simp blast
qed

theorem ixmap_slot_assign_correct_witness:
  "\<exists>i. fst (ixmap_slot_assign ex_buf (get_port ex_plane 0)) = int i \<and>
     free_slots (fst (snd (ixmap_slot_assign ex_buf (get_port ex_plane 0))))
       (snd (snd (ixmap_slot_assign ex_buf (get_port ex_plane 0)))) = {0, 1} - {i}"
proof -
  obtain si buf1 port1 where eq: "ixmap_slot_assign ex_buf (get_port ex_plane 0) = (si, buf1, port1)"
    using prod_cases3 by blast
  have ne: "free_slots ex_buf (get_port ex_plane 0) \<noteq> {}" by simp
  obtain i where "si = int i" "free_slots buf1 port1 = {0, 1} - {i}"
    using ixmap_slot_assign_correct [OF ex_wf(4) eq refl] unfolding if_not_P [OF ne] unfolding ex_free
    by (elim exE conjE) (rule that)
  then show ?thesis unfolding eq by simp
qed

text \<open>
  C7.  For a slot index below 2^16, the CPU and the card address the same bytes of the buffer: both
  addresses are at offset \<open>buf_size * slot_index\<close> from their bases.  From 2^16 on
  \<open>ixmap_slot_addr_virt\<close>, whose index parameter is a \<open>uint16_t\<close>, addresses slot
  \<open>slot_index mod 2^16\<close> instead, while \<open>ixmap_slot_addr_dma\<close> does not wrap.
\<close>

theorem slot_addresses_agree_iff:
  assumes "0 \<le> si" "nat si * unat (buf_size buf) < 2 ^ 32" "0 < buf_size buf"
  shows "ixmap_slot_addr_dma buf si pi = buf_dma buf ! pi + of_nat (unat (buf_size buf) * nat si) \<and>
    (ixmap_slot_addr_virt buf (word_of_int si) = buf_virt buf + unat (buf_size buf) * nat si \<longleftrightarrow> si < 2 ^ 16) \<and>
    ixmap_slot_addr_virt buf (word_of_int si) = buf_virt buf + unat (buf_size buf) * (nat si mod 2 ^ 16)"
proof -
  let ?b = "unat (buf_size buf)" and ?s = "nat si"
  have b: "1 \<le> ?b" using assms(3) by (simp add: word_less_nat_alt)
  have w: "(word_of_int si :: u32) = of_nat ?s" "(word_of_int si :: u16) = of_nat ?s"
    using assms(1) by (simp_all flip: of_nat_nat)
  have "?s * 1 \<le> ?s * ?b" using b by (intro mult_le_mono) auto
  then have s: "?s < 2 ^ 32" using assms(2) by linarith
  have "?b * (?s mod 2 ^ 16) \<le> ?b * ?s" by (intro mult_le_mono) auto
  also have "?b * ?s < 2 ^ 32" using assms(2) by (simp add: mult.commute)
  finally have m: "?b * (?s mod 2 ^ 16) < 2 ^ 32" .
  have dma: "(ucast (buf_size buf * word_of_int si) :: u64) = of_nat (?b * ?s)"
    using assms(2) s by (simp add: word_unat_eq_iff unat_of_nat unat_word_ariths w mult.commute)
  have virt: "unat (buf_size buf * ucast (word_of_int si :: u16)) = ?b * (?s mod 2 ^ 16)"
    using m by (simp add: unat_word_ariths w unat_of_nat)
  have "?b * (?s mod 2 ^ 16) = ?b * ?s \<longleftrightarrow> si < 2 ^ 16"
    using b assms(1) by (auto simp: mod_less_eq_dividend)
  then show ?thesis
    using dma virt by (simp add: ixmap_slot_addr_dma_def ixmap_slot_addr_virt_def)
qed

theorem slot_addresses_agree_iff_witness:
  "ixmap_slot_addr_virt ex_buf (word_of_int 65537) = 65536 + 2048 \<and>
   ixmap_slot_addr_dma ex_buf 65537 0 = 0x200000 + 65537 * 2048"
  using slot_addresses_agree_iff [of 65537 ex_buf 0] by (simp add: ex_buf_def)

end
