(* ===== verification/Slots.thy ===== *)
theory Slots
  imports Driver
begin

text \<open>
  Who owns a packet slot.  A slot that is in flight is at exactly one place: on the receive ring of
  one port, on the transmit ring of one port, or with the application that got it from
  \<open>ixmap_rx_clean\<close> or \<open>ixmap_slot_assign\<close> and has not yet passed it to \<open>ixmap_tx_assign\<close> or
  \<open>ixmap_slot_release\<close>.  The operations of \<open>src/lib/driver.c\<close> are the steps of a transition system
  in which the card may rewrite descriptors at any time; \<open>held\<close> is the multiset of slots of the
  application, and a step is labelled with the slot that the application hands over in it, if any.
\<close>

section \<open>The transition system\<close>

record drv =
  dplane :: ixmap_plane
  dbuf :: ixmap_buf
  held :: "int multiset"

inductive driver_step :: "drv \<Rightarrow> int option \<Rightarrow> drv \<Rightarrow> bool" where
  rx_assign: "\<lbrakk>pi < length (ports (dplane s)); ixmap_rx_assign (dplane s) pi (dbuf s) = (p, b)\<rbrakk>
    \<Longrightarrow> driver_step s None (s\<lparr>dplane := p, dbuf := b\<rparr>)"
| rx_clean: "\<lbrakk>pi < length (ports (dplane s)); ixmap_rx_clean (dplane s) pi (dbuf s) = (packets, p)\<rbrakk>
    \<Longrightarrow> driver_step s None (s\<lparr>dplane := p, held := held s + mset (map pkt_slot packets)\<rparr>)"
| tx_assign: "\<lbrakk>pi < length (ports (dplane s)); ixmap_tx_assign (dplane s) pi (dbuf s) packet = (p, b)\<rbrakk>
    \<Longrightarrow> driver_step s (Some (pkt_slot packet)) (s\<lparr>dplane := p, dbuf := b, held := held s - {#pkt_slot packet#}\<rparr>)"
| tx_xmit: "pi < length (ports (dplane s))
    \<Longrightarrow> driver_step s None (s\<lparr>dplane := ixmap_tx_xmit (dplane s) pi\<rparr>)"
| tx_clean: "\<lbrakk>pi < length (ports (dplane s)); ixmap_tx_clean (dplane s) pi (dbuf s) = (p, b)\<rbrakk>
    \<Longrightarrow> driver_step s None (s\<lparr>dplane := p, dbuf := b\<rparr>)"
| irq_unmask: "pi < length (ports (dplane s))
    \<Longrightarrow> driver_step s None (s\<lparr>dplane := ixmap_irq_unmask_queues (dplane s) pi irqh\<rparr>)"
| app_assign: "\<lbrakk>pi < length (ports (dplane s)); 0 \<le> si;
      ixmap_slot_assign (dbuf s) (get_port (dplane s) pi) = (si, b, port)\<rbrakk>
    \<Longrightarrow> driver_step s None (s\<lparr>dplane := put_port pi port (dplane s), dbuf := b, held := held s + {#si#}\<rparr>)"
| app_release: "driver_step s (Some si) (s\<lparr>dbuf := ixmap_slot_release (dbuf s) si, held := held s - {#si#}\<rparr>)"
| device: "\<lbrakk>pi < length (ports (dplane s)); port = get_port (dplane s) pi;
      length rxd = length (descs (rx_ring port)); length txd = length (descs (tx_ring port))\<rbrakk>
    \<Longrightarrow> driver_step s None (s\<lparr>dplane := put_port pi (port\<lparr>rx_ring := rx_ring port\<lparr>descs := rxd\<rparr>,
          tx_ring := tx_ring port\<lparr>descs := txd\<rparr>\<rparr>) (dplane s)\<rparr>)"

text \<open>
  The discipline of the application: a slot that it hands over with \<open>ixmap_tx_assign\<close> or
  \<open>ixmap_slot_release\<close> is one that it holds.  Nothing in \<open>src/lib/driver.c\<close> enforces it.
\<close>

definition hands_over_held :: "drv \<Rightarrow> int option \<Rightarrow> bool" where
  "hands_over_held s slot \<longleftrightarrow> (case slot of None \<Rightarrow> True | Some si \<Rightarrow> si \<in># held s)"

definition disciplined_step :: "drv \<Rightarrow> drv \<Rightarrow> bool" where
  "disciplined_step s s' \<longleftrightarrow> (\<exists>slot. driver_step s slot s' \<and> hands_over_held s slot)"

definition drv_init :: "drv \<Rightarrow> bool" where
  "drv_init s \<longleftrightarrow> held s = {#} \<and> (\<forall>i < length (slots (dbuf s)). slots (dbuf s) ! i = 0) \<and>
     (\<forall>pi < length (ports (dplane s)). let port = get_port (dplane s) pi
       in port_wf port \<and> slots_wf (dbuf s) port \<and> rx_queue port = [] \<and> tx_queue port = [])"

section \<open>Ownership\<close>

definition inflight :: "ixmap_buf \<Rightarrow> nat set" where
  "inflight buf = {i. i < length (slots buf) \<and> \<not> slot_free buf i}"

definition port_ms :: "ixmap_port \<Rightarrow> int multiset" where
  "port_ms port = mset (map fst (rx_queue port)) + mset (map fst (tx_queue port))"

definition rings_ms :: "ixmap_plane \<Rightarrow> int multiset" where
  "rings_ms p = (\<Sum>i<length (ports p). port_ms (get_port p i))"

definition owned :: "drv \<Rightarrow> int multiset" where
  "owned s = rings_ms (dplane s) + held s"

definition drv_inv :: "drv \<Rightarrow> bool" where
  "drv_inv s \<longleftrightarrow> owned s = image_mset int (mset_set (inflight (dbuf s))) \<and>
     (\<forall>pi < length (ports (dplane s)).
        port_wf (get_port (dplane s) pi) \<and> slots_wf (dbuf s) (get_port (dplane s) pi))"

lemma finite_inflight [simp]: "finite (inflight buf)"
  by (simp add: inflight_def)

lemma drv_invD:
  assumes "drv_inv s" "pi < length (ports (dplane s))"
  shows "port_wf (get_port (dplane s) pi)" "slots_wf (dbuf s) (get_port (dplane s) pi)"
    "owned s = image_mset int (mset_set (inflight (dbuf s)))"
  using assms by (auto simp: drv_inv_def)

lemma rings_ms_put:
  assumes "pi < length (ports p)"
  shows "rings_ms (put_port pi port p) + port_ms (get_port p pi) = rings_ms p + port_ms port"
proof -
  let ?n = "length (ports p)"
  have "rings_ms (put_port pi port p) = port_ms port + (\<Sum>i\<in>{..<?n} - {pi}. port_ms (get_port p i))"
    unfolding rings_ms_def using assms by (subst sum.remove [of _ pi]) auto
  moreover have "rings_ms p = port_ms (get_port p pi) + (\<Sum>i\<in>{..<?n} - {pi}. port_ms (get_port p i))"
    unfolding rings_ms_def using assms by (subst sum.remove [of _ pi]) auto
  ultimately show ?thesis by simp
qed

lemma rings_ms_cong: "ports p = ports q \<Longrightarrow> rings_ms p = rings_ms q"
  by (simp add: rings_ms_def get_port_def)

lemma inflight_mark:
  assumes "i < length (slots buf)" "slot_free buf i"
  shows "mset_set (inflight (mark_slot i buf)) = mset_set (inflight buf) + {#i#}"
proof -
  have "inflight (mark_slot i buf) = insert i (inflight buf)" "i \<notin> inflight buf"
    using assms by (auto simp: inflight_def slot_free_mark)
  then show ?thesis by simp
qed

lemma inflight_fold_mark:
  assumes "distinct is" "\<forall>i \<in> set is. i < length (slots buf) \<and> slot_free buf i"
  shows "mset_set (inflight (fold mark_slot is buf)) = mset_set (inflight buf) + mset is"
  using assms
proof (induction "is" arbitrary: buf)
  case (Cons i "is")
  have "\<forall>j \<in> set is. j < length (slots (mark_slot i buf)) \<and> slot_free (mark_slot i buf) j"
    using Cons.prems by (auto simp: slot_free_mark)
  then show ?case using Cons.IH [of "mark_slot i buf"] Cons.prems inflight_mark [of i buf] by simp
qed simp

lemma release_owned:
  assumes "M + {#si#} = image_mset int (mset_set (inflight buf))"
  shows "M = image_mset int (mset_set (inflight (ixmap_slot_release buf si)))"
proof -
  have "si \<in># image_mset int (mset_set (inflight buf))" using assms by (metis union_single_eq_member add.commute union_mset_add_mset_right)
  then obtain i where i: "si = int i" "i \<in> inflight buf" by auto
  have "inflight (ixmap_slot_release buf si) = inflight buf - {i}"
    using i by (auto simp: inflight_def ixmap_slot_release_def slot_free_def nth_list_update split: if_splits)
  then have "image_mset int (mset_set (inflight buf)) =
      image_mset int (mset_set (inflight (ixmap_slot_release buf si))) + {#si#}"
    using i by (simp add: mset_set.remove [OF finite_inflight i(2)])
  then show ?thesis using assms by simp
qed

lemma fold_release_owned:
  assumes "M + mset (map fst xs) = image_mset int (mset_set (inflight buf))"
  shows "M = image_mset int (mset_set (inflight (fold (\<lambda>e b. ixmap_slot_release b (fst e)) xs buf)))"
  using assms
proof (induction xs arbitrary: buf)
  case (Cons e xs)
  then have "M + mset (map fst xs) = image_mset int (mset_set (inflight (ixmap_slot_release buf (fst e))))"
    by (intro release_owned) simp
  then show ?case using Cons.IH by simp
qed simp

section \<open>Every step keeps the invariant\<close>

lemma drv_inv_putI:
  assumes "drv_inv s" "pi < length (ports (dplane s))" "ports q = ports (put_port pi port1 (dplane s))"
    "port_wf port1" "slots_wf b port1" "length (slots b) = length (slots (dbuf s))"
    "buf_count b = buf_count (dbuf s)"
    "port_ms port1 + H + image_mset int (mset_set (inflight (dbuf s))) =
     port_ms (get_port (dplane s) pi) + held s + image_mset int (mset_set (inflight b))"
  shows "drv_inv (s\<lparr>dplane := q, dbuf := b, held := H\<rparr>)"
proof -
  let ?f = "\<lambda>b. image_mset int (mset_set (inflight b))"
  have r: "rings_ms q = rings_ms (put_port pi port1 (dplane s))" using assms(3) by (rule rings_ms_cong)
  have "rings_ms q + H + (port_ms (get_port (dplane s) pi) + held s + ?f b) =
      (rings_ms q + port_ms (get_port (dplane s) pi)) + held s + (H + ?f b)" by simp
  also have "\<dots> = (rings_ms (dplane s) + held s) + (port_ms port1 + H + ?f b)"
    unfolding r rings_ms_put [OF assms(2)] by simp
  also have "rings_ms (dplane s) + held s = ?f (dbuf s)"
    using assms(1) by (simp add: drv_inv_def owned_def)
  also have "?f (dbuf s) + (port_ms port1 + H + ?f b) = ?f b + (port_ms port1 + H + ?f (dbuf s))" by simp
  also have "\<dots> = ?f b + (port_ms (get_port (dplane s) pi) + held s + ?f b)" using assms(8) by simp
  finally have "rings_ms q + H = ?f b" by simp
  moreover have "port_wf (get_port q j) \<and> slots_wf b (get_port q j)" if "j < length (ports q)" for j
  proof (cases "j = pi")
    case True
    then show ?thesis using assms(2-5) by (simp add: get_port_def put_port_def)
  next
    case False
    then have "get_port q j = get_port (dplane s) j" "j < length (ports (dplane s))"
      using assms(3) that by (simp_all add: get_port_def put_port_def)
    then show ?thesis using assms(1,6,7) by (auto simp: drv_inv_def slots_wf_def)
  qed
  ultimately show ?thesis by (simp add: drv_inv_def owned_def)
qed

lemma take_takeWhile_append:
  assumes "xs = take n (takeWhile P q)"
  shows "q = xs @ drop (length xs) q"
proof -
  have "xs = take (min n (length (takeWhile P q))) q"
    unfolding assms by (subst takeWhile_eq_take) (simp add: min.commute)
  then show ?thesis by (metis append_eq_conv_conj append_take_drop_id)
qed

lemma inv_rx_assign:
  assumes "drv_inv s" "pi < length (ports (dplane s))" "ixmap_rx_assign (dplane s) pi (dbuf s) = (p, b)"
  shows "drv_inv (s\<lparr>dplane := p, dbuf := b\<rparr>)"
proof -
  let ?port = "get_port (dplane s) pi"
  note wf = drv_invD [OF assms(1,2)]
  have ring: "ring_wf (unat (num_rx_desc ?port)) (rx_ring ?port)" using wf(1) by (simp add: port_wf_def)
  define room where "room = unat (ixmap_desc_unused (rx_ring ?port) (ucast (num_rx_desc ?port)))"
  obtain "is" nxt where p: "distinct is" "set is \<subseteq> free_slots (dbuf s) ?port"
      "length is = min room (card (free_slots (dbuf s) ?port))" "unat nxt < unat (buf_count (dbuf s))"
    and eq: "ixmap_rx_assign (dplane s) pi (dbuf s) =
      (rx_published pi is (rx_assigned pi (dbuf s) is (room - length is) nxt ?port) (dplane s),
       fold mark_slot is (dbuf s))"
    using ixmap_rx_assign_eq [OF refl wf(2) room_def] .
  let ?p = "rx_assigned pi (dbuf s) is (room - length is) nxt ?port"
  have q: "rx_queue ?p = rx_queue ?port @ map (rx_entry pi (dbuf s)) is" "ring_wf (unat (num_rx_desc ?port)) (rx_ring ?p)"
    using rx_assigned_queue [OF ring, of "is"] p(3) room_def by simp_all
  have rng: "\<forall>i \<in> set is. i < length (slots (dbuf s)) \<and> slot_free (dbuf s) i"
    using p(2) port_slots_in_range [OF wf(2)] by (auto simp: free_slots_def)
  have "map fst (map (rx_entry pi (dbuf s)) is) = map int is" by (simp add: rx_entry_def comp_def)
  then have ms: "port_ms ?p = port_ms ?port + image_mset int (mset is)"
    using q(1) by (simp add: port_ms_def comp_def rx_entry_def)
  have "drv_inv (s\<lparr>dplane := p, dbuf := b, held := held s\<rparr>)"
  proof (rule drv_inv_putI [OF assms(1,2)])
    show "ports p = ports (put_port pi ?p (dplane s))"
      using eq assms(3) by (auto simp: rx_published_def ixmap_write_tail_def)
    show "port_wf ?p" using wf(1) q(2) by (simp add: port_wf_def)
    show "slots_wf b ?p" using eq assms(3) wf(2) p(4) by (auto simp: slots_wf_def)
    show "length (slots b) = length (slots (dbuf s))" "buf_count b = buf_count (dbuf s)"
      using eq assms(3) by auto
    show "port_ms ?p + held s + image_mset int (mset_set (inflight (dbuf s))) =
        port_ms ?port + held s + image_mset int (mset_set (inflight b))"
      using eq assms(3) ms inflight_fold_mark [OF p(1) rng] by auto
  qed
  then show ?thesis by simp
qed

lemma inv_rx_clean:
  assumes "drv_inv s" "pi < length (ports (dplane s))" "ixmap_rx_clean (dplane s) pi (dbuf s) = (packets, p)"
  shows "drv_inv (s\<lparr>dplane := p, held := held s + mset (map pkt_slot packets)\<rparr>)"
proof -
  let ?port = "get_port (dplane s) pi"
  note wf = drv_invD [OF assms(1,2)]
  have ring: "ring_wf (unat (num_rx_desc ?port)) (rx_ring ?port)" using wf(1) by (simp add: port_wf_def)
  define xs where "xs = take (unat (rx_budget ?port)) (takeWhile rx_done (rx_queue ?port))"
  let ?p = "?port\<lparr>rx_ring := (ring_pop (num_rx_desc ?port) ^^ length xs) (rx_ring ?port),
      count_rx_clean_total := count_rx_clean_total ?port + of_nat (length xs)\<rparr>"
  have eq: "packets = map (rx_packet (dbuf s)) xs" "p = put_port pi ?p (dplane s)"
    using ixmap_rx_clean_eq [OF refl wf(1) xs_def, of "dbuf s"] assms(3) by auto
  have pre: "rx_queue ?port = xs @ drop (length xs) (rx_queue ?port)"
    by (rule take_takeWhile_append [OF xs_def])
  then have len: "length xs \<le> length (rx_queue ?port)" by (metis le_add1 length_append)
  note pop = ring_fifo.funpow_pop [OF ring len]
  have "mset (map fst (rx_queue ?port)) = mset (map fst xs) + mset (map fst (rx_queue ?p))"
    using pop by (subst pre) simp
  then have ms: "port_ms ?p + mset (map pkt_slot packets) = port_ms ?port"
    by (simp add: port_ms_def eq(1) rx_packet_def comp_def)
  have "drv_inv (s\<lparr>dplane := p, dbuf := dbuf s, held := held s + mset (map pkt_slot packets)\<rparr>)"
    by (rule drv_inv_putI [OF assms(1,2), of _ ?p])
       (use wf pop eq ms in \<open>auto simp: port_wf_def slots_wf_def add.commute add.left_commute\<close>)
  then show ?thesis by simp
qed

lemma slots_release_fields [simp]:
  "length (slots (ixmap_slot_release buf si)) = length (slots buf)"
  "buf_count (ixmap_slot_release buf si) = buf_count buf"
  by (simp_all add: ixmap_slot_release_def)

lemma fold_release_count [simp]:
  "buf_count (fold (\<lambda>e b. ixmap_slot_release b (fst e)) xs buf) = buf_count buf"
  by (induction xs arbitrary: buf) simp_all

lemma release_member:
  assumes "drv_inv s" "si \<in># owned s"
  shows "image_mset int (mset_set (inflight (dbuf s))) =
    image_mset int (mset_set (inflight (ixmap_slot_release (dbuf s) si))) + {#si#}"
proof -
  have "(owned s - {#si#}) + {#si#} = image_mset int (mset_set (inflight (dbuf s)))"
    using assms by (simp add: drv_inv_def)
  then show ?thesis using release_owned by metis
qed

lemma inv_tx_assign:
  assumes "drv_inv s" "pi < length (ports (dplane s))" "pkt_slot packet \<in># held s"
    "ixmap_tx_assign (dplane s) pi (dbuf s) packet = (p, b)"
  shows "drv_inv (s\<lparr>dplane := p, dbuf := b, held := held s - {#pkt_slot packet#}\<rparr>)"
proof -
  let ?port = "get_port (dplane s) pi"
  note wf = drv_invD [OF assms(1,2)]
  have ring: "ring_wf (unat (num_tx_desc ?port)) (tx_ring ?port)" using wf(1) by (simp add: port_wf_def)
  have held: "held s = (held s - {#pkt_slot packet#}) + {#pkt_slot packet#}" using assms(3) by simp
  note eq = ixmap_tx_assign_eq [OF refl wf(1), of "dbuf s" packet]
  show ?thesis
  proof (cases "length (tx_queue ?port) + 1 < unat (num_tx_desc ?port) \<and> slot_size packet \<le> IXGBE_MAX_DATA_PER_TXD")
    case True
    let ?p = "?port\<lparr>tx_ring := ring_push (num_tx_desc ?port) (pkt_slot packet)
        (tx_desc_of (dbuf s) pi packet) (tx_ring ?port), tx_suspended := tx_suspended ?port + 1\<rparr>"
    have e: "p = put_port pi ?p (dplane s)" "b = dbuf s" using eq assms(4) True by simp_all
    have "port_ms ?p = port_ms ?port + {#pkt_slot packet#}"
      using True ring_push_queue [OF ring] by (simp add: port_ms_def)
    then have "port_ms ?p + (held s - {#pkt_slot packet#}) = port_ms ?port + held s"
      by (subst (2) held) simp
    then show ?thesis using wf ring_push_wf [OF ring]
      by (intro drv_inv_putI [OF assms(1,2), of _ ?p]) (simp_all add: e port_wf_def slots_wf_def)
  next
    case False
    let ?p = "?port\<lparr>count_tx_xmit_failed := count_tx_xmit_failed ?port + 1\<rparr>"
    have e: "p = put_port pi ?p (dplane s)" "b = ixmap_slot_release (dbuf s) (pkt_slot packet)"
      using eq assms(4) unfolding if_not_P [OF False] by simp_all
    have "image_mset int (mset_set (inflight (dbuf s))) = image_mset int (mset_set (inflight b)) + {#pkt_slot packet#}"
      unfolding e using assms(1,3) by (intro release_member) (simp_all add: owned_def)
    then have "port_ms ?p + (held s - {#pkt_slot packet#}) + image_mset int (mset_set (inflight (dbuf s))) =
        port_ms ?port + held s + image_mset int (mset_set (inflight b))"
      using held by (simp add: port_ms_def)
    then show ?thesis using wf
      by (intro drv_inv_putI [OF assms(1,2), of _ ?p]) (simp_all add: e port_wf_def slots_wf_def)
  qed
qed

lemma inv_tx_clean:
  assumes "drv_inv s" "pi < length (ports (dplane s))" "ixmap_tx_clean (dplane s) pi (dbuf s) = (p, b)"
  shows "drv_inv (s\<lparr>dplane := p, dbuf := b\<rparr>)"
proof -
  let ?port = "get_port (dplane s) pi" and ?f = "\<lambda>b. image_mset int (mset_set (inflight b))"
  note wf = drv_invD [OF assms(1,2)]
  have ring: "ring_wf (unat (num_tx_desc ?port)) (tx_ring ?port)" using wf(1) by (simp add: port_wf_def)
  define xs where "xs = take (unat (tx_budget ?port)) (takeWhile tx_done (tx_queue ?port))"
  let ?p = "?port\<lparr>tx_ring := (ring_pop (num_tx_desc ?port) ^^ length xs) (tx_ring ?port),
      count_tx_clean_total := count_tx_clean_total ?port + of_nat (length xs)\<rparr>"
  have eq: "p = put_port pi ?p (dplane s)" "b = fold (\<lambda>e b. ixmap_slot_release b (fst e)) xs (dbuf s)"
    using ixmap_tx_clean_eq [OF refl wf(1) xs_def, of "dbuf s"] assms(3) by auto
  have pre: "tx_queue ?port = xs @ drop (length xs) (tx_queue ?port)"
    by (rule take_takeWhile_append [OF xs_def])
  then have len: "length xs \<le> length (tx_queue ?port)" by (metis le_add1 length_append)
  note pop = ring_fifo.funpow_pop [OF ring len]
  have "mset (map fst (tx_queue ?port)) = mset (map fst xs) + mset (map fst (tx_queue ?p))"
    using pop by (subst pre) simp
  then have ms: "port_ms ?port = port_ms ?p + mset (map fst xs)" by (simp add: port_ms_def)
  have "rings_ms (put_port pi ?p (dplane s)) + port_ms ?port = rings_ms (dplane s) + port_ms ?p"
    by (rule rings_ms_put [OF assms(2)])
  then have "rings_ms (dplane s) = rings_ms (put_port pi ?p (dplane s)) + mset (map fst xs)"
    unfolding ms by simp
  then have "(rings_ms (put_port pi ?p (dplane s)) + held s) + mset (map fst xs) = ?f (dbuf s)"
    using wf(3) by (simp add: owned_def ac_simps)
  moreover from fold_release_owned [OF this] have "rings_ms (put_port pi ?p (dplane s)) + held s = ?f b"
    unfolding eq(2) .
  ultimately have "?f (dbuf s) = ?f b + mset (map fst xs)" by simp
  then have "drv_inv (s\<lparr>dplane := p, dbuf := b, held := held s\<rparr>)"
    using wf pop ms by (intro drv_inv_putI [OF assms(1,2), of _ ?p]) (simp_all add: eq port_wf_def slots_wf_def)
  then show ?thesis by simp
qed

lemma inv_ports:
  assumes "drv_inv s" "rings_ms q = rings_ms (dplane s)" "length (ports q) = length (ports (dplane s))"
    "\<And>i. i < length (ports q) \<Longrightarrow> port_wf (get_port (dplane s) i) \<Longrightarrow> port_wf (get_port q i)"
    "\<And>i. i < length (ports q) \<Longrightarrow> slots_wf (dbuf s) (get_port (dplane s) i) \<Longrightarrow> slots_wf (dbuf s) (get_port q i)"
  shows "drv_inv (s\<lparr>dplane := q\<rparr>)"
  using assms by (simp add: drv_inv_def owned_def)

lemma inv_tx_xmit:
  assumes "drv_inv s" "pi < length (ports (dplane s))"
  shows "drv_inv (s\<lparr>dplane := ixmap_tx_xmit (dplane s) pi\<rparr>)"
proof -
  let ?port = "get_port (dplane s) pi"
  note wf = drv_invD [OF assms]
  have "drv_inv (s\<lparr>dplane := ixmap_tx_xmit (dplane s) pi, dbuf := dbuf s, held := held s\<rparr>)"
    if "tx_suspended ?port \<noteq> 0"
    using that wf
    by (intro drv_inv_putI [OF assms, of _ "?port\<lparr>tx_suspended := 0\<rparr>"])
       (simp_all add: ixmap_tx_xmit_def Let_def ixmap_write_tail_def put_port_def port_wf_def slots_wf_def port_ms_def)
  moreover have "ixmap_tx_xmit (dplane s) pi = dplane s" if "tx_suspended ?port = 0"
    using that by (simp add: ixmap_tx_xmit_def Let_def)
  ultimately show ?thesis using assms(1) by fastforce
qed

lemma inv_app_assign:
  assumes "drv_inv s" "pi < length (ports (dplane s))" "0 \<le> si"
    "ixmap_slot_assign (dbuf s) (get_port (dplane s) pi) = (si, b, port)"
  shows "drv_inv (s\<lparr>dplane := put_port pi port (dplane s), dbuf := b, held := held s + {#si#}\<rparr>)"
proof -
  note wf = drv_invD [OF assms(1,2)]
  from wf(2) show ?thesis
  proof (cases rule: ixmap_slot_assign_cases)
    case none
    then show ?thesis using assms by simp
  next
    case (some i k nxt)
    have c: "0 < unat (buf_count (dbuf s))" using wf(2) by (simp add: slots_wf_def)
    have eq: "si = int i" "b = mark_slot i (dbuf s)" "port = (get_port (dplane s) pi)\<lparr>rx_slot_next := nxt\<rparr>"
      using some(6) assms(4) by (simp_all add: mark_slot_def)
    have "i \<in> port_slots (dbuf s) (get_port (dplane s) pi)" using some(2) c by (auto simp: port_slots_def)
    then have "i < length (slots (dbuf s))" using port_slots_in_range [OF wf(2)] by blast
    note m = inflight_mark [OF this some(3)]
    show ?thesis using wf c some(5) m
      by (intro drv_inv_putI [OF assms(1,2), of _ port]) (simp_all add: eq port_wf_def slots_wf_def port_ms_def)
  qed
qed

lemma inv_app_release:
  assumes "drv_inv s" "si \<in># held s"
  shows "drv_inv (s\<lparr>dbuf := ixmap_slot_release (dbuf s) si, held := held s - {#si#}\<rparr>)"
proof -
  have "image_mset int (mset_set (inflight (dbuf s))) =
      image_mset int (mset_set (inflight (ixmap_slot_release (dbuf s) si))) + {#si#}"
    using assms by (intro release_member) (simp_all add: owned_def)
  moreover have "held s = (held s - {#si#}) + {#si#}" using assms(2) by simp
  ultimately have "rings_ms (dplane s) + (held s - {#si#}) =
      image_mset int (mset_set (inflight (ixmap_slot_release (dbuf s) si)))"
    using assms(1) by (simp add: drv_inv_def owned_def) (metis add_mset_add_single add_right_cancel union_assoc)
  then show ?thesis using assms(1) by (auto simp: drv_inv_def owned_def slots_wf_def)
qed

lemma ring_queue_descs:
  "map fst (ring_queue n (ring\<lparr>descs := ds\<rparr>)) = map fst (ring_queue n ring)"
  by (simp add: ring_queue_def ring_used_def)

lemma inv_device:
  assumes "drv_inv s" "pi < length (ports (dplane s))" "port = get_port (dplane s) pi"
    "length rxd = length (descs (rx_ring port))" "length txd = length (descs (tx_ring port))"
  shows "drv_inv (s\<lparr>dplane := put_port pi (port\<lparr>rx_ring := rx_ring port\<lparr>descs := rxd\<rparr>,
    tx_ring := tx_ring port\<lparr>descs := txd\<rparr>\<rparr>) (dplane s)\<rparr>)"
proof -
  let ?p = "port\<lparr>rx_ring := rx_ring port\<lparr>descs := rxd\<rparr>, tx_ring := tx_ring port\<lparr>descs := txd\<rparr>\<rparr>"
  note wf = drv_invD [OF assms(1,2), folded assms(3)]
  have "port_ms ?p = port_ms port" by (simp add: port_ms_def ring_queue_descs)
  moreover have "port_wf ?p" using wf(1) assms(4,5) by (simp add: port_wf_def ring_wf_def)
  ultimately have "drv_inv (s\<lparr>dplane := put_port pi ?p (dplane s), dbuf := dbuf s, held := held s\<rparr>)"
    using wf assms(3) by (intro drv_inv_putI [OF assms(1,2), of _ ?p]) (simp_all add: slots_wf_def)
  then show ?thesis by simp
qed

lemma ports_irq_unmask [simp]: "ports (ixmap_irq_unmask_queues p pi irqh) = ports p"
  by (simp add: ixmap_irq_unmask_queues_def Let_def)

lemma drv_inv_step [inv_intro]:
  assumes "driver_step s slot s'" "hands_over_held s slot" "drv_inv s"
  shows "drv_inv s'"
  using assms(1)
proof (cases rule: driver_step.cases)
  case (irq_unmask pi irqh)
  then show ?thesis using assms(3) by (auto intro!: inv_ports rings_ms_cong simp: get_port_def)
next
  case (rx_clean pi packets p)
  then show ?thesis using inv_rx_clean [OF assms(3)] by simp
next
  case (app_assign pi si b port)
  then show ?thesis using inv_app_assign [OF assms(3)] by simp
qed (use assms(2,3) in \<open>simp_all add: inv_rx_assign inv_tx_assign inv_tx_xmit inv_tx_clean inv_app_release hands_over_held_def
       inv_device\<close>)

lemma drv_init_inv [inv_intro]:
  assumes "drv_init s"
  shows "drv_inv s"
proof -
  have "inflight (dbuf s) = {}" using assms by (auto simp: inflight_def drv_init_def slot_free_def)
  moreover have "rings_ms (dplane s) = {#}"
    using assms by (auto simp: rings_ms_def drv_init_def Let_def port_ms_def intro!: sum.neutral)
  ultimately show ?thesis using assms by (simp add: drv_inv_def owned_def drv_init_def Let_def)
qed

lemma drv_inv_reachable:
  assumes "disciplined_step\<^sup>*\<^sup>* s s'" "drv_inv s"
  shows "drv_inv s'"
  using assms by (induction rule: rtranclp_induct) (auto simp: disciplined_step_def intro: drv_inv_step)

text \<open>
  C8.  From an initial state, as long as the application hands over (to \<open>ixmap_tx_assign\<close> or
  \<open>ixmap_slot_release\<close>) only slots that it holds, and whatever the interrupts and the card do, each slot
  that is in flight is at exactly one place (one entry of one ring, or once with the application), and a
  slot that is not in flight is at none: no slot is shared and none is lost.
\<close>

theorem slot_ownership:
  assumes "drv_init s0" "disciplined_step\<^sup>*\<^sup>* s0 s"
  shows "owned s = image_mset int (mset_set (inflight (dbuf s))) \<and>
    count (owned s) x = (if x \<in> int ` inflight (dbuf s) then 1 else 0)"
proof -
  have inv: "owned s = image_mset int (mset_set (inflight (dbuf s)))"
    using drv_inv_reachable [OF assms(2) drv_init_inv [OF assms(1)]] by (simp add: drv_inv_def)
  also have "\<dots> = mset_set (int ` inflight (dbuf s))" by (simp add: image_mset_mset_set)
  finally show ?thesis using inv by (simp add: count_mset_set')
qed

definition ex_drv :: drv where
  "ex_drv = \<lparr>dplane = ex_plane, dbuf = ex_buf, held = {#}\<rparr>"

lemma ex_drv_init: "drv_init ex_drv"
proof -
  have "\<forall>i < 2. ([0, 0] :: u32 list) ! i = 0" by (simp add: less_2_cases_iff)
  then show ?thesis
    by (simp add: drv_init_def ex_drv_def Let_def) (simp add: ex_defs ring_queue_def ring_used_def)
qed

theorem slot_ownership_witness:
  "count (owned (ex_drv\<lparr>dplane := fst (ixmap_rx_assign ex_plane 0 ex_buf),
     dbuf := snd (ixmap_rx_assign ex_plane 0 ex_buf)\<rparr>)) 1 = 1"
proof -
  let ?s = "ex_drv\<lparr>dplane := fst (ixmap_rx_assign ex_plane 0 ex_buf),
     dbuf := snd (ixmap_rx_assign ex_plane 0 ex_buf)\<rparr>"
  have "driver_step ex_drv None ?s"
    by (rule driver_step.rx_assign [of 0]) (simp_all add: ex_drv_def)
  then have step: "disciplined_step ex_drv ?s"
    by (auto simp: disciplined_step_def hands_over_held_def intro: exI [of _ None])
  have cnt: "count (owned ?s) 1 = (if 1 \<in> int ` inflight (dbuf ?s) then 1 else 0)"
    by (rule slot_ownership [OF ex_drv_init r_into_rtranclp, OF step, THEN conjunct2])
  have room: "3 = unat (ixmap_desc_unused (rx_ring (get_port ex_plane 0)) (ucast (num_rx_desc (get_port ex_plane 0))))"
    by (simp add: ixmap_desc_unused_def ex_defs)
  obtain "is" nxt where "is": "distinct is" "set is \<subseteq> free_slots ex_buf (get_port ex_plane 0)"
      "length is = min 3 (card (free_slots ex_buf (get_port ex_plane 0)))" "unat nxt < unat (buf_count ex_buf)"
      "ixmap_rx_assign ex_plane 0 ex_buf = (rx_published 0 is
         (rx_assigned 0 ex_buf is (3 - length is) nxt (get_port ex_plane 0)) ex_plane, fold mark_slot is ex_buf)"
    using ixmap_rx_assign_eq [OF refl ex_wf(4) room] .
  have "set is = {0, 1}"
    using "is"(1-3) by (intro card_subset_eq) (simp_all add: distinct_card)
  moreover have "length (slots ex_buf) = 2" by (simp add: ex_buf_def)
  ultimately have "1 \<in> inflight (dbuf ?s)"
    by (simp add: inflight_def "is"(5) slot_free_fold_mark)
  then have "1 \<in> int ` inflight (dbuf ?s)" by (metis image_eqI of_nat_1)
  then show ?thesis using cnt by simp
qed

end
