(* ===== verification/Os.thy ===== *)
theory Os
  imports Ixmap_Prelude "HOL-Library.Multiset" "HOL-Library.Monad_Syntax"
begin

text \<open>
  What the library and the application use of the operating system: file descriptors, blocks of
  \<open>malloc\<close> and \<open>numa_alloc_onnode\<close>, mappings of \<open>mmap\<close> and DMA mappings of the kernel module.  The
  answers of the system are a sequence that the operations consume in order, so that every behaviour of
  the system, failures included, is one value of \<open>ans\<close>; the requests made by \<open>ioctl\<close> are recorded in order.
  Releasing what is not held (a second \<open>close\<close> or \<open>free\<close>, or a wrong size) has no result.
\<close>

section \<open>Resources\<close>

datatype resource =
    Fd int
  | Malloc addr
  | Numa addr u64
  | Mmap addr u64
  | Dma int u64

record 'r os =
  res :: "resource multiset"
  ans :: "nat \<Rightarrow> int"
  calls :: nat
  reqs :: "'r list"

definition sys :: "'r os \<Rightarrow> int \<times> 'r os" where
  "sys s = (ans s (calls s), s\<lparr>calls := calls s + 1\<rparr>)"

definition acquire :: "resource \<Rightarrow> 'r os \<Rightarrow> 'r os" where
  "acquire r s = s\<lparr>res := add_mset r (res s)\<rparr>"

definition release :: "resource \<Rightarrow> 'r os \<Rightarrow> 'r os option" where
  "release r s = (if r \<in># res s then Some (s\<lparr>res := res s - {#r#}\<rparr>) else None)"

text \<open>\<open>open\<close>, \<open>socket\<close>, \<open>eventfd\<close>, \<open>signalfd\<close> and \<open>epoll_create\<close>: a descriptor or a negative number.\<close>

definition os_fd :: "'r os \<Rightarrow> int \<times> 'r os" where
  "os_fd s = (case sys s of (r, s1) \<Rightarrow> if r < 0 then (-1, s1) else (r, acquire (Fd r) s1))"

definition os_close :: "int \<Rightarrow> 'r os \<Rightarrow> 'r os option" where
  "os_close fd = release (Fd fd)"

text \<open>\<open>malloc\<close> and \<open>numa_alloc_onnode\<close>; \<open>None\<close> is \<open>NULL\<close>.\<close>

definition os_malloc :: "'r os \<Rightarrow> addr option \<times> 'r os" where
  "os_malloc s = (case sys s of (r, s1) \<Rightarrow> if r \<le> 0 then (None, s1) else (Some (nat r), acquire (Malloc (nat r)) s1))"

definition os_free :: "addr \<Rightarrow> 'r os \<Rightarrow> 'r os option" where
  "os_free a = release (Malloc a)"

definition os_numa :: "u64 \<Rightarrow> 'r os \<Rightarrow> addr option \<times> 'r os" where
  "os_numa n s = (case sys s of (r, s1) \<Rightarrow> if r \<le> 0 then (None, s1) else (Some (nat r), acquire (Numa (nat r) n) s1))"

definition os_numa_free :: "addr \<Rightarrow> u64 \<Rightarrow> 'r os \<Rightarrow> 'r os option" where
  "os_numa_free a n = release (Numa a n)"

text \<open>\<open>mmap\<close>; \<open>None\<close> is \<open>MAP_FAILED\<close>.\<close>

definition os_mmap :: "u64 \<Rightarrow> 'r os \<Rightarrow> addr option \<times> 'r os" where
  "os_mmap n s = (case sys s of (r, s1) \<Rightarrow> if r < 0 then (None, s1) else (Some (nat r), acquire (Mmap (nat r) n) s1))"

definition os_munmap :: "addr \<Rightarrow> u64 \<Rightarrow> 'r os \<Rightarrow> 'r os option" where
  "os_munmap a n = release (Mmap a n)"

definition os_ioctl :: "'r \<Rightarrow> 'r os \<Rightarrow> int \<times> 'r os" where
  "os_ioctl q s = sys (s\<lparr>reqs := reqs s @ [q]\<rparr>)"

section \<open>Their effect on the resources held\<close>

named_theorems os_res \<open>the resources held after an operation\<close>

lemma res_sys [os_res, simp]: "res (snd (sys s)) = res s" "res (snd (os_ioctl q s)) = res s"
  by (simp_all add: sys_def os_ioctl_def)

lemma sys_cases: obtains r s1 where "sys s = (r, s1)" "res s1 = res s"
  by (cases "sys s") (auto simp: sys_def)

lemma os_ioctl_cases: obtains r s1 where "os_ioctl q s = (r, s1)" "res s1 = res s" "reqs s1 = reqs s @ [q]"
  by (cases "os_ioctl q s") (auto simp: sys_def os_ioctl_def)

lemma os_fd_cases:
  obtains (fail) s1 where "os_fd s = (-1, s1)" "res s1 = res s"
  | (ok) fd s1 where "os_fd s = (fd, s1)" "0 \<le> fd" "res s1 = add_mset (Fd fd) (res s)"
  by (cases "fst (sys s) < 0") (auto simp: os_fd_def sys_def acquire_def)

lemma os_malloc_cases:
  obtains (fail) s1 where "os_malloc s = (None, s1)" "res s1 = res s"
  | (ok) a s1 where "os_malloc s = (Some a, s1)" "res s1 = add_mset (Malloc a) (res s)"
  by (cases "fst (sys s) \<le> 0") (auto simp: os_malloc_def sys_def acquire_def)

lemma os_numa_cases:
  obtains (fail) s1 where "os_numa n s = (None, s1)" "res s1 = res s"
  | (ok) a s1 where "os_numa n s = (Some a, s1)" "res s1 = add_mset (Numa a n) (res s)"
  by (cases "fst (sys s) \<le> 0") (auto simp: os_numa_def sys_def acquire_def)

lemma os_mmap_cases:
  obtains (fail) s1 where "os_mmap n s = (None, s1)" "res s1 = res s"
  | (ok) a s1 where "os_mmap n s = (Some a, s1)" "res s1 = add_mset (Mmap a n) (res s)"
  by (cases "fst (sys s) < 0") (auto simp: os_mmap_def sys_def acquire_def)

lemma release_held:
  assumes "res s = add_mset r M"
  obtains s1 where "release r s = Some s1" "res s1 = M"
  using assms by (auto simp: release_def)

lemma os_release_held:
  "res s = add_mset (Fd fd) M \<Longrightarrow> \<exists>s1. os_close fd s = Some s1 \<and> res s1 = M"
  "res s = add_mset (Malloc a) M \<Longrightarrow> \<exists>s1. os_free a s = Some s1 \<and> res s1 = M"
  "res s = add_mset (Numa a n) M \<Longrightarrow> \<exists>s1. os_numa_free a n s = Some s1 \<and> res s1 = M"
  "res s = add_mset (Mmap a n) M \<Longrightarrow> \<exists>s1. os_munmap a n s = Some s1 \<and> res s1 = M"
  by (auto simp: release_def os_close_def os_free_def os_numa_free_def os_munmap_def)

section \<open>Acquiring several resources in a loop\<close>

text \<open>
  The loops of the sources that acquire one thing after the other and stop at the first failure: whether
  the loop ran to its end, and what it acquired, which is what the error path releases again.
\<close>

fun acquire_all :: "('i \<Rightarrow> 's \<Rightarrow> ('h option \<times> 's) option) \<Rightarrow> 'i list \<Rightarrow> 's \<Rightarrow> (bool \<times> 'h list \<times> 's) option" where
  "acquire_all f [] s = Some (True, [], s)"
| "acquire_all f (i # ks) s = do {
     (r, s1) \<leftarrow> f i s;
     (case r of
        None \<Rightarrow> Some (False, [], s1)
      | Some h \<Rightarrow> do { (ok, hs, s2) \<leftarrow> acquire_all f ks s1; Some (ok, h # hs, s2) }) }"

locale held_rel =
  fixes holds :: "'s \<Rightarrow> 'm multiset"
    and rel :: "'h \<Rightarrow> 's \<Rightarrow> 's option"
    and foot :: "'h \<Rightarrow> 'm multiset"
  assumes rel_law: "holds s = M + foot h \<Longrightarrow> \<exists>s'. rel h s = Some s' \<and> holds s' = M"
begin

lemma release_all_law:
  "holds s = M + (\<Sum>h \<leftarrow> hs. foot h) \<Longrightarrow> \<exists>s'. for_each rel hs s = Some s' \<and> holds s' = M"
proof (induction hs arbitrary: s)
  case (Cons h hs)
  have "holds s = (M + (\<Sum>h \<leftarrow> hs. foot h)) + foot h" using Cons.prems by (simp add: ac_simps)
  from rel_law [OF this] Cons.IH show ?case by auto
qed simp

end

locale held_op = held_rel +
  fixes valid :: "'i \<Rightarrow> bool"
    and acq :: "'i \<Rightarrow> 's \<Rightarrow> ('h option \<times> 's) option"
  assumes acq_law: "valid i \<Longrightarrow> \<exists>r s'. acq i s = Some (r, s') \<and> holds s' = holds s + (case r of None \<Rightarrow> {#} | Some h \<Rightarrow> foot h)"
begin

lemma acquire_all_valid:
  "list_all valid ks \<Longrightarrow> \<exists>ok hs s'. acquire_all acq ks s = Some (ok, hs, s') \<and> holds s' = holds s + (\<Sum>h \<leftarrow> hs. foot h) \<and>
     length hs \<le> length ks \<and> (ok \<longleftrightarrow> length hs = length ks)"
proof (induction ks arbitrary: s)
  case (Cons i ks)
  obtain r s1 where r: "acq i s = Some (r, s1)" "holds s1 = holds s + (case r of None \<Rightarrow> {#} | Some h \<Rightarrow> foot h)"
    using acq_law [of i s] Cons.prems by (simp only: list_all_iff list.set) blast
  show ?case
  proof (cases r)
    case (Some h)
    obtain ok hs s2 where "acquire_all acq ks s1 = Some (ok, hs, s2)" "holds s2 = holds s1 + (\<Sum>h \<leftarrow> hs. foot h)"
        "length hs \<le> length ks" "ok \<longleftrightarrow> length hs = length ks"
      using Cons.IH [of s1] Cons.prems by (simp only: list_all_iff list.set) blast
    then show ?thesis using r Some by (simp add: add.assoc)
  qed (use r in auto)
qed auto

end

text \<open>The resources of a process.\<close>

locale resource_op_on = held_op res rel foot valid acq
  for valid and acq :: "'i \<Rightarrow> 'r os \<Rightarrow> ('h option \<times> 'r os) option" and rel foot

text \<open>Operations that work for every item.\<close>

locale resource_op = resource_op_on "\<lambda>_. True" acq rel foot
  for acq :: "'i \<Rightarrow> 'r os \<Rightarrow> ('h option \<times> 'r os) option" and rel foot
begin

lemma acquire_all_law:
  "\<exists>ok hs s'. acquire_all acq ks s = Some (ok, hs, s') \<and> res s' = res s + (\<Sum>h \<leftarrow> hs. foot h) \<and>
     length hs \<le> length ks \<and> (ok \<longleftrightarrow> length hs = length ks)"
  by (rule acquire_all_valid) (simp add: list_all_iff)

end

end
