(* ===== verification/Iftap.thy ===== *)
theory Iftap
  imports Os
begin

text \<open>
  The TAP interfaces of \<open>src/src/iftap.c\<close>: one interface for each port with one queue for each core.
  \<open>ioctl\<close> requests are recorded with the descriptor, the interface name and their argument.
\<close>

section \<open>Data\<close>

datatype request =
    TUNSETIFF int string u16
  | SIOCSIFHWADDR int string "u8 list"
  | SIOCSIFMTU int string u32
  | SIOCSIFFLAGS int string u16
  | SIOCGIFINDEX int string

record tun_handle =
  tunh_self :: addr
  tunh_queues :: addr
  queues :: "int list"
  tunh_ifindex :: u32
  tunh_mtu_frame :: u32

record tun_port =
  tun_fd :: int
  tun_ifindex_of :: u32
  tun_mtu_frame :: u32

record tun_plane =
  tunp_self :: addr
  tunp_ports_self :: addr
  tun_ports :: "tun_port list"

definition IFF_TAP :: u16 where "IFF_TAP = 0x0002"
definition IFF_NO_PI :: u16 where "IFF_NO_PI = 0x1000"
definition IFF_MULTI_QUEUE :: u16 where "IFF_MULTI_QUEUE = 0x0100"
definition IFF_UP :: u16 where "IFF_UP = 0x1"
definition IFNAMSIZ :: nat where "IFNAMSIZ = 16"
definition TAP_IFNAME :: string where "TAP_IFNAME = ''ixmap''"

section \<open>Names\<close>

text \<open>\<open>%d\<close> of \<open>snprintf\<close>, and the bytes of the result that fit, without the final zero.\<close>

fun decimal :: "nat \<Rightarrow> string" where
  "decimal n = (if n < 10 then [char_of (48 + n)] else decimal (n div 10) @ [char_of (48 + n mod 10)])"

declare decimal.simps [simp del]

definition print_d :: "int \<Rightarrow> string" where
  "print_d i = (if i < 0 then CHR ''-'' # decimal (nat (- i)) else decimal (nat i))"

definition snprintf :: "nat \<Rightarrow> string \<Rightarrow> string" where
  "snprintf n str = take (n - 1) str"

definition if_name :: "u32 \<Rightarrow> string" where
  "if_name port_index = snprintf IFNAMSIZ (TAP_IFNAME @ print_d (sint port_index))"

section \<open>The requests\<close>

definition tun_assign :: "int \<Rightarrow> string \<Rightarrow> request os \<Rightarrow> int \<times> request os" where
  "tun_assign fd name s =
     (case os_ioctl (TUNSETIFF fd (take IFNAMSIZ name) (IFF_TAP OR IFF_NO_PI OR IFF_MULTI_QUEUE)) s of
        (ret, s1) \<Rightarrow> (if ret < 0 then -1 else 0, s1))"

definition tun_mac :: "int \<Rightarrow> string \<Rightarrow> u8 list \<Rightarrow> request os \<Rightarrow> int \<times> request os" where
  "tun_mac fd name src_mac s =
     (case os_ioctl (SIOCSIFHWADDR fd (take IFNAMSIZ name) (take 6 src_mac)) s of
        (ret, s1) \<Rightarrow> (if ret < 0 then -1 else 0, s1))"

definition tun_mtu :: "int \<Rightarrow> string \<Rightarrow> u32 \<Rightarrow> request os \<Rightarrow> int \<times> request os" where
  "tun_mtu fd name mtu s =
     (case os_ioctl (SIOCSIFMTU fd (take IFNAMSIZ name) mtu) s of (ret, s1) \<Rightarrow> (if ret < 0 then -1 else 0, s1))"

definition tun_up :: "int \<Rightarrow> string \<Rightarrow> request os \<Rightarrow> int \<times> request os" where
  "tun_up fd name s =
     (case os_ioctl (SIOCSIFFLAGS fd (take IFNAMSIZ name) IFF_UP) s of (ret, s1) \<Rightarrow> (if ret < 0 then -1 else 0, s1))"

text \<open>The index that a successful request fills in is the next answer of the system.\<close>

definition tun_ifindex :: "int \<Rightarrow> string \<Rightarrow> request os \<Rightarrow> int \<times> request os" where
  "tun_ifindex fd name s =
     (case os_ioctl (SIOCGIFINDEX fd (take IFNAMSIZ name)) s of
        (ret, s1) \<Rightarrow> if ret < 0 then (-1, s1) else sys s1)"

section \<open>Interfaces\<close>

text \<open>One queue: its descriptor, attached to the interface.\<close>

definition tun_queue :: "string \<Rightarrow> nat \<Rightarrow> request os \<Rightarrow> (int option \<times> request os) option" where
  "tun_queue name i s =
     (case os_fd s of (fd, s1) \<Rightarrow>
        if fd < 0 then Some (None, s1)
        else case tun_assign fd name s1 of (ret, s2) \<Rightarrow>
          if ret < 0 then do { s3 \<leftarrow> os_close fd s2; Some (None, s3) } else Some (Some fd, s2))"

text \<open>The requests for the whole interface; \<open>ifindex < 0\<close> never holds for the \<open>unsigned\<close> field.\<close>

definition tun_setup :: "int \<Rightarrow> string \<Rightarrow> u8 list \<Rightarrow> u32 \<Rightarrow> request os \<Rightarrow> u32 option \<times> request os" where
  "tun_setup sock name src_mac mtu s =
     (case tun_mac sock name src_mac s of (ret, s1) \<Rightarrow>
        if ret < 0 then (None, s1)
        else case tun_ifindex sock name s1 of (ix, s2) \<Rightarrow>
          case tun_mtu sock name mtu s2 of (ret, s3) \<Rightarrow>
            if ret < 0 then (None, s3)
            else case tun_up sock name s3 of (ret, s4) \<Rightarrow>
              if ret < 0 then (None, s4) else (Some (word_of_int ix), s4))"

definition tun_open :: "u32 \<Rightarrow> u8 list \<Rightarrow> u32 \<Rightarrow> u32 \<Rightarrow> request os \<Rightarrow> (tun_handle option \<times> request os) option" where
  "tun_open num_cores src_mac mtu port_index s =
     (let name = if_name port_index
      in case os_malloc s of
        (None, s1) \<Rightarrow> Some (None, s1)
      | (Some tunh, s1) \<Rightarrow>
          (case os_malloc s1 of
             (None, s2) \<Rightarrow> do { s3 \<leftarrow> os_free tunh s2; Some (None, s3) }
           | (Some qs, s2) \<Rightarrow>
               (case os_fd s2 of (sock, s3) \<Rightarrow>
                  if sock < 0 then do { s4 \<leftarrow> os_free qs s3; s5 \<leftarrow> os_free tunh s4; Some (None, s5) }
                  else do {
                    (ok, fds, s4) \<leftarrow> acquire_all (tun_queue name) [0..<unat num_cores] s3;
                    (case (if ok then tun_setup sock name src_mac mtu s4 else (None, s4)) of
                       (Some ix, s5) \<Rightarrow> do {
                         s6 \<leftarrow> os_close sock s5;
                         Some (Some \<lparr>tunh_self = tunh, tunh_queues = qs, queues = fds, tunh_ifindex = ix,
                                     tunh_mtu_frame = mtu\<rparr>, s6) }
                     | (None, s5) \<Rightarrow> do {
                         s6 \<leftarrow> for_each os_close fds s5;
                         s7 \<leftarrow> os_close sock s6;
                         s8 \<leftarrow> os_free qs s7;
                         s9 \<leftarrow> os_free tunh s8;
                         Some (None, s9) }) })))"

definition tun_close :: "tun_handle \<Rightarrow> request os \<Rightarrow> request os option" where
  "tun_close tunh s = do {
     s1 \<leftarrow> for_each os_close (queues tunh) s;
     s2 \<leftarrow> os_free (tunh_queues tunh) s1;
     os_free (tunh_self tunh) s2 }"

text \<open>\<open>sizeof(struct tun_plane)\<close> and \<open>sizeof(struct tun_port)\<close>.\<close>

definition sizeof_tun_plane :: u64 where "sizeof_tun_plane = 8"
definition sizeof_tun_port :: u64 where "sizeof_tun_port = 12"

definition tun_plane_alloc :: "tun_handle list \<Rightarrow> u32 \<Rightarrow> nat \<Rightarrow> 'r os \<Rightarrow> (tun_plane option \<times> 'r os) option" where
  "tun_plane_alloc tunh_array num_ports core_id s =
     (case os_numa sizeof_tun_plane s of
        (None, s1) \<Rightarrow> Some (None, s1)
      | (Some plane, s1) \<Rightarrow>
          (case os_numa (sizeof_tun_port * ucast num_ports) s1 of
             (None, s2) \<Rightarrow> do { s3 \<leftarrow> os_numa_free plane sizeof_tun_plane s2; Some (None, s3) }
           | (Some ports, s2) \<Rightarrow>
               Some (Some \<lparr>tunp_self = plane, tunp_ports_self = ports,
                 tun_ports = map (\<lambda>i. let h = tunh_array ! i
                   in \<lparr>tun_fd = queues h ! core_id, tun_ifindex_of = tunh_ifindex h, tun_mtu_frame = tunh_mtu_frame h\<rparr>)
                   [0..<unat num_ports]\<rparr>, s2)))"

definition tun_plane_release :: "tun_plane \<Rightarrow> u32 \<Rightarrow> 'r os \<Rightarrow> 'r os option" where
  "tun_plane_release plane num_ports s = do {
     s1 \<leftarrow> os_numa_free (tunp_ports_self plane) (sizeof_tun_port * ucast num_ports) s;
     os_numa_free (tunp_self plane) sizeof_tun_plane s1 }"

section \<open>What an interface holds\<close>

definition tunh_foot :: "tun_handle \<Rightarrow> resource multiset" where
  "tunh_foot h = {#Malloc (tunh_self h), Malloc (tunh_queues h)#} + mset (map Fd (queues h))"

lemma tun_requests:
  "tun_assign fd name s = (r, s') \<Longrightarrow> res s' = res s" "tun_mac fd name m s = (r, s') \<Longrightarrow> res s' = res s"
  "tun_mtu fd name mtu s = (r, s') \<Longrightarrow> res s' = res s" "tun_up fd name s = (r, s') \<Longrightarrow> res s' = res s"
  "tun_ifindex fd name s = (r, s') \<Longrightarrow> res s' = res s"
  by (auto simp: tun_assign_def tun_mac_def tun_mtu_def tun_up_def tun_ifindex_def os_ioctl_def sys_def split: if_splits)

lemma res_tun_setup: "tun_setup sock name m mtu s = (r, s') \<Longrightarrow> res s' = res s"
  by (auto simp: tun_setup_def dest!: tun_requests split: prod.splits if_splits)

interpretation tun_queues: resource_op "tun_queue name" os_close "\<lambda>fd. {#Fd fd#}" for name
proof
  fix i s
  show "\<exists>r s'. tun_queue name i s = Some (r, s') \<and> res s' = res s + (case r of None \<Rightarrow> {#} | Some h \<Rightarrow> {#Fd h#})"
  proof (cases rule: os_fd_cases [of s])
    case (ok fd s1)
    obtain ret s2 where a: "tun_assign fd name s1 = (ret, s2)" by fastforce
    then have "res s2 = add_mset (Fd fd) (res s)" using tun_requests(1) [OF a] ok(3) by simp
    then show ?thesis using ok os_release_held(1) [of s2 fd "res s"] a by (auto simp: tun_queue_def)
  qed (auto simp: tun_queue_def)
next
  fix s h M
  show "\<exists>s'. os_close h s = Some s' \<and> res s' = M" if "res s = M + {#Fd h#}"
    using that os_release_held(1) [of s h M] by simp
qed

lemma tun_close_foot:
  assumes "res s = M + tunh_foot h"
  shows "\<exists>s'. tun_close h s = Some s' \<and> res s' = M"
proof -
  have f: "(\<Sum>fd \<leftarrow> fds. {#Fd fd#}) = mset (map Fd fds)" for fds by (induction fds) simp_all
  have "res s = add_mset (Malloc (tunh_queues h)) (add_mset (Malloc (tunh_self h)) M) + (\<Sum>fd \<leftarrow> queues h. {#Fd fd#})"
    using assms by (simp add: tunh_foot_def f)
  from tun_queues.release_all_law [OF this] obtain s1 where s1: "for_each os_close (queues h) s = Some s1"
      "res s1 = add_mset (Malloc (tunh_queues h)) (add_mset (Malloc (tunh_self h)) M)"
    by blast
  from os_release_held(2) [OF s1(2)] obtain s2 where s2: "os_free (tunh_queues h) s1 = Some s2" "res s2 = add_mset (Malloc (tunh_self h)) M"
    by blast
  from os_release_held(2) [OF this(2)] show ?thesis using s1 s2 by (simp add: tun_close_def)
qed

lemma tun_open_foot:
  "\<exists>r s'. tun_open num_cores m mtu pi s = Some (r, s') \<and>
     res s' = res s + (case r of None \<Rightarrow> {#} | Some h \<Rightarrow> tunh_foot h) \<and>
     (\<forall>h. r = Some h \<longrightarrow> length (queues h) = unat num_cores \<and> tunh_mtu_frame h = mtu)"
proof (cases rule: os_malloc_cases [of s])
  case (ok tunh s1)
  note 1 = ok
  show ?thesis
  proof (cases rule: os_malloc_cases [of s1])
    case (fail s2)
    then have "res s2 = add_mset (Malloc tunh) (res s)" using 1 by simp
    from os_release_held(2) [OF this] show ?thesis using fail 1 by (auto simp: tun_open_def)
  next
    case (ok qs s2)
    note 2 = ok
    show ?thesis
    proof (cases rule: os_fd_cases [of s2])
      case (fail s3)
      then have "res s3 = add_mset (Malloc qs) (add_mset (Malloc tunh) (res s))" using 1 2 by simp
      from os_release_held(2) [OF this] obtain s4 where s4: "os_free qs s3 = Some s4" "res s4 = add_mset (Malloc tunh) (res s)" by blast
      from os_release_held(2) [OF this(2)] show ?thesis using fail 1 2 s4 by (auto simp: tun_open_def)
    next
      case (ok sock s3)
      note 3 = ok
      let ?name = "if_name pi"
      obtain g fds s4 where a: "acquire_all (tun_queue ?name) [0..<unat num_cores] s3 = Some (g, fds, s4)"
          "res s4 = res s3 + (\<Sum>fd \<leftarrow> fds. {#Fd fd#})" "g \<longleftrightarrow> length fds = unat num_cores"
        using tun_queues.acquire_all_law [of ?name "[0..<unat num_cores]" s3] by auto
      obtain r s5 where t: "(if g then tun_setup sock ?name m mtu s4 else (None, s4)) = (r, s5)" by fastforce
      have f: "(\<Sum>fd \<leftarrow> fds. {#Fd fd#}) = mset (map Fd fds)" by (induction fds) simp_all
      have r5: "res s5 = add_mset (Fd sock) (add_mset (Malloc qs) (add_mset (Malloc tunh) (res s))) + mset (map Fd fds)"
        using t a(2) 1 2 3 res_tun_setup [of sock ?name m mtu s4 r s5] f by (simp split: if_splits)
      show ?thesis
      proof (cases r)
        case None
        from tun_queues.release_all_law [OF r5 [folded f]] obtain s6 where s6: "for_each os_close fds s5 = Some s6"
            "res s6 = add_mset (Fd sock) (add_mset (Malloc qs) (add_mset (Malloc tunh) (res s)))" by blast
        from os_release_held(1) [OF this(2)] obtain s7 where s7: "os_close sock s6 = Some s7"
            "res s7 = add_mset (Malloc qs) (add_mset (Malloc tunh) (res s))" by blast
        from os_release_held(2) [OF this(2)] obtain s8 where s8: "os_free qs s7 = Some s8" "res s8 = add_mset (Malloc tunh) (res s)" by blast
        from os_release_held(2) [OF this(2)] show ?thesis using 1 2 3 a t s6 s7 s8 None by (auto simp: tun_open_def)
      next
        case (Some ix)
        then have g using t by (simp split: if_splits)
        have "res s5 = add_mset (Fd sock) (res s + tunh_foot \<lparr>tunh_self = tunh, tunh_queues = qs, queues = fds,
            tunh_ifindex = ix, tunh_mtu_frame = mtu\<rparr>)" using r5 by (simp add: tunh_foot_def)
        from os_release_held(1) [OF this] show ?thesis using 1 2 3 a t Some \<open>g\<close> by (auto simp: tun_open_def)
      qed
    qed
  qed
qed (auto simp: tun_open_def)

interpretation tun_interfaces: resource_op "tun_open num_cores m mtu" tun_close tunh_foot for num_cores m mtu
  using tun_open_foot tun_close_foot by unfold_locales blast+

section \<open>Properties\<close>

text \<open>
  C25.  \<open>tun_open\<close> returns for every behaviour of the system.  When it fails, whatever the request that
  failed, it holds no descriptor and no memory any more; when it succeeds, it holds the handle, the array
  and one descriptor for each core, and \<open>tun_close\<close> releases exactly these.
\<close>

theorem tun_open_close_balanced:
  "\<exists>r s'. tun_open num_cores src_mac mtu port_index s = Some (r, s') \<and>
     (case r of
        None \<Rightarrow> res s' = res s
      | Some h \<Rightarrow> length (queues h) = unat num_cores \<and> res s' = res s + tunh_foot h \<and>
          (\<exists>s''. tun_close h s' = Some s'' \<and> res s'' = res s))"
proof -
  obtain r s' where o: "tun_open num_cores src_mac mtu port_index s = Some (r, s')"
      "res s' = res s + (case r of None \<Rightarrow> {#} | Some h \<Rightarrow> tunh_foot h)" "\<forall>h. r = Some h \<longrightarrow> length (queues h) = unat num_cores"
    using tun_open_foot by blast
  then show ?thesis using tun_close_foot [of s' "res s"] by (cases r) auto
qed

lemma if_name_0: "if_name 0 = ''ixmap0''"
  by code_simp

lemma minus_one_u32: "(- 1 :: u32) = 0xFFFFFFFF"
  by simp

text \<open>
  A failing \<open>SIOCGIFINDEX\<close> is not noticed, because the index is compared as an unsigned number: with a
  system that refuses only this request, \<open>tun_open\<close> succeeds with the index 4294967295.
\<close>

lemma tun_open_ignores_ifindex_failure:
  "\<exists>h s'. tun_open 1 [0, 1, 2, 3, 4, 5] 1522 0
       \<lparr>res = {#}, ans = (\<lambda>k. if k = 6 then -1 else 100 + int k), calls = 0, reqs = []\<rparr> = Some (Some h, s') \<and>
     tunh_ifindex h = 0xFFFFFFFF \<and>
     reqs s' = [TUNSETIFF 103 ''ixmap0'' 0x1102, SIOCSIFHWADDR 102 ''ixmap0'' [0, 1, 2, 3, 4, 5], SIOCGIFINDEX 102 ''ixmap0'',
       SIOCSIFMTU 102 ''ixmap0'' 1522, SIOCSIFFLAGS 102 ''ixmap0'' 1]"
  by (simp add: tun_open_def tun_setup_def tun_queue_def tun_assign_def tun_mac_def tun_ifindex_def tun_mtu_def tun_up_def
      os_malloc_def os_fd_def os_ioctl_def os_close_def sys_def acquire_def release_def if_name_0 Let_def minus_one_u32
      IFNAMSIZ_def IFF_TAP_def IFF_NO_PI_def IFF_MULTI_QUEUE_def IFF_UP_def del: of_int_minus)

end
