(* ===== verification/Device.thy ===== *)
theory Device
  imports Slots Iftap
begin

text \<open>
  The resources of the library, \<open>src/lib/ixmap.c\<close>: opening a card through its character device, the
  interrupt handles, the descriptor memory and the packet buffer of a thread, and the plane that holds
  the ports of a thread.  All of it works on the system of the theory \<open>Os\<close>: every answer of the system,
  every failure included, is possible.  \<open>ioctl\<close> requests are recorded with the descriptor and their
  arguments; the fields that a request fills in are the next answers.
\<close>

section \<open>Data\<close>

datatype ixmap_irq_type = IXMAP_IRQ_RX | IXMAP_IRQ_TX

datatype dev_req =
    IXMAP_INFO int
  | IXMAP_UP int u16 u32 u32
  | IXMAP_MAP int addr u64
  | IXMAP_UNMAP int u64
  | IXMAP_IRQ int ixmap_irq_type u32 int
  | Smp_affinity u32 u32 u32

record ixmap_handle =
  ih_self :: addr
  ih_fd :: int
  bar :: addr
  bar_size :: u64
  rx_ring_self :: addr
  tx_ring_self :: addr
  ih_rx_ring :: "ixmap_ring list"
  ih_tx_ring :: "ixmap_ring list"
  ih_num_tx_desc :: u32
  ih_num_rx_desc :: u32
  ih_rx_budget :: u32
  ih_tx_budget :: u32
  ih_num_queues :: u32
  num_interrupt_rate :: u16
  promisc :: u32
  ih_mtu_frame :: u32
  ih_buf_size :: u32
  ih_mac_addr :: "u8 list"
  ih_interface_name :: string

record ixmap_desc =
  ds_self :: addr
  ds_virt :: addr
  ds_node :: addr
  ds_mem :: addr
  ds_mem_size :: u32
  ds_core :: u32

definition SIZE_1GB :: u64 where "SIZE_1GB = push_bit 30 1"
definition IXMAP_IFNAME :: string where "IXMAP_IFNAME = ''ixgbe''"
definition IXGBE_EIMS_EX :: "nat \<Rightarrow> nat" where "IXGBE_EIMS_EX i = 0xAA0 + i * 4"
definition L1_CACHE_BYTES :: nat where "L1_CACHE_BYTES = 64"

definition sizeof_plane :: u64 where "sizeof_plane = 8"
definition sizeof_port :: u64 where "sizeof_port = 136"
definition sizeof_desc :: u64 where "sizeof_desc = 24"
definition sizeof_mnode :: u64 where "sizeof_mnode = 48"
definition sizeof_buf :: u64 where "sizeof_buf = 32"
definition sizeof_irq_handle :: u64 where "sizeof_irq_handle = 24"

definition align_up :: "nat \<Rightarrow> nat \<Rightarrow> nat" where
  "align_up n x = (x + n - 1) div n * n"

text \<open>A field that a successful request fills in.\<close>

definition os_out :: "'r os \<Rightarrow> 'a :: len word \<times> 'r os" where
  "os_out s = (case sys s of (r, s1) \<Rightarrow> (word_of_int r, s1))"

text \<open>\<open>mmap\<close> and \<open>munmap\<close> refuse the length 0; \<open>munmap\<close> then unmaps nothing.\<close>

definition os_mmap_len :: "u64 \<Rightarrow> 'r os \<Rightarrow> addr option \<times> 'r os" where
  "os_mmap_len n s = (if n = 0 then (None, s) else os_mmap n s)"

definition os_munmap_len :: "addr \<Rightarrow> u64 \<Rightarrow> 'r os \<Rightarrow> 'r os option" where
  "os_munmap_len a n s = (if n = 0 then Some s else os_munmap a n s)"

text \<open>
  \<open>munmap\<close> of an area that was mapped with \<open>MAP_HUGETLB\<close> refuses a length that is no multiple of the size of
  a huge page, and then unmaps nothing; \<open>mmap\<close> takes such a length and rounds it up.  The size of the huge
  pages is a setting of the system, the parameter \<open>hp\<close>.
\<close>

definition os_munmap_huge :: "u64 \<Rightarrow> addr \<Rightarrow> u64 \<Rightarrow> 'r os \<Rightarrow> 'r os option" where
  "os_munmap_huge hp a n s = (if n mod hp = 0 then os_munmap_len a n s else Some s)"

section \<open>DMA mappings\<close>

definition ixmap_dma_map :: "ixmap_handle \<Rightarrow> addr \<Rightarrow> u64 \<Rightarrow> dev_req os \<Rightarrow> u64 option \<times> dev_req os" where
  "ixmap_dma_map ih a n s =
     (case os_ioctl (IXMAP_MAP (ih_fd ih) a n) s of
        (r, s1) \<Rightarrow>
          if r < 0 then (None, s1)
          else case os_out s1 of (d, s2) \<Rightarrow> (Some d, acquire (Dma (ih_fd ih) d) s2))"

text \<open>The kernel module answers \<open>-ENOENT\<close> to a request for an area it does not have.\<close>

definition ixmap_dma_unmap :: "ixmap_handle \<Rightarrow> u64 \<Rightarrow> dev_req os \<Rightarrow> int \<times> dev_req os" where
  "ixmap_dma_unmap ih d s =
     (let s1 = s\<lparr>reqs := reqs s @ [IXMAP_UNMAP (ih_fd ih) d]\<rparr>
      in if Dma (ih_fd ih) d \<in># res s then (0, s1\<lparr>res := res s - {#Dma (ih_fd ih) d#}\<rparr>) else (-1, s1))"

section \<open>Interrupts\<close>

text \<open>\<open>1 << n\<close> on \<open>int\<close>; the processor uses the shift count modulo 32.\<close>

definition c_shl :: "nat \<Rightarrow> u32" where
  "c_shl n = push_bit (n mod 32) 1"

definition affinity_masks :: "u32 \<Rightarrow> u32 \<times> u32" where
  "affinity_masks core_id =
     (let mask_low = (if core_id \<le> 31 then c_shl (unat core_id) else 0);
          mask_high = (if core_id \<le> 31 then 0 else c_shl (unat (core_id - 31)))
      in (mask_high, mask_low))"

definition ixmap_irq_setaffinity :: "u32 \<Rightarrow> u32 \<Rightarrow> dev_req os \<Rightarrow> (int \<times> dev_req os) option" where
  "ixmap_irq_setaffinity vector core_id s =
     (case os_fd s of
        (file, s1) \<Rightarrow>
          if file < 0 then Some (-1, s1)
          else case affinity_masks core_id of
            (mask_high, mask_low) \<Rightarrow>
              (case os_ioctl (Smp_affinity vector mask_high mask_low) s1 of
                 (ret, s2) \<Rightarrow> do {
                   s3 \<leftarrow> os_close file s2;
                   Some (if ret < 0 then -1 else 0, s3) }))"

definition irq_qmask :: "ixmap_irq_type \<Rightarrow> u32 \<Rightarrow> u32 \<Rightarrow> u64" where
  "irq_qmask type core_id n_queues =
     scast (case type of
              IXMAP_IRQ_RX \<Rightarrow> c_shl (unat core_id)
            | IXMAP_IRQ_TX \<Rightarrow> c_shl (unat (core_id + n_queues)))"

text \<open>An interrupt handle with the address of its block.\<close>

definition ixmap_irq_open ::
    "ixmap_handle \<Rightarrow> u32 \<Rightarrow> ixmap_irq_type \<Rightarrow> dev_req os \<Rightarrow> ((addr \<times> ixmap_irq_handle) option \<times> dev_req os) option" where
  "ixmap_irq_open ih core_id type s =
     (if core_id \<ge> ih_num_queues ih then Some (None, s)
      else case os_fd s of
        (efd, s1) \<Rightarrow>
          if efd < 0 then Some (None, s1)
          else case os_ioctl (IXMAP_IRQ (ih_fd ih) type core_id efd) s1 of
            (ret, s2) \<Rightarrow>
              if ret < 0 then do { s3 \<leftarrow> os_close efd s2; Some (None, s3) }
              else case os_out s2 of
                (vector, s3) \<Rightarrow> do {
                  (ret2, s4) \<leftarrow> ixmap_irq_setaffinity vector core_id s3;
                  (if ret2 < 0 then do { s5 \<leftarrow> os_close efd s4; Some (None, s5) }
                   else case os_numa sizeof_irq_handle s4 of
                     (None, s5) \<Rightarrow> do { s6 \<leftarrow> os_close efd s5; Some (None, s6) }
                   | (Some irqh, s5) \<Rightarrow>
                       Some (Some (irqh, \<lparr>irq_fd = efd, qmask = irq_qmask type core_id (ih_num_queues ih),
                                          irq_vector = vector\<rparr>), s5)) })"

definition ixmap_irq_close :: "addr \<times> ixmap_irq_handle \<Rightarrow> dev_req os \<Rightarrow> dev_req os option" where
  "ixmap_irq_close irqh s = do {
     s1 \<leftarrow> os_close (irq_fd (snd irqh)) s;
     os_numa_free (fst irqh) sizeof_irq_handle s1 }"

definition ixmap_irq_fd :: "ixmap_plane \<Rightarrow> nat \<Rightarrow> ixmap_irq_type \<Rightarrow> int" where
  "ixmap_irq_fd plane pi type =
     (case type of
        IXMAP_IRQ_RX \<Rightarrow> irq_fd (rx_irq (get_port plane pi))
      | IXMAP_IRQ_TX \<Rightarrow> irq_fd (tx_irq (get_port plane pi)))"

definition ixmap_irq_handle_of :: "ixmap_plane \<Rightarrow> nat \<Rightarrow> ixmap_irq_type \<Rightarrow> ixmap_irq_handle" where
  "ixmap_irq_handle_of plane pi type =
     (case type of IXMAP_IRQ_RX \<Rightarrow> rx_irq (get_port plane pi) | IXMAP_IRQ_TX \<Rightarrow> tx_irq (get_port plane pi))"

section \<open>The plane of a thread\<close>

text \<open>Both interrupts of a port, the second with the first undone when it fails.\<close>

definition port_irqs_open ::
    "u32 \<Rightarrow> ixmap_handle \<Rightarrow> dev_req os \<Rightarrow>
     (((addr \<times> ixmap_irq_handle) \<times> (addr \<times> ixmap_irq_handle)) option \<times> dev_req os) option" where
  "port_irqs_open core_id ih s = do {
     (rx, s1) \<leftarrow> ixmap_irq_open ih core_id IXMAP_IRQ_RX s;
     (case rx of
        None \<Rightarrow> Some (None, s1)
      | Some rx \<Rightarrow> do {
          (tx, s2) \<leftarrow> ixmap_irq_open ih core_id IXMAP_IRQ_TX s1;
          (case tx of
             None \<Rightarrow> do { s3 \<leftarrow> ixmap_irq_close rx s2; Some (None, s3) }
           | Some tx \<Rightarrow> Some (Some (rx, tx), s2)) }) }"

definition port_irqs_close ::
    "(addr \<times> ixmap_irq_handle) \<times> (addr \<times> ixmap_irq_handle) \<Rightarrow> dev_req os \<Rightarrow> dev_req os option" where
  "port_irqs_close irqs s = do { s1 \<leftarrow> ixmap_irq_close (fst irqs) s; ixmap_irq_close (snd irqs) s1 }"

definition port_init ::
    "ixmap_buf \<Rightarrow> u32 \<Rightarrow> nat \<Rightarrow> ixmap_handle \<Rightarrow> (addr \<times> ixmap_irq_handle) \<times> (addr \<times> ixmap_irq_handle) \<Rightarrow> ixmap_port" where
  "port_init buf core_id i ih irqs = \<lparr>
     irqreg0 = bar ih + IXGBE_EIMS_EX 0,
     irqreg1 = bar ih + IXGBE_EIMS_EX 1,
     rx_ring = ih_rx_ring ih ! unat core_id,
     tx_ring = ih_tx_ring ih ! unat core_id,
     rx_irq = snd (fst irqs),
     tx_irq = snd (snd irqs),
     rx_slot_next = 0,
     rx_slot_offset = of_nat i * buf_count buf,
     tx_suspended = 0,
     mtu_frame = ih_mtu_frame ih,
     num_tx_desc = ih_num_tx_desc ih,
     num_rx_desc = ih_num_rx_desc ih,
     num_queues = ih_num_queues ih,
     rx_budget = ih_rx_budget ih,
     tx_budget = ih_tx_budget ih,
     mac_addr = ih_mac_addr ih,
     interface_name = ih_interface_name ih,
     count_rx_alloc_failed = 0,
     count_rx_clean_total = 0,
     count_tx_xmit_failed = 0,
     count_tx_clean_total = 0\<rparr>"

record plane_blocks =
  pb_plane :: ixmap_plane
  pb_self :: addr
  pb_ports_self :: addr
  pb_irqs :: "((addr \<times> ixmap_irq_handle) \<times> (addr \<times> ixmap_irq_handle)) list"

definition ixmap_plane_alloc ::
    "ixmap_handle list \<Rightarrow> ixmap_buf \<Rightarrow> u32 \<Rightarrow> dev_req os \<Rightarrow> (plane_blocks option \<times> dev_req os) option" where
  "ixmap_plane_alloc ih_list buf core_id s =
     (let ports_size = sizeof_port * of_nat (length ih_list)
      in case os_numa sizeof_plane s of
        (None, s1) \<Rightarrow> Some (None, s1)
      | (Some plane, s1) \<Rightarrow>
          (case os_numa ports_size s1 of
             (None, s2) \<Rightarrow> do { s3 \<leftarrow> os_numa_free plane sizeof_plane s2; Some (None, s3) }
           | (Some prt, s2) \<Rightarrow> do {
               (ok, irqs, s3) \<leftarrow> acquire_all (port_irqs_open core_id) ih_list s2;
               (if ok then
                  Some (Some \<lparr>pb_plane = \<lparr>ports = map (\<lambda>i. port_init buf core_id i (ih_list ! i) (irqs ! i)) [0..<length ih_list], mmio = []\<rparr>,
                              pb_self = plane, pb_ports_self = prt, pb_irqs = irqs\<rparr>, s3)
                else do {
                  s4 \<leftarrow> for_each port_irqs_close irqs s3;
                  s5 \<leftarrow> os_numa_free prt ports_size s4;
                  s6 \<leftarrow> os_numa_free plane sizeof_plane s5;
                  Some (None, s6) }) }))"

definition ixmap_plane_release :: "plane_blocks \<Rightarrow> nat \<Rightarrow> dev_req os \<Rightarrow> dev_req os option" where
  "ixmap_plane_release plane ih_num s = do {
     s1 \<leftarrow> for_each port_irqs_close (take ih_num (pb_irqs plane)) s;
     s2 \<leftarrow> os_numa_free (pb_ports_self plane) (sizeof_port * of_nat ih_num) s1;
     os_numa_free (pb_self plane) sizeof_plane s2 }"

section \<open>The descriptor memory of a thread\<close>

definition size_rx_desc :: "ixmap_handle \<Rightarrow> nat" where
  "size_rx_desc ih = align_up 128 (16 * unat (ih_num_rx_desc ih))"

definition size_tx_desc :: "ixmap_handle \<Rightarrow> nat" where
  "size_tx_desc ih = align_up 128 (16 * unat (ih_num_tx_desc ih))"

text \<open>
  The value of \<open>addr_virt\<close> when each port is reached: the loop adds \<open>size_rx_desc\<close> after the receive
  ring and \<open>size_rx_desc\<close> again after the transmit ring.
\<close>

fun desc_places :: "addr \<Rightarrow> ixmap_handle list \<Rightarrow> (ixmap_handle \<times> addr) list" where
  "desc_places a [] = []"
| "desc_places a (ih # ihs) = (ih, a) # desc_places (a + size_rx_desc ih + size_rx_desc ih) ihs"

definition desc_end :: "addr \<Rightarrow> ixmap_handle list \<Rightarrow> addr" where
  "desc_end a ihs = foldl (\<lambda>a ih. a + size_rx_desc ih + size_rx_desc ih) a ihs"

text \<open>The handle with its two rings, and the blocks of their slot indices.\<close>

record port_rings =
  pr_ih :: ixmap_handle
  pr_rx_slots :: addr
  pr_tx_slots :: addr

definition ring_init :: "addr \<Rightarrow> u64 \<Rightarrow> u32 \<Rightarrow> ixmap_ring \<Rightarrow> ixmap_ring" where
  "ring_init a d n ring = ring\<lparr>ring_virt := a, ring_dma := d, next_to_use := 0, next_to_clean := 0,
     slot_index := replicate (unat n) 0, descs := replicate (unat n) \<lparr>desc_lo = 0, desc_hi = 0\<rparr>\<rparr>"

definition slots_size :: "u32 \<Rightarrow> u64" where
  "slots_size n = 4 * ucast n"

definition desc_port :: "u32 \<Rightarrow> ixmap_handle \<times> addr \<Rightarrow> dev_req os \<Rightarrow> (port_rings option \<times> dev_req os) option" where
  "desc_port core_id x s =
     (case x of (ih, a) \<Rightarrow>
      if unat core_id \<ge> length (ih_rx_ring ih) \<or> unat core_id \<ge> length (ih_tx_ring ih) then None
      else (case ixmap_dma_map ih a (of_nat (size_rx_desc ih)) s of
         (None, s1) \<Rightarrow> Some (None, s1)
       | (Some rx_dma, s1) \<Rightarrow>
           (case os_numa (slots_size (ih_num_rx_desc ih)) s1 of
              (None, s2) \<Rightarrow> Some (None, snd (ixmap_dma_unmap ih rx_dma s2))
            | (Some rx_slots, s2) \<Rightarrow>
                (case ixmap_dma_map ih (a + size_rx_desc ih) (of_nat (size_tx_desc ih)) s2 of
                   (None, s3) \<Rightarrow> do {
                     s4 \<leftarrow> os_numa_free rx_slots (slots_size (ih_num_rx_desc ih)) s3;
                     Some (None, snd (ixmap_dma_unmap ih rx_dma s4)) }
                 | (Some tx_dma, s3) \<Rightarrow>
                     (case os_numa (slots_size (ih_num_tx_desc ih)) s3 of
                        (None, s4) \<Rightarrow> do {
                          let s5 = snd (ixmap_dma_unmap ih tx_dma s4);
                          s6 \<leftarrow> os_numa_free rx_slots (slots_size (ih_num_rx_desc ih)) s5;
                          Some (None, snd (ixmap_dma_unmap ih rx_dma s6)) }
                      | (Some tx_slots, s4) \<Rightarrow>
                          let c = unat core_id;
                              rx = ring_init a rx_dma (ih_num_rx_desc ih) (ih_rx_ring ih ! c);
                              tx = ring_init (a + size_rx_desc ih) tx_dma (ih_num_tx_desc ih) (ih_tx_ring ih ! c)
                          in Some (Some \<lparr>pr_ih = ih\<lparr>ih_rx_ring := (ih_rx_ring ih)[c := rx], ih_tx_ring := (ih_tx_ring ih)[c := tx]\<rparr>,
                                         pr_rx_slots = rx_slots, pr_tx_slots = tx_slots\<rparr>, s4))))))"

definition desc_port_release :: "u32 \<Rightarrow> port_rings \<Rightarrow> dev_req os \<Rightarrow> dev_req os option" where
  "desc_port_release core_id p s = do {
     let ih = pr_ih p;
     s1 \<leftarrow> os_numa_free (pr_tx_slots p) (slots_size (ih_num_tx_desc ih)) s;
     let s2 = snd (ixmap_dma_unmap ih (ring_dma (ih_tx_ring ih ! unat core_id)) s1);
     s3 \<leftarrow> os_numa_free (pr_rx_slots p) (slots_size (ih_num_rx_desc ih)) s2;
     Some (snd (ixmap_dma_unmap ih (ring_dma (ih_rx_ring ih ! unat core_id)) s3)) }"

definition ixmap_desc_alloc ::
    "u64 \<Rightarrow> ixmap_handle list \<Rightarrow> u32 \<Rightarrow> dev_req os \<Rightarrow> ((ixmap_desc \<times> port_rings list) option \<times> dev_req os) option" where
  "ixmap_desc_alloc hp ih_list core_id s =
     (case os_numa sizeof_desc s of
        (None, s1) \<Rightarrow> Some (None, s1)
      | (Some desc, s1) \<Rightarrow>
          (case os_mmap_len SIZE_1GB s1 of
             (None, s2) \<Rightarrow> do { s3 \<leftarrow> os_numa_free desc sizeof_desc s2; Some (None, s3) }
           | (Some virt, s2) \<Rightarrow> do {
               (ok, ps, s3) \<leftarrow> acquire_all (desc_port core_id) (desc_places virt ih_list) s2;
               let addr_mem = align_up L1_CACHE_BYTES (desc_end virt ih_list);
               let (node, s4) = (if ok then os_numa sizeof_mnode s3 else (None, s3));
               (case node of
                  Some nd \<Rightarrow>
                    Some (Some (\<lparr>ds_self = desc, ds_virt = virt, ds_node = nd, ds_mem = addr_mem,
                                 ds_mem_size = ucast (SIZE_1GB - of_nat (addr_mem - virt)), ds_core = core_id\<rparr>, ps), s4)
                | None \<Rightarrow> do {
                    s5 \<leftarrow> for_each (desc_port_release core_id) ps s4;
                    s6 \<leftarrow> os_munmap_huge hp virt SIZE_1GB s5;
                    s7 \<leftarrow> os_numa_free desc sizeof_desc s6;
                    Some (None, s7) }) }))"

text \<open>\<open>ixmap_mem_destroy\<close> frees the nodes that are left of the tree, given by their addresses.\<close>

definition ixmap_desc_release ::
    "u64 \<Rightarrow> port_rings list \<Rightarrow> u32 \<Rightarrow> ixmap_desc \<Rightarrow> addr list \<Rightarrow> dev_req os \<Rightarrow> dev_req os option" where
  "ixmap_desc_release hp ps core_id desc nodes s = do {
     s1 \<leftarrow> for_each (\<lambda>nd. os_numa_free nd sizeof_mnode) nodes s;
     s2 \<leftarrow> for_each (desc_port_release core_id) ps s1;
     s3 \<leftarrow> os_munmap_huge hp (ds_virt desc) SIZE_1GB s2;
     os_numa_free (ds_self desc) sizeof_desc s3 }"

section \<open>The packet buffer of a thread\<close>

record buf_blocks =
  bb_buf :: ixmap_buf
  bb_self :: addr
  bb_dma_self :: addr
  bb_slots_self :: addr

definition buf_map_size :: "u32 \<Rightarrow> nat \<Rightarrow> u32 \<Rightarrow> u64" where
  "buf_map_size size_of_buf ih_num n_slots = ucast (size_of_buf * (of_nat ih_num * n_slots))"

definition buf_map :: "addr \<Rightarrow> u64 \<Rightarrow> ixmap_handle \<Rightarrow> dev_req os \<Rightarrow> ((ixmap_handle \<times> u64) option \<times> dev_req os) option" where
  "buf_map virt n ih s =
     (case ixmap_dma_map ih virt n s of
        (None, s1) \<Rightarrow> Some (None, s1)
      | (Some d, s1) \<Rightarrow> Some (Some (ih, d), s1))"

definition buf_unmap :: "ixmap_handle \<times> u64 \<Rightarrow> dev_req os \<Rightarrow> dev_req os option" where
  "buf_unmap m s = Some (snd (ixmap_dma_unmap (fst m) (snd m) s))"

definition ixmap_buf_alloc ::
    "u64 \<Rightarrow> ixmap_handle list \<Rightarrow> u32 \<Rightarrow> u32 \<Rightarrow> dev_req os \<Rightarrow> (buf_blocks option \<times> dev_req os) option" where
  "ixmap_buf_alloc hp ih_list n_slots size_of_buf s =
     (let ih_num = length ih_list;
          dma_size = 8 * of_nat ih_num;
          n = buf_map_size size_of_buf ih_num n_slots
      in case os_numa sizeof_buf s of
        (None, s1) \<Rightarrow> Some (None, s1)
      | (Some buf, s1) \<Rightarrow>
          (case os_numa dma_size s1 of
             (None, s2) \<Rightarrow> do { s3 \<leftarrow> os_numa_free buf sizeof_buf s2; Some (None, s3) }
           | (Some addr_dma, s2) \<Rightarrow>
               (case os_mmap_len n s2 of
                  (None, s3) \<Rightarrow> do {
                    s4 \<leftarrow> os_numa_free addr_dma dma_size s3;
                    s5 \<leftarrow> os_numa_free buf sizeof_buf s4;
                    Some (None, s5) }
                | (Some virt, s3) \<Rightarrow> do {
                    (ok, maps, s4) \<leftarrow> acquire_all (buf_map virt n) ih_list s3;
                    let (slts, s5) = (if ok then os_numa (slots_size (n_slots * of_nat ih_num)) s4 else (None, s4));
                    (case slts of
                       Some sl \<Rightarrow>
                         Some (Some \<lparr>bb_buf = \<lparr>buf_virt = virt, buf_dma = map snd maps, buf_size = size_of_buf, buf_count = n_slots,
                                               slots = replicate (unat (n_slots * of_nat ih_num)) 0\<rparr>,
                                     bb_self = buf, bb_dma_self = addr_dma, bb_slots_self = sl\<rparr>, s5)
                     | None \<Rightarrow> do {
                         s6 \<leftarrow> for_each buf_unmap maps s5;
                         s7 \<leftarrow> os_munmap_huge hp virt n s6;
                         s8 \<leftarrow> os_numa_free addr_dma dma_size s7;
                         s9 \<leftarrow> os_numa_free buf sizeof_buf s8;
                         Some (None, s9) }) })))"

definition ixmap_buf_release :: "u64 \<Rightarrow> buf_blocks \<Rightarrow> ixmap_handle list \<Rightarrow> dev_req os \<Rightarrow> dev_req os option" where
  "ixmap_buf_release hp b ih_list s = do {
     let ih_num = length ih_list;
     let buf = bb_buf b;
     s1 \<leftarrow> os_numa_free (bb_slots_self b) (slots_size (buf_count buf * of_nat ih_num)) s;
     s2 \<leftarrow> for_each buf_unmap (zip ih_list (buf_dma buf)) s1;
     s3 \<leftarrow> os_munmap_huge hp (buf_virt buf) (buf_map_size (buf_size buf) ih_num (buf_count buf)) s2;
     s4 \<leftarrow> os_numa_free (bb_dma_self b) (8 * of_nat ih_num) s3;
     os_numa_free (bb_self b) sizeof_buf s4 }"

section \<open>Opening a card\<close>

text \<open>The structure that \<open>IXMAP_INFO\<close> fills in, as far as it is used.\<close>

record info_req =
  mmio_size :: u64
  info_mac :: "u8 list"
  max_interrupt_rate :: u16
  max_rx_queues :: u32
  max_tx_queues :: u32

fun os_bytes :: "nat \<Rightarrow> 'r os \<Rightarrow> u8 list \<times> 'r os" where
  "os_bytes 0 s = ([], s)"
| "os_bytes (Suc n) s = (case os_out s of (b, s1) \<Rightarrow> case os_bytes n s1 of (bs, s2) \<Rightarrow> (b # bs, s2))"

definition ixmap_info :: "int \<Rightarrow> dev_req os \<Rightarrow> info_req option \<times> dev_req os" where
  "ixmap_info fd s =
     (case os_ioctl (IXMAP_INFO fd) s of
        (r, s1) \<Rightarrow>
          if r < 0 then (None, s1)
          else case os_out s1 of (n, s2) \<Rightarrow>
            case os_bytes 6 s2 of (mc, s3) \<Rightarrow>
            case os_out s3 of (rate, s4) \<Rightarrow>
            case os_out s4 of (rxq, s5) \<Rightarrow>
            case os_out s5 of (txq, s6) \<Rightarrow>
              (Some \<lparr>mmio_size = n, info_mac = mc, max_interrupt_rate = rate, max_rx_queues = rxq, max_tx_queues = txq\<rparr>, s6))"

definition ixmap_open ::
    "u32 \<Rightarrow> u32 \<Rightarrow> u16 \<Rightarrow> u32 \<Rightarrow> u32 \<Rightarrow> u32 \<Rightarrow> u32 \<Rightarrow> u32 \<Rightarrow> u32 \<Rightarrow> ixmap_ring list \<Rightarrow> ixmap_ring list \<Rightarrow> dev_req os \<Rightarrow>
     (ixmap_handle option \<times> dev_req os) option" where
  "ixmap_open pi num_queues_req intr_rate rx_bud tx_bud mtu prom n_rx n_tx junk_rx junk_tx s =
     (case os_malloc s of
        (None, s1) \<Rightarrow> Some (None, s1)
      | (Some ih, s1) \<Rightarrow>
          (case os_fd s1 of
             (fd, s2) \<Rightarrow>
               if fd < 0 then do { s3 \<leftarrow> os_free ih s2; Some (None, s3) }
               else case ixmap_info fd s2 of
                 (None, s3) \<Rightarrow> do { s4 \<leftarrow> os_close fd s3; s5 \<leftarrow> os_free ih s4; Some (None, s5) }
               | (Some info, s3) \<Rightarrow>
                   let rate = min intr_rate (max_interrupt_rate info);
                       nq = min num_queues_req (min (max_rx_queues info) (max_tx_queues info))
                   in case os_ioctl (IXMAP_UP fd rate nq nq) s3 of
                     (r, s4) \<Rightarrow>
                       if r < 0 then do { s5 \<leftarrow> os_close fd s4; s6 \<leftarrow> os_free ih s5; Some (None, s6) }
                       else case os_mmap_len (mmio_size info) s4 of
                         (None, s5) \<Rightarrow> do { s6 \<leftarrow> os_close fd s5; s7 \<leftarrow> os_free ih s6; Some (None, s7) }
                       | (Some br, s5) \<Rightarrow>
                           (case os_malloc s5 of
                              (None, s6) \<Rightarrow> do {
                                s7 \<leftarrow> os_munmap_len br 0 s6;
                                s8 \<leftarrow> os_close fd s7; s9 \<leftarrow> os_free ih s8; Some (None, s9) }
                            | (Some rxr, s6) \<Rightarrow>
                                (case os_malloc s6 of
                                   (None, s7) \<Rightarrow> do {
                                     s8 \<leftarrow> os_free rxr s7;
                                     s9 \<leftarrow> os_munmap_len br 0 s8;
                                     s10 \<leftarrow> os_close fd s9; s11 \<leftarrow> os_free ih s10; Some (None, s11) }
                                 | (Some txr, s7) \<Rightarrow>
                                     Some (Some \<lparr>ih_self = ih, ih_fd = fd, bar = br, bar_size = mmio_size info,
                                       rx_ring_self = rxr, tx_ring_self = txr,
                                       ih_rx_ring = take (unat nq) junk_rx, ih_tx_ring = take (unat nq) junk_tx,
                                       ih_num_tx_desc = n_tx, ih_num_rx_desc = n_rx, ih_rx_budget = rx_bud, ih_tx_budget = tx_bud,
                                       ih_num_queues = nq, num_interrupt_rate = rate, promisc = (if prom \<noteq> 0 then 1 else 0),
                                       ih_mtu_frame = mtu, ih_buf_size = 0, ih_mac_addr = info_mac info,
                                       ih_interface_name = snprintf IFNAMSIZ (IXMAP_IFNAME @ print_d (sint pi))\<rparr>, s7)))))"

definition ixmap_close :: "ixmap_handle \<Rightarrow> dev_req os \<Rightarrow> dev_req os option" where
  "ixmap_close ih s = do {
     s1 \<leftarrow> os_free (tx_ring_self ih) s;
     s2 \<leftarrow> os_free (rx_ring_self ih) s1;
     s3 \<leftarrow> os_munmap_len (bar ih) (bar_size ih) s2;
     s4 \<leftarrow> os_close (ih_fd ih) s3;
     os_free (ih_self ih) s4 }"

definition ixmap_bufsize_get :: "ixmap_handle \<Rightarrow> u32" where "ixmap_bufsize_get ih = ih_buf_size ih"
definition ixmap_macaddr_default :: "ixmap_handle \<Rightarrow> u8 list" where "ixmap_macaddr_default ih = ih_mac_addr ih"
definition ixmap_mtu_get :: "ixmap_handle \<Rightarrow> u32" where "ixmap_mtu_get ih = ih_mtu_frame ih"

section \<open>What is held and what is given back\<close>

lemmas os_ops = sys_def acquire_def release_def os_fd_def os_close_def os_malloc_def os_free_def os_numa_def os_numa_free_def
  os_mmap_def os_munmap_def os_mmap_len_def os_munmap_len_def os_munmap_huge_def os_ioctl_def os_out_def

definition irq_foot :: "addr \<times> ixmap_irq_handle \<Rightarrow> resource multiset" where
  "irq_foot irqh = {#Fd (irq_fd (snd irqh)), Numa (fst irqh) sizeof_irq_handle#}"

lemma setaffinity_res:
  "\<exists>ret s'. ixmap_irq_setaffinity v c s = Some (ret, s') \<and> res s' = res s"
  by (auto simp: ixmap_irq_setaffinity_def os_ops split: prod.splits)

lemma irq_open_res:
  "\<exists>r s'. ixmap_irq_open ih c ty s = Some (r, s') \<and> res s' = res s + (case r of None \<Rightarrow> {#} | Some h \<Rightarrow> irq_foot h)"
proof (cases rule: os_fd_cases [of s])
  case (ok efd s1)
  obtain ret s2 where i: "os_ioctl (IXMAP_IRQ (ih_fd ih) ty c efd) s1 = (ret, s2)" "res s2 = res s1" by (rule os_ioctl_cases)
  obtain v :: u32 and s3 where o: "os_out s2 = (v, s3)" "res s3 = res s2" by (cases "os_out s2 :: u32 \<times> _") (auto simp: os_ops)
  obtain ret2 s4 where a: "ixmap_irq_setaffinity v c s3 = Some (ret2, s4)" "res s4 = res s3" using setaffinity_res by blast
  show ?thesis using ok i o a by (auto simp: ixmap_irq_open_def irq_foot_def os_ops)
qed (auto simp: ixmap_irq_open_def)

lemma irq_close_res:
  "res s = M + irq_foot h \<Longrightarrow> \<exists>s'. ixmap_irq_close h s = Some s' \<and> res s' = M"
  by (auto simp: ixmap_irq_close_def irq_foot_def os_ops)

definition irqs_foot :: "(addr \<times> ixmap_irq_handle) \<times> (addr \<times> ixmap_irq_handle) \<Rightarrow> resource multiset" where
  "irqs_foot irqs = irq_foot (fst irqs) + irq_foot (snd irqs)"

interpretation port_irqs: resource_op "port_irqs_open core_id" port_irqs_close irqs_foot for core_id
proof
  fix ih s
  obtain rx s1 where 1: "ixmap_irq_open ih core_id IXMAP_IRQ_RX s = Some (rx, s1)"
      "res s1 = res s + (case rx of None \<Rightarrow> {#} | Some h \<Rightarrow> irq_foot h)"
    using irq_open_res by blast
  obtain tx s2 where 2: "ixmap_irq_open ih core_id IXMAP_IRQ_TX s1 = Some (tx, s2)"
      "res s2 = res s1 + (case tx of None \<Rightarrow> {#} | Some h \<Rightarrow> irq_foot h)"
    using irq_open_res by blast
  show "\<exists>r s'. port_irqs_open core_id ih s = Some (r, s') \<and> res s' = res s + (case r of None \<Rightarrow> {#} | Some h \<Rightarrow> irqs_foot h)"
  proof (cases rx)
    case (Some h)
    then have "tx = None \<Longrightarrow> res s2 = res s + irq_foot h" using 1 2 by simp
    from irq_close_res [OF this] show ?thesis
      using 1 2 Some by (cases tx) (auto simp: port_irqs_open_def irqs_foot_def ac_simps)
  qed (use 1 in \<open>simp add: port_irqs_open_def\<close>)
next
  fix s :: "dev_req os" and M irqs
  assume "res s = M + irqs_foot irqs"
  then have "res s = (M + irq_foot (snd irqs)) + irq_foot (fst irqs)" by (simp add: irqs_foot_def ac_simps)
  from irq_close_res [OF this] irq_close_res show "\<exists>s'. port_irqs_close irqs s = Some s' \<and> res s' = M"
    unfolding port_irqs_close_def by fastforce
qed

definition plane_foot :: "plane_blocks \<Rightarrow> resource multiset" where
  "plane_foot p = {#Numa (pb_self p) sizeof_plane, Numa (pb_ports_self p) (sizeof_port * of_nat (length (pb_irqs p)))#}
     + (\<Sum>h \<leftarrow> pb_irqs p. irqs_foot h)"

lemma plane_alloc_res:
  "\<exists>r s'. ixmap_plane_alloc ihs buf c s = Some (r, s') \<and> res s' = res s + (case r of None \<Rightarrow> {#} | Some p \<Rightarrow> plane_foot p) \<and>
     (\<forall>p. r = Some p \<longrightarrow> length (pb_irqs p) = length ihs \<and>
        ports (pb_plane p) = map (\<lambda>i. port_init buf c i (ihs ! i) (pb_irqs p ! i)) [0..<length ihs])"
proof (cases rule: os_numa_cases [of sizeof_plane s])
  case (ok plane s1)
  note 1 = ok
  let ?n = "sizeof_port * of_nat (length ihs)"
  show ?thesis
  proof (cases rule: os_numa_cases [of ?n s1])
    case (fail s2)
    then show ?thesis using 1 os_release_held(3) [of s2 plane sizeof_plane "res s"] by (auto simp: ixmap_plane_alloc_def)
  next
    case (ok prt s2)
    obtain g irqs s3 where a: "acquire_all (port_irqs_open c) ihs s2 = Some (g, irqs, s3)"
        "res s3 = res s2 + (\<Sum>h \<leftarrow> irqs. irqs_foot h)" "g \<longleftrightarrow> length irqs = length ihs"
      using port_irqs.acquire_all_law [of c ihs s2] by auto
    show ?thesis
    proof (cases g)
      case True
      then show ?thesis using 1 ok a by (simp add: ixmap_plane_alloc_def plane_foot_def)
    next
      case False
      from port_irqs.release_all_law [OF a(2)] obtain s4 where s4: "for_each port_irqs_close irqs s3 = Some s4" "res s4 = res s2" by blast
      then have "res s4 = add_mset (Numa prt ?n) (add_mset (Numa plane sizeof_plane) (res s))" using 1 ok by simp
      from os_release_held(3) [OF this] obtain s5 where s5: "os_numa_free prt ?n s4 = Some s5"
          "res s5 = add_mset (Numa plane sizeof_plane) (res s)" by blast
      from os_release_held(3) [OF this(2)] show ?thesis using 1 ok a s4 s5 False by (auto simp: ixmap_plane_alloc_def)
    qed
  qed
qed (auto simp: ixmap_plane_alloc_def)

lemma plane_release_res:
  assumes "res s = M + plane_foot p"
  shows "\<exists>s'. ixmap_plane_release p (length (pb_irqs p)) s = Some s' \<and> res s' = M"
proof -
  let ?n = "sizeof_port * of_nat (length (pb_irqs p))"
  have "res s = add_mset (Numa (pb_ports_self p) ?n) (add_mset (Numa (pb_self p) sizeof_plane) M) + (\<Sum>h \<leftarrow> pb_irqs p. irqs_foot h)"
    using assms by (simp add: plane_foot_def)
  from port_irqs.release_all_law [OF this] obtain s1 where s1: "for_each port_irqs_close (pb_irqs p) s = Some s1"
      "res s1 = add_mset (Numa (pb_ports_self p) ?n) (add_mset (Numa (pb_self p) sizeof_plane) M)" by blast
  from os_release_held(3) [OF s1(2)] obtain s2 where s2: "os_numa_free (pb_ports_self p) ?n s1 = Some s2"
      "res s2 = add_mset (Numa (pb_self p) sizeof_plane) M" by blast
  from os_release_held(3) [OF this(2)] show ?thesis using s1 s2 by (simp add: ixmap_plane_release_def)
qed

section \<open>The descriptor memory\<close>

definition rings_foot :: "u32 \<Rightarrow> port_rings \<Rightarrow> resource multiset" where
  "rings_foot c p = (let ih = pr_ih p in
     {#Dma (ih_fd ih) (ring_dma (ih_rx_ring ih ! unat c)), Numa (pr_rx_slots p) (slots_size (ih_num_rx_desc ih)),
       Dma (ih_fd ih) (ring_dma (ih_tx_ring ih ! unat c)), Numa (pr_tx_slots p) (slots_size (ih_num_tx_desc ih))#})"

lemma dma_map_cases:
  obtains (fail) s1 where "ixmap_dma_map ih a n s = (None, s1)" "res s1 = res s"
  | (ok) d s1 where "ixmap_dma_map ih a n s = (Some d, s1)" "res s1 = add_mset (Dma (ih_fd ih) d) (res s)"
  by (cases "ixmap_dma_map ih a n s") (auto simp: ixmap_dma_map_def os_ops split: if_splits)

lemma dma_unmap_res: "res s = add_mset (Dma (ih_fd ih) d) M \<Longrightarrow> res (snd (ixmap_dma_unmap ih d s)) = M"
  by (simp add: ixmap_dma_unmap_def)

text \<open>The core has a ring in every handle.\<close>

definition has_core :: "u32 \<Rightarrow> ixmap_handle \<Rightarrow> bool" where
  "has_core c ih \<longleftrightarrow> unat c < length (ih_rx_ring ih) \<and> unat c < length (ih_tx_ring ih)"

lemma desc_port_ok:
  assumes "has_core c ih"
  obtains (fail) s' where "desc_port c (ih, a) s = Some (None, s')" "res s' = res s"
  | (ok) p s' where "desc_port c (ih, a) s = Some (Some p, s')" "res s' = res s + rings_foot c p"
      "ring_virt (ih_rx_ring (pr_ih p) ! unat c) = a" "ring_virt (ih_tx_ring (pr_ih p) ! unat c) = a + size_rx_desc ih"
      "ih_num_rx_desc (pr_ih p) = ih_num_rx_desc ih" "ih_num_tx_desc (pr_ih p) = ih_num_tx_desc ih"
proof (cases rule: dma_map_cases [of ih a "of_nat (size_rx_desc ih)" s])
  case 1: (ok d s1)
  note h = assms [unfolded has_core_def]
  show ?thesis
  proof (cases rule: os_numa_cases [of "slots_size (ih_num_rx_desc ih)" s1])
    case (fail s2)
    then show ?thesis using 1 h dma_unmap_res [of s2 ih d "res s"] that(1) by (simp add: desc_port_def)
  next
    case 2: (ok x s2)
    show ?thesis
    proof (cases rule: dma_map_cases [of ih "a + size_rx_desc ih" "of_nat (size_tx_desc ih)" s2])
      case (fail s3)
      then have "res s3 = add_mset (Numa x (slots_size (ih_num_rx_desc ih))) (add_mset (Dma (ih_fd ih) d) (res s))" using 1 2 by simp
      from os_release_held(3) [OF this] show ?thesis
        using fail 1 2 h dma_unmap_res that(1) by (auto simp: desc_port_def)
    next
      case 3: (ok e s3)
      show ?thesis
      proof (cases rule: os_numa_cases [of "slots_size (ih_num_tx_desc ih)" s3])
        case (fail s4)
        let ?s5 = "snd (ixmap_dma_unmap ih e s4)"
        have "res s4 = add_mset (Dma (ih_fd ih) e) (add_mset (Numa x (slots_size (ih_num_rx_desc ih))) (add_mset (Dma (ih_fd ih) d) (res s)))"
          using fail 1 2 3 by simp
        from os_release_held(3) [OF dma_unmap_res [OF this]] show ?thesis
          using fail 1 2 3 h dma_unmap_res that(1) by (auto simp: desc_port_def)
      next
        case (ok y s4)
        let ?rx = "ring_init a d (ih_num_rx_desc ih) (ih_rx_ring ih ! unat c)"
        let ?tx = "ring_init (a + size_rx_desc ih) e (ih_num_tx_desc ih) (ih_tx_ring ih ! unat c)"
        let ?p = "\<lparr>pr_ih = ih\<lparr>ih_rx_ring := (ih_rx_ring ih)[unat c := ?rx], ih_tx_ring := (ih_tx_ring ih)[unat c := ?tx]\<rparr>,
           pr_rx_slots = x, pr_tx_slots = y\<rparr>"
        have "desc_port c (ih, a) s = Some (Some ?p, s4)" using ok 1 2 3 h by (simp add: desc_port_def Let_def not_le)
        then show ?thesis by (rule that(2)) (use ok 1 2 3 h in \<open>simp_all add: rings_foot_def ring_init_def Let_def\<close>)
      qed
    qed
  qed
next
  case (fail s1)
  then show ?thesis using assms that(1) by (simp add: desc_port_def has_core_def)
qed

interpretation desc_ports: resource_op_on "\<lambda>x. has_core c (fst x)" "desc_port c" "desc_port_release c" "rings_foot c" for c
proof
  fix x :: "ixmap_handle \<times> addr" and s :: "dev_req os"
  assume "has_core c (fst x)"
  then show "\<exists>r s'. desc_port c x s = Some (r, s') \<and> res s' = res s + (case r of None \<Rightarrow> {#} | Some h \<Rightarrow> rings_foot c h)"
    by (cases rule: desc_port_ok [where a = "snd x" and s = s]) auto
next
  fix s :: "dev_req os" and M and p :: port_rings
  let ?ih = "pr_ih p"
  let ?rx = "Dma (ih_fd ?ih) (ring_dma (ih_rx_ring ?ih ! unat c))" and ?tx = "Dma (ih_fd ?ih) (ring_dma (ih_tx_ring ?ih ! unat c))"
  let ?x = "Numa (pr_rx_slots p) (slots_size (ih_num_rx_desc ?ih))" and ?y = "Numa (pr_tx_slots p) (slots_size (ih_num_tx_desc ?ih))"
  assume "res s = M + rings_foot c p"
  then have "res s = add_mset ?y (add_mset ?tx (add_mset ?x (add_mset ?rx M)))" by (simp add: rings_foot_def Let_def)
  from os_release_held(3) [OF this] obtain s1 where s1: "os_numa_free (pr_tx_slots p) (slots_size (ih_num_tx_desc ?ih)) s = Some s1"
      "res s1 = add_mset ?tx (add_mset ?x (add_mset ?rx M))" by blast
  note s2 = dma_unmap_res [OF this(2)]
  from os_release_held(3) [OF this] dma_unmap_res show "\<exists>s'. desc_port_release c p s = Some s' \<and> res s' = M"
    using s1 by (auto simp: desc_port_release_def Let_def)
qed

lemma acquire_all_each:
  "acquire_all f ks s = Some (True, hs, s') \<Longrightarrow> list_all2 (\<lambda>k h. \<exists>s s'. f k s = Some (Some h, s')) ks hs"
proof (induction ks arbitrary: s hs)
  case (Cons k ks)
  then show ?case by (auto split: bind_splits option.splits) blast
qed simp

text \<open>Regions that follow one another without overlap, from \<open>a\<close> to \<open>e\<close>.\<close>

fun laid_out :: "addr \<Rightarrow> (addr \<times> nat) list \<Rightarrow> addr \<Rightarrow> bool" where
  "laid_out a [] e \<longleftrightarrow> a \<le> e"
| "laid_out a (r # rs) e \<longleftrightarrow> a \<le> fst r \<and> laid_out (fst r + snd r) rs e"

lemma laid_out_bounds:
  "laid_out a rs e \<Longrightarrow> i < length rs \<Longrightarrow> a \<le> fst (rs ! i) \<and> fst (rs ! i) + snd (rs ! i) \<le> e"
proof (induction rs arbitrary: a i)
  case (Cons r rs)
  have "laid_out b rs e \<Longrightarrow> b \<le> e" for b by (induction rs arbitrary: b) fastforce+
  then show ?case using Cons by (cases i) (auto dest: Cons.IH)
qed simp

lemma laid_out_disjoint:
  "laid_out a rs e \<Longrightarrow> i < j \<Longrightarrow> j < length rs \<Longrightarrow> fst (rs ! i) + snd (rs ! i) \<le> fst (rs ! j)"
proof (induction rs arbitrary: a i j)
  case (Cons r rs)
  then show ?case using laid_out_bounds [of "fst r + snd r" rs e] by (cases i; cases j) auto
qed simp

text \<open>The receive and the transmit ring of every port.\<close>

definition ring_regions :: "u32 \<Rightarrow> port_rings list \<Rightarrow> (addr \<times> nat) list" where
  "ring_regions c ps = concat (map (\<lambda>p. let ih = pr_ih p in
     [(ring_virt (ih_rx_ring ih ! unat c), 16 * unat (ih_num_rx_desc ih)),
      (ring_virt (ih_tx_ring ih ! unat c), 16 * unat (ih_num_tx_desc ih))]) ps)"

lemma align_up_props: "0 < n \<Longrightarrow> x \<le> align_up n x" "n dvd align_up n x" "0 < n \<Longrightarrow> x \<le> y \<Longrightarrow> align_up n x \<le> align_up n y"
proof -
  show "n dvd align_up n x" by (simp add: align_up_def)
  show "x \<le> align_up n x" if "0 < n"
  proof -
    have "(x + n - 1) mod n < n" using that by simp
    moreover have "(x + n - 1) div n * n + (x + n - 1) mod n = x + n - 1" by (rule div_mult_mod_eq)
    ultimately show ?thesis unfolding align_up_def by linarith
  qed
  show "align_up n x \<le> align_up n y" if "0 < n" "x \<le> y" using that by (simp add: align_up_def div_le_mono)
qed

lemma desc_layout:
  assumes "list_all2 (\<lambda>k h. \<exists>s s'. desc_port c k s = Some (Some h, s')) (desc_places a ihs) ps"
    "list_all (\<lambda>ih. has_core c ih \<and> ih_num_tx_desc ih \<le> ih_num_rx_desc ih) ihs"
  shows "laid_out a (ring_regions c ps) (desc_end a ihs)"
  using assms
proof (induction ihs arbitrary: a ps)
  case (Cons ih ihs)
  let ?m = "16 * unat (ih_num_rx_desc ih)" and ?n = "16 * unat (ih_num_tx_desc ih)"
  obtain p ps' s s' where p: "ps = p # ps'" "desc_port c (ih, a) s = Some (Some p, s')"
      "list_all2 (\<lambda>k h. \<exists>s s'. desc_port c k s = Some (Some h, s')) (desc_places (a + size_rx_desc ih + size_rx_desc ih) ihs) ps'"
    using Cons.prems(1) by (auto simp: list_all2_Cons1)
  have h: "has_core c ih" "ih_num_tx_desc ih \<le> ih_num_rx_desc ih" using Cons.prems(2) by simp_all
  have r: "ring_virt (ih_rx_ring (pr_ih p) ! unat c) = a" "ring_virt (ih_tx_ring (pr_ih p) ! unat c) = a + size_rx_desc ih"
      "ih_num_rx_desc (pr_ih p) = ih_num_rx_desc ih" "ih_num_tx_desc (pr_ih p) = ih_num_tx_desc ih"
    using p(2) by (cases rule: desc_port_ok [OF h(1), of a s]; simp)+
  have le: "?m \<le> size_rx_desc ih" "?n \<le> size_rx_desc ih"
    using align_up_props(1) [of 128 ?m] h(2) by (simp_all add: size_rx_desc_def word_le_nat_alt)
  have mono: "laid_out b rs e \<Longrightarrow> b' \<le> b \<Longrightarrow> laid_out b' rs e" for b b' rs e by (cases rs) auto
  have "laid_out (a + size_rx_desc ih + size_rx_desc ih) (ring_regions c ps') (desc_end a (ih # ihs))"
    using Cons.IH [OF p(3)] Cons.prems(2) by (simp add: desc_end_def)
  from mono [OF this, of "a + size_rx_desc ih + ?n"] show ?case
    using r le by (simp add: p(1) ring_regions_def Let_def)
qed (simp add: ring_regions_def desc_end_def)

text \<open>A transmit ring that is larger than the receive ring reaches into the next port's receive ring.\<close>

lemma desc_places_overlap:
  assumes "size_rx_desc ih < size_tx_desc ih"
  shows "snd (desc_places a (ih # ih' # ihs) ! 1) < a + size_rx_desc ih + size_tx_desc ih"
  using assms by simp

definition desc_foot :: "u32 \<Rightarrow> ixmap_desc \<Rightarrow> port_rings list \<Rightarrow> resource multiset" where
  "desc_foot c d ps = {#Numa (ds_self d) sizeof_desc, Mmap (ds_virt d) SIZE_1GB, Numa (ds_node d) sizeof_mnode#}
     + (\<Sum>p \<leftarrow> ps. rings_foot c p)"

lemma desc_places_valid: "list_all (has_core c) ihs \<Longrightarrow> list_all (\<lambda>x. has_core c (fst x)) (desc_places a ihs)"
  by (induction ihs arbitrary: a) simp_all

lemma SIZE_1GB_nz: "SIZE_1GB \<noteq> 0" by (simp add: SIZE_1GB_def push_bit_eq_mult)

text \<open>What stays mapped after \<open>munmap\<close> of an area of huge pages.\<close>

definition huge_left :: "u64 \<Rightarrow> addr \<Rightarrow> u64 \<Rightarrow> resource multiset" where
  "huge_left hp a n = (if n mod hp = 0 then {#} else {#Mmap a n#})"

lemma munmap_huge_held:
  assumes "res s = add_mset (Mmap a n) M" "n \<noteq> 0"
  shows "\<exists>s1. os_munmap_huge hp a n s = Some s1 \<and> res s1 = M + huge_left hp a n"
  using os_release_held(4) [OF assms(1)] assms by (simp add: os_munmap_huge_def os_munmap_len_def huge_left_def)

lemma desc_alloc_res:
  assumes "list_all (has_core c) ihs"
  obtains (fail) s' where "ixmap_desc_alloc hp ihs c s = Some (None, s')" "SIZE_1GB mod hp = 0 \<longrightarrow> res s' = res s"
  | (ok) d ps s' where "ixmap_desc_alloc hp ihs c s = Some (Some (d, ps), s')" "res s' = res s + desc_foot c d ps"
      "list_all2 (\<lambda>k h. \<exists>s s'. desc_port c k s = Some (Some h, s')) (desc_places (ds_virt d) ihs) ps"
      "ds_mem d = align_up L1_CACHE_BYTES (desc_end (ds_virt d) ihs)"
      "ds_mem_size d = ucast (SIZE_1GB - of_nat (ds_mem d - ds_virt d))"
proof (cases rule: os_numa_cases [of sizeof_desc s])
  case (fail s1)
  then show ?thesis using that(1) by (simp add: ixmap_desc_alloc_def)
next
  case 1: (ok desc s1)
  show ?thesis
  proof (cases rule: os_mmap_cases [of SIZE_1GB s1])
    case (fail s2)
    then show ?thesis using 1 that(1) os_release_held(3) [of s2 desc sizeof_desc "res s"] SIZE_1GB_nz
      by (auto simp: ixmap_desc_alloc_def os_mmap_len_def)
  next
    case 2: (ok virt s2)
    obtain g ps s3 where a: "acquire_all (desc_port c) (desc_places virt ihs) s2 = Some (g, ps, s3)"
        "res s3 = res s2 + (\<Sum>p \<leftarrow> ps. rings_foot c p)"
      using desc_ports.acquire_all_valid [OF desc_places_valid [OF assms]] by blast
    obtain node s4 where n: "(if g then os_numa sizeof_mnode s3 else (None, s3)) = (node, s4)" by fastforce
    have s4: "res s4 = res s3 + (case node of None \<Rightarrow> {#} | Some nd \<Rightarrow> {#Numa nd sizeof_mnode#})"
      using n by (cases rule: os_numa_cases [of sizeof_mnode s3]) (auto split: if_splits)
    show ?thesis
    proof (cases node)
      case None
      have "res s4 = res s2 + (\<Sum>p \<leftarrow> ps. rings_foot c p)" using s4 a None by simp
      from desc_ports.release_all_law [OF this] obtain s5 where s5: "for_each (desc_port_release c) ps s4 = Some s5" "res s5 = res s2"
        by blast
      then have "res s5 = add_mset (Mmap virt SIZE_1GB) (add_mset (Numa desc sizeof_desc) (res s))" using 1 2 by simp
      from munmap_huge_held [OF this SIZE_1GB_nz] obtain s6 where s6: "os_munmap_huge hp virt SIZE_1GB s5 = Some s6"
          "res s6 = add_mset (Numa desc sizeof_desc) (res s + huge_left hp virt SIZE_1GB)" by auto
      from os_release_held(3) [OF this(2)] obtain s7 where "os_numa_free desc sizeof_desc s6 = Some s7" "res s7 = res s + huge_left hp virt SIZE_1GB"
        by blast
      then show ?thesis using that(1) 1 2 a n None s5 s6 SIZE_1GB_nz
        by (auto simp: ixmap_desc_alloc_def os_mmap_len_def huge_left_def)
    next
      case (Some nd)
      let ?m = "align_up L1_CACHE_BYTES (desc_end virt ihs)"
      let ?d = "\<lparr>ds_self = desc, ds_virt = virt, ds_node = nd, ds_mem = ?m,
         ds_mem_size = ucast (SIZE_1GB - of_nat (?m - virt)), ds_core = c\<rparr>"
      have g using n Some by (simp split: if_splits)
      then have l: "list_all2 (\<lambda>k h. \<exists>s s'. desc_port c k s = Some (Some h, s')) (desc_places virt ihs) ps"
        using a(1) acquire_all_each by simp
      have "ixmap_desc_alloc hp ihs c s = Some (Some (?d, ps), s4)"
        using 1 2 a n Some SIZE_1GB_nz by (simp add: ixmap_desc_alloc_def os_mmap_len_def Let_def)
      moreover have "res s4 = res s + desc_foot c ?d ps" using 1 2 a(2) s4 Some by (simp add: desc_foot_def)
      ultimately show ?thesis using l by (intro that(2) [of ?d ps s4]) simp_all
    qed
  qed
qed

lemma desc_release_res:
  assumes "res s = M + desc_foot c d ps" "SIZE_1GB mod hp = 0"
  shows "\<exists>s'. ixmap_desc_release hp ps c d [ds_node d] s = Some s' \<and> res s' = M"
proof -
  let ?M2 = "add_mset (Mmap (ds_virt d) SIZE_1GB) (add_mset (Numa (ds_self d) sizeof_desc) M)"
  have "res s = add_mset (Numa (ds_node d) sizeof_mnode) (?M2 + (\<Sum>p \<leftarrow> ps. rings_foot c p))"
    using assms(1) by (simp add: desc_foot_def ac_simps)
  from os_release_held(3) [OF this] obtain s1 where s1: "os_numa_free (ds_node d) sizeof_mnode s = Some s1"
      "res s1 = ?M2 + (\<Sum>p \<leftarrow> ps. rings_foot c p)" by blast
  from desc_ports.release_all_law [OF this(2)] obtain s2 where s2: "for_each (desc_port_release c) ps s1 = Some s2" "res s2 = ?M2" by blast
  from os_release_held(4) [OF this(2)] obtain s3 where s3: "os_munmap (ds_virt d) SIZE_1GB s2 = Some s3"
      "res s3 = add_mset (Numa (ds_self d) sizeof_desc) M" by blast
  from os_release_held(3) [OF this(2)] show ?thesis
    using s1 s2 s3 SIZE_1GB_nz assms(2) by (simp add: ixmap_desc_release_def os_munmap_huge_def os_munmap_len_def)
qed

lemma desc_end_sum: "desc_end a ihs = a + (\<Sum>ih \<leftarrow> ihs. 2 * size_rx_desc ih)"
  by (induction ihs arbitrary: a) (simp_all add: desc_end_def)

lemma align_up_less: "0 < n \<Longrightarrow> align_up n x < x + n"
proof -
  assume "0 < n"
  have "(x + n - 1) div n * n \<le> x + n - 1" by simp
  then show ?thesis using \<open>0 < n\<close> unfolding align_up_def by linarith
qed

lemma length_ring_regions: "length (ring_regions c ps) = 2 * length ps"
  by (induction ps) (simp_all add: ring_regions_def Let_def)

lemma length_desc_places: "length (desc_places a ihs) = length ihs"
  by (induction ihs arbitrary: a) simp_all

lemma mem_size_eq:
  assumes "k \<le> 2 ^ 30"
  shows "unat (ucast (SIZE_1GB - of_nat k) :: u32) = 2 ^ 30 - k"
proof -
  have g: "unat SIZE_1GB = 2 ^ 30" by (simp add: SIZE_1GB_def push_bit_eq_mult)
  have k: "unat (of_nat k :: u64) = k" using assms by (simp add: unat_of_nat)
  have "unat (SIZE_1GB - of_nat k) = 2 ^ 30 - k" using assms g k by (simp add: unat_sub word_le_nat_alt)
  then show ?thesis by (simp add: unat_ucast_mod)
qed

text \<open>Every ring of a descriptor area is inside it, below the pool, and after the rings before it.\<close>

definition rings_separate :: "u32 \<Rightarrow> ixmap_desc \<Rightarrow> port_rings list \<Rightarrow> bool" where
  "rings_separate c d ps \<longleftrightarrow> (let rs = ring_regions c ps in
     \<forall>i < length rs. ds_virt d \<le> fst (rs ! i) \<and> fst (rs ! i) + snd (rs ! i) \<le> ds_mem d \<and>
       (\<forall>j < i. fst (rs ! j) + snd (rs ! j) \<le> fst (rs ! i)))"

text \<open>
  C31.  \<open>ixmap_desc_alloc\<close> for cards whose transmit rings are not larger than their receive rings, whose rings
  together fit into 1 GB (twice the receive rings, which is what the code reserves), and on a system whose
  huge pages divide 1 GB, as those of 2 MB and of 1 GB do.  It returns for every behaviour of the system.
  When it fails it has given back everything.  When it succeeds, the descriptor rings of all ports and the
  pool of \<open>ixmap_mem_alloc\<close> are disjoint parts of the mapping, the pool ends where the mapping ends, and
  \<open>ixmap_desc_release\<close> gives back exactly what was acquired.\<close>
theorem ixmap_desc_alloc_correct:
  assumes "list_all (\<lambda>ih. has_core c ih \<and> ih_num_tx_desc ih \<le> ih_num_rx_desc ih) ihs"
    and "(\<Sum>ih \<leftarrow> ihs. 2 * size_rx_desc ih) + 64 \<le> 2 ^ 30" "SIZE_1GB mod hp = 0"
  shows "\<exists>r s'. ixmap_desc_alloc hp ihs c s = Some (r, s') \<and>
    (case r of
       None \<Rightarrow> res s' = res s
     | Some (d, ps) \<Rightarrow>
         length (ring_regions c ps) = 2 * length ihs \<and> rings_separate c d ps \<and>
         ds_mem d + unat (ds_mem_size d) = ds_virt d + 2 ^ 30 \<and>
         (\<exists>s''. ixmap_desc_release hp ps c d [ds_node d] s' = Some s'' \<and> res s'' = res s))"
proof -
  have "list_all (has_core c) ihs" using assms(1) by (simp add: list_all_iff)
  then show ?thesis
  proof (cases rule: desc_alloc_res [where s = s and hp = hp])
    case (ok d ps s')
    have l: "laid_out (ds_virt d) (ring_regions c ps) (desc_end (ds_virt d) ihs)" using desc_layout [OF ok(3) assms(1)] .
    have "desc_end (ds_virt d) ihs \<le> ds_mem d" "ds_mem d < desc_end (ds_virt d) ihs + 64"
      unfolding ok(4) L1_CACHE_BYTES_def by (simp_all add: align_up_props(1) align_up_less)
    then have m: "desc_end (ds_virt d) ihs \<le> ds_mem d" "ds_virt d \<le> ds_mem d" "ds_mem d \<le> ds_virt d + 2 ^ 30"
      using assms(2) desc_end_sum [of "ds_virt d" ihs] by linarith+
    have "unat (ds_mem_size d) = 2 ^ 30 - (ds_mem d - ds_virt d)" unfolding ok(5) by (rule mem_size_eq) (use m in linarith)
    then have "ds_mem d + unat (ds_mem_size d) = ds_virt d + 2 ^ 30" using m by linarith
    moreover have "length (ring_regions c ps) = 2 * length ihs"
      using list_all2_lengthD [OF ok(3)] by (simp add: length_ring_regions length_desc_places)
    moreover have "rings_separate c d ps"
      using laid_out_bounds [OF l] laid_out_disjoint [OF l] m(1) unfolding rings_separate_def Let_def by fastforce
    ultimately show ?thesis using ok(1) desc_release_res [OF ok(2) assms(3)] by simp
  qed (use assms(3) in auto)
qed

text \<open>Two cards with rings of 64 descriptors and a system that grants every request.\<close>

definition ex_ring :: ixmap_ring where
  "ex_ring = \<lparr>ring_virt = 0, ring_dma = 0, tail = 0, next_to_use = 0, next_to_clean = 0, slot_index = [], descs = []\<rparr>"

definition ex_ih :: ixmap_handle where
  "ex_ih = \<lparr>ih_self = 1, ih_fd = 3, bar = 0, bar_size = 4096, rx_ring_self = 2, tx_ring_self = 3, ih_rx_ring = [ex_ring], ih_tx_ring = [ex_ring],
     ih_num_tx_desc = 64, ih_num_rx_desc = 64, ih_rx_budget = 32, ih_tx_budget = 32, ih_num_queues = 1, num_interrupt_rate = 8,
     promisc = 0, ih_mtu_frame = 1518, ih_buf_size = 2048, ih_mac_addr = [2, 0, 0, 0, 0, 1], ih_interface_name = ''ixgbe0''\<rparr>"

definition ex_os :: "dev_req os" where
  "ex_os = \<lparr>res = {#}, ans = (\<lambda>n. 4096 * (int n + 1)), calls = 0, reqs = []\<rparr>"

lemma ex_handles:
  "list_all (\<lambda>ih. has_core 0 ih \<and> ih_num_tx_desc ih \<le> ih_num_rx_desc ih) [ex_ih, ex_ih]"
  "(\<Sum>ih \<leftarrow> [ex_ih, ex_ih]. 2 * size_rx_desc ih) + 64 \<le> 2 ^ 30"
  by (simp_all add: ex_ih_def has_core_def size_rx_desc_def align_up_def)

theorem ixmap_desc_alloc_correct_witness:
  "list_all (\<lambda>ih. has_core 0 ih \<and> ih_num_tx_desc ih \<le> ih_num_rx_desc ih) [ex_ih, ex_ih] \<and>
   (\<Sum>ih \<leftarrow> [ex_ih, ex_ih]. 2 * size_rx_desc ih) + 64 \<le> 2 ^ 30 \<and>
   (\<exists>d ps s'. ixmap_desc_alloc 0x200000 [ex_ih, ex_ih] 0 ex_os = Some (Some (d, ps), s') \<and> rings_separate 0 d ps)"
proof -
  have "map_option (\<lambda>x. fst x \<noteq> None) (ixmap_desc_alloc 0x200000 [ex_ih, ex_ih] 0 ex_os) = Some True"
    by (simp add: ixmap_desc_alloc_def desc_port_def ixmap_dma_map_def os_ops ex_os_def ex_ih_def SIZE_1GB_nz Let_def)
  then show ?thesis using ixmap_desc_alloc_correct [OF ex_handles, of "0x200000" ex_os] ex_handles by (auto simp: SIZE_1GB_def push_bit_eq_mult)
qed

end
