(* ===== verification/Device_Setup.thy ===== *)
theory Device_Setup
  imports Device
begin

text \<open>
  What the resources of \<open>src/lib/ixmap.c\<close> are good for: the packet buffer lies inside its mapping, a plane
  made from it starts in an initial state of the ownership system of the theory \<open>Slots\<close>, the masks of the
  interrupts, and what \<open>ixmap_open\<close> holds on each of its exits.
\<close>

section \<open>The packet buffer\<close>

interpretation buf_maps: resource_op "buf_map virt n" buf_unmap "\<lambda>m. {#Dma (ih_fd (fst m)) (snd m)#}" for virt n
proof
  fix ih and s :: "dev_req os"
  show "\<exists>r s'. buf_map virt n ih s = Some (r, s') \<and> res s' = res s + (case r of None \<Rightarrow> {#} | Some h \<Rightarrow> {#Dma (ih_fd (fst h)) (snd h)#})"
    by (cases rule: dma_map_cases [of ih virt n s]) (auto simp: buf_map_def)
next
  fix s :: "dev_req os" and M and m :: "ixmap_handle \<times> u64"
  assume "res s = M + {#Dma (ih_fd (fst m)) (snd m)#}"
  then show "\<exists>s'. buf_unmap m s = Some s' \<and> res s' = M" using dma_unmap_res [of s "fst m" "snd m" M] by (simp add: buf_unmap_def)
qed

definition buf_foot :: "ixmap_handle list \<Rightarrow> buf_blocks \<Rightarrow> resource multiset" where
  "buf_foot ihs b = (let buf = bb_buf b; n = length ihs in
     {#Numa (bb_slots_self b) (slots_size (buf_count buf * of_nat n)), Mmap (buf_virt buf) (buf_map_size (buf_size buf) n (buf_count buf)),
       Numa (bb_dma_self b) (8 * of_nat n), Numa (bb_self b) sizeof_buf#} + (\<Sum>m \<leftarrow> zip ihs (buf_dma buf). {#Dma (ih_fd (fst m)) (snd m)#}))"

lemma buf_release_res:
  assumes "res s = M + buf_foot ihs b" "buf_map_size (buf_size (bb_buf b)) (length ihs) (buf_count (bb_buf b)) \<noteq> 0"
  shows "\<exists>s'. ixmap_buf_release hp b ihs s = Some s' \<and>
    res s' = M + huge_left hp (buf_virt (bb_buf b)) (buf_map_size (buf_size (bb_buf b)) (length ihs) (buf_count (bb_buf b)))"
proof -
  let ?buf = "bb_buf b" and ?n = "length ihs"
  let ?ms = "buf_map_size (buf_size ?buf) ?n (buf_count ?buf)"
  let ?L = "huge_left hp (buf_virt ?buf) ?ms"
  let ?M2 = "add_mset (Mmap (buf_virt ?buf) ?ms) (add_mset (Numa (bb_dma_self b) (8 * of_nat ?n)) (add_mset (Numa (bb_self b) sizeof_buf) M))"
  have "res s = add_mset (Numa (bb_slots_self b) (slots_size (buf_count ?buf * of_nat ?n)))
      (?M2 + (\<Sum>m \<leftarrow> zip ihs (buf_dma ?buf). {#Dma (ih_fd (fst m)) (snd m)#}))"
    using assms(1) by (simp add: buf_foot_def Let_def)
  from os_release_held(3) [OF this] obtain s1 where s1: "os_numa_free (bb_slots_self b) (slots_size (buf_count ?buf * of_nat ?n)) s = Some s1"
      "res s1 = ?M2 + (\<Sum>m \<leftarrow> zip ihs (buf_dma ?buf). {#Dma (ih_fd (fst m)) (snd m)#})" by blast
  from buf_maps.release_all_law [OF s1(2)] obtain s2 where s2: "for_each buf_unmap (zip ihs (buf_dma ?buf)) s1 = Some s2" "res s2 = ?M2" by blast
  from munmap_huge_held [OF s2(2) assms(2)] obtain s3 where s3: "os_munmap_huge hp (buf_virt ?buf) ?ms s2 = Some s3"
      "res s3 = add_mset (Numa (bb_dma_self b) (8 * of_nat ?n)) (add_mset (Numa (bb_self b) sizeof_buf) (M + ?L))" by auto
  from os_release_held(3) [OF this(2)] obtain s4 where s4: "os_numa_free (bb_dma_self b) (8 * of_nat ?n) s3 = Some s4"
      "res s4 = add_mset (Numa (bb_self b) sizeof_buf) (M + ?L)" by blast
  from os_release_held(3) [OF this(2)] show ?thesis
    using s1 s2 s3 s4 by (simp add: ixmap_buf_release_def)
qed

lemma buf_map_fst: "buf_map virt n ih s = Some (Some m, s') \<Longrightarrow> m = (ih, snd m)"
  by (cases rule: dma_map_cases [of ih virt n s]) (auto simp: buf_map_def)

lemma buf_map_snd: "list_all2 (\<lambda>ih m. \<exists>s s'. buf_map virt n ih s = Some (Some m, s')) ihs ms \<Longrightarrow> ms = zip ihs (map snd ms)"
proof (induction rule: list_all2_induct)
  case (Cons ih ihs m ms)
  then have "m = (ih, snd m)" using buf_map_fst by blast
  then show ?case using Cons by simp
qed simp

lemma buf_alloc_res:
  obtains (fail) a s' where "ixmap_buf_alloc hp ihs k sz s = Some (None, s')"
      "res s' = res s \<or> res s' = res s + huge_left hp a (buf_map_size sz (length ihs) k)"
  | (ok) b s' where "ixmap_buf_alloc hp ihs k sz s = Some (Some b, s')" "res s' = res s + buf_foot ihs b"
      "buf_size (bb_buf b) = sz" "buf_count (bb_buf b) = k" "slots (bb_buf b) = replicate (unat (k * of_nat (length ihs))) 0"
      "length (buf_dma (bb_buf b)) = length ihs" "buf_map_size sz (length ihs) k \<noteq> 0"
proof (cases rule: os_numa_cases [of sizeof_buf s])
  case (fail s1)
  then show ?thesis using that(1) by (simp add: ixmap_buf_alloc_def)
next
  case 1: (ok buf s1)
  let ?n = "length ihs"
  let ?ds = "8 * of_nat ?n :: u64" and ?ms = "buf_map_size sz ?n k"
  show ?thesis
  proof (cases rule: os_numa_cases [of ?ds s1])
    case (fail s2)
    then show ?thesis using 1 that(1) os_release_held(3) [of s2 buf sizeof_buf "res s"] by (auto simp: ixmap_buf_alloc_def)
  next
    case 2: (ok da s2)
    have two: "\<exists>s4. os_numa_free da ?ds t = Some s4 \<and> (\<exists>s5. os_numa_free buf sizeof_buf s4 = Some s5 \<and> res s5 = res s + L)"
      if "res t = res s2 + L" for t L
    proof -
      have "res t = add_mset (Numa da ?ds) (add_mset (Numa buf sizeof_buf) (res s + L))" using that 1 2 by simp
      from os_release_held(3) [OF this] os_release_held(3) show ?thesis by blast
    qed
    show ?thesis
    proof (cases "fst (os_mmap_len ?ms s2)")
      case None
      obtain s3 where s3: "os_mmap_len ?ms s2 = (None, s3)" using None by (cases "os_mmap_len ?ms s2") simp
      then have "res s3 = res s2 + {#}" by (auto simp: os_ops split: if_splits)
      from two [OF this] show ?thesis using 1 2 s3 that(1) by (auto simp: ixmap_buf_alloc_def Let_def)
    next
      case (Some virt)
      obtain s3 where s3: "os_mmap_len ?ms s2 = (Some virt, s3)" using Some by (cases "os_mmap_len ?ms s2") simp
      then have r3: "res s3 = add_mset (Mmap virt ?ms) (res s2)" "?ms \<noteq> 0" by (auto simp: os_ops split: if_splits)
      obtain g ms s4 where a: "acquire_all (buf_map virt ?ms) ihs s3 = Some (g, ms, s4)"
          "res s4 = res s3 + (\<Sum>m \<leftarrow> ms. {#Dma (ih_fd (fst m)) (snd m)#})" "g \<longleftrightarrow> length ms = ?n"
        using buf_maps.acquire_all_law [of virt ?ms ihs s3] by auto
      obtain sl s5 where n: "(if g then os_numa (slots_size (k * of_nat ?n)) s4 else (None, s4)) = (sl, s5)" by fastforce
      have r5: "res s5 = res s4 + (case sl of None \<Rightarrow> {#} | Some x \<Rightarrow> {#Numa x (slots_size (k * of_nat ?n))#})"
        using n by (cases rule: os_numa_cases [of "slots_size (k * of_nat ?n)" s4]) (auto split: if_splits)
      show ?thesis
      proof (cases sl)
        case None
        have "res s5 = res s3 + (\<Sum>m \<leftarrow> ms. {#Dma (ih_fd (fst m)) (snd m)#})" using r5 a None by simp
        from buf_maps.release_all_law [OF this] obtain s6 where s6: "for_each buf_unmap ms s5 = Some s6" "res s6 = res s3" by blast
        with r3 have "res s6 = add_mset (Mmap virt ?ms) (res s2)" by simp
        from munmap_huge_held [OF this r3(2)] obtain s7 where s7: "os_munmap_huge hp virt ?ms s6 = Some s7" "res s7 = res s2 + huge_left hp virt ?ms"
          by blast
        from two [OF this(2)] obtain s8 s9 where "os_numa_free da ?ds s7 = Some s8" "os_numa_free buf sizeof_buf s8 = Some s9"
            "res s9 = res s + huge_left hp virt ?ms" by blast
        then show ?thesis using 1 2 s3 a(1) n None s6 s7(1) by (intro that(1) [of s9 virt]) (simp_all add: ixmap_buf_alloc_def Let_def)
      next
        case (Some x)
        have g using n Some by (simp split: if_splits)
        let ?b = "\<lparr>bb_buf = \<lparr>buf_virt = virt, buf_dma = map snd ms, buf_size = sz, buf_count = k, slots = replicate (unat (k * of_nat ?n)) 0\<rparr>,
          bb_self = buf, bb_dma_self = da, bb_slots_self = x\<rparr>"
        have z: "ms = zip ihs (map snd ms)" by (rule buf_map_snd [of virt ?ms]) (use a(1) \<open>g\<close> acquire_all_each in simp)
        have "ixmap_buf_alloc hp ihs k sz s = Some (Some ?b, s5)" using 1 2 s3 a(1) n Some by (simp add: ixmap_buf_alloc_def Let_def)
        moreover have "res s5 = res s + buf_foot ihs ?b"
          using 1 2 r3 a(2) r5 Some z [symmetric] by (simp add: buf_foot_def Let_def)
        ultimately show ?thesis using r3(2) a(3) \<open>g\<close> by (intro that(2) [of ?b s5]) simp_all
      qed
    qed
  qed
qed

lemma prod_no_wrap:
  fixes x :: u32
  assumes "unat x * n < 2 ^ 32"
  shows "x \<noteq> 0 \<Longrightarrow> unat (x * of_nat n) = unat x * n" "unat (of_nat n * x) = unat x * n"
proof -
  show g: "unat (of_nat n * x) = unat x * n"
  proof (cases "x = 0")
    case False
    then have "n \<le> unat x * n" by (simp add: unat_gt_0 Suc_le_eq)
    then have "n < 2 ^ 32" using assms by (rule le_less_trans)
    then have "unat (of_nat n :: u32) = n" by (simp add: unat_of_nat)
    then show ?thesis using assms by (simp add: unat_word_ariths mult.commute)
  qed simp
  show "unat (x * of_nat n) = unat x * n" using g by (simp add: mult.commute)
qed

text \<open>
  C32.  \<open>ixmap_buf_alloc\<close> for at most 65536 slots (the index of a slot is cut to 16 bits when its address is
  computed) of a total size below 4 GB.  It returns for every behaviour of the system.  When it succeeds, the
  buffer has the slots of all ports, all of them free, and slot \<open>i\<close> is the \<open>i\<close>-th piece of the mapping and
  ends inside it.  When it fails it has given back everything, and when it succeeds \<open>ixmap_buf_release\<close> gives
  back exactly what was acquired, in both cases with one exception: when the total size is no multiple of
  the size of a huge page, \<open>munmap\<close> refuses it and the area stays mapped.\<close>
theorem ixmap_buf_alloc_correct:
  assumes "unat sz * (unat k * length ihs) < 2 ^ 32" "0 < unat sz" "unat k * length ihs \<le> 65536"
  shows "\<exists>r s'. ixmap_buf_alloc hp ihs k sz s = Some (r, s') \<and>
    (case r of
       None \<Rightarrow> \<exists>a. res s' = res s \<or> res s' = res s + huge_left hp a (buf_map_size sz (length ihs) k)
     | Some b \<Rightarrow>
         length (slots (bb_buf b)) = unat k * length ihs \<and>
         (\<exists>n. Mmap (buf_virt (bb_buf b)) n \<in># res s' \<and>
           (\<forall>i < length (slots (bb_buf b)). slots (bb_buf b) ! i = 0 \<and>
              ixmap_slot_addr_virt (bb_buf b) (of_nat i) = buf_virt (bb_buf b) + unat sz * i \<and>
              ixmap_slot_addr_virt (bb_buf b) (of_nat i) + unat sz \<le> buf_virt (bb_buf b) + unat n)) \<and>
         (\<exists>s''. ixmap_buf_release hp b ihs s' = Some s'' \<and>
            res s'' = res s + huge_left hp (buf_virt (bb_buf b)) (buf_map_size sz (length ihs) k)))"
proof (cases rule: buf_alloc_res [of hp ihs k sz s])
  case (ok b s')
  let ?n = "unat k * length ihs" and ?buf = "bb_buf b"
  have kn: "?n < 2 ^ 32" using assms(3) by simp
  have l: "length (slots ?buf) = ?n" using prod_no_wrap(2) [OF kn] by (simp add: ok(5) mult.commute)
  have mul: "unat (sz * w) = unat sz * unat w" if "unat sz * unat w < 2 ^ 32" for w using that by (simp add: unat_word_ariths)
  from mul [of "of_nat (length ihs) * k"] have "unat (sz * (of_nat (length ihs) * k)) = unat sz * ?n"
    using assms(1) by (simp only: prod_no_wrap(2) [OF kn])
  then have m: "unat (buf_map_size sz (length ihs) k) = unat sz * ?n"
    using assms(1) by (simp add: buf_map_size_def unat_ucast_mod)
  have held: "Mmap (buf_virt ?buf) (buf_map_size sz (length ihs) k) \<in># res s'" using ok(2-4) by (simp add: buf_foot_def Let_def)
  have slot: "ixmap_slot_addr_virt ?buf (of_nat i) = buf_virt ?buf + unat sz * i" "unat sz * i + unat sz \<le> unat sz * ?n"
    if "i < ?n" for i
  proof -
    have i: "unat (of_nat i :: u16) = i" using that assms(3) by (simp add: unat_of_nat)
    have "unat sz * Suc i \<le> unat sz * ?n" using that by (intro mult_le_mono2) simp
    then show le: "unat sz * i + unat sz \<le> unat sz * ?n" by simp
    have i2: "unat (ucast (of_nat i :: u16) :: u32) = i" using i that assms(3) by (simp only: unat_ucast_mod) simp
    have "unat sz * i < 2 ^ 32" using le assms(1,2) by linarith
    then show "ixmap_slot_addr_virt ?buf (of_nat i) = buf_virt ?buf + unat sz * i"
      unfolding ixmap_slot_addr_virt_def ok(3) using mul [of "ucast (of_nat i :: u16)"] i2 by simp
  qed
  have "\<exists>n. Mmap (buf_virt ?buf) n \<in># res s' \<and> (\<forall>i < length (slots ?buf). slots ?buf ! i = 0 \<and>
      ixmap_slot_addr_virt ?buf (of_nat i) = buf_virt ?buf + unat sz * i \<and>
      ixmap_slot_addr_virt ?buf (of_nat i) + unat sz \<le> buf_virt ?buf + unat n)"
    by (rule exI, rule conjI [OF held]) (use l slot m ok(5) in \<open>simp add: mult.commute [of k]\<close>)
  moreover have "\<exists>s''. ixmap_buf_release hp b ihs s' = Some s'' \<and>
      res s'' = res s + huge_left hp (buf_virt ?buf) (buf_map_size sz (length ihs) k)"
    using buf_release_res [OF ok(2)] ok(3,4,7) by simp
  ultimately show ?thesis using ok(1) l by simp
qed auto

theorem ixmap_buf_alloc_correct_witness:
  "unat (2048 :: u32) * (unat (512 :: u32) * length [ex_ih, ex_ih]) < 2 ^ 32 \<and>
   (\<exists>b s' s''. ixmap_buf_alloc 0x200000 [ex_ih, ex_ih] 512 2048 ex_os = Some (Some b, s') \<and> length (slots (bb_buf b)) = 1024 \<and>
      ixmap_buf_release 0x200000 b [ex_ih, ex_ih] s' = Some s'' \<and> res s'' = {#})"
proof -
  have "map_option (\<lambda>x. fst x \<noteq> None) (ixmap_buf_alloc 0x200000 [ex_ih, ex_ih] 512 2048 ex_os) = Some True"
    by (simp add: ixmap_buf_alloc_def buf_map_def ixmap_dma_map_def os_ops ex_os_def ex_ih_def buf_map_size_def Let_def)
  moreover have "unat (2048 :: u32) * (unat (512 :: u32) * length [ex_ih, ex_ih]) < 2 ^ 32" "0 < unat (2048 :: u32)"
    "unat (512 :: u32) * length [ex_ih, ex_ih] \<le> 65536" by simp_all
  moreover have "huge_left 0x200000 a (buf_map_size 2048 (length [ex_ih, ex_ih]) 512) = {#}" for a
    by (simp add: huge_left_def buf_map_size_def)
  moreover have "res ex_os = {#}" by (simp add: ex_os_def)
  ultimately show ?thesis using ixmap_buf_alloc_correct [of 2048 512 "[ex_ih, ex_ih]" "0x200000" ex_os] by auto
qed

section \<open>From the allocations to the ring driver\<close>

text \<open>
  The handles that \<open>ixmap_desc_alloc\<close> returns have empty rings for the core, with a descriptor and a slot
  index per entry.
\<close>

definition fresh_rings :: "u32 \<Rightarrow> ixmap_handle \<Rightarrow> bool" where
  "fresh_rings c ih \<longleftrightarrow>
     (let rx = ih_rx_ring ih ! unat c; tx = ih_tx_ring ih ! unat c in
      next_to_use rx = 0 \<and> next_to_clean rx = 0 \<and> next_to_use tx = 0 \<and> next_to_clean tx = 0 \<and>
      length (slot_index rx) = unat (ih_num_rx_desc ih) \<and> length (descs rx) = unat (ih_num_rx_desc ih) \<and>
      length (slot_index tx) = unat (ih_num_tx_desc ih) \<and> length (descs tx) = unat (ih_num_tx_desc ih))"

lemma desc_port_fresh:
  assumes "has_core c ih" "desc_port c (ih, a) s = Some (Some p, s')"
  shows "fresh_rings c (pr_ih p)" "ih_num_rx_desc (pr_ih p) = ih_num_rx_desc ih" "ih_num_tx_desc (pr_ih p) = ih_num_tx_desc ih"
  using assms by (auto simp: desc_port_def fresh_rings_def ring_init_def has_core_def Let_def split: option.splits prod.splits if_splits bind_splits)

lemma desc_ports_fresh:
  assumes "list_all2 (\<lambda>k h. \<exists>s s'. desc_port c k s = Some (Some h, s')) (desc_places a ihs) ps"
    "list_all (\<lambda>ih. has_core c ih \<and> P (ih_num_rx_desc ih) (ih_num_tx_desc ih)) ihs"
  shows "list_all (\<lambda>p. fresh_rings c (pr_ih p) \<and> P (ih_num_rx_desc (pr_ih p)) (ih_num_tx_desc (pr_ih p))) ps"
  using assms
proof (induction ihs arbitrary: a ps)
  case (Cons ih ihs)
  then obtain p ps' s s' where p: "ps = p # ps'" "desc_port c (ih, a) s = Some (Some p, s')"
      "list_all2 (\<lambda>k h. \<exists>s s'. desc_port c k s = Some (Some h, s')) (desc_places (a + size_rx_desc ih + size_rx_desc ih) ihs) ps'"
    by (auto simp: list_all2_Cons1)
  then show ?case using Cons.IH [OF p(3)] Cons.prems(2) desc_port_fresh [of c ih a s p s'] by simp
qed simp

lemma port_init_initial:
  assumes "fresh_rings c ih" "ih_num_rx_desc ih \<noteq> 0" "ih_num_tx_desc ih \<noteq> 0"
    "ih_num_rx_desc ih \<le> 65536" "ih_num_tx_desc ih \<le> 65536"
  shows "port_wf (port_init buf c i ih irqs)" "rx_queue (port_init buf c i ih irqs) = []" "tx_queue (port_init buf c i ih irqs) = []"
  using assms by (simp_all add: fresh_rings_def Let_def port_wf_def ring_wf_def port_init_def ring_queue_def
      ring_used_def unat_gt_0 word_le_nat_alt)

lemma port_init_slots:
  assumes "i < n" "unat k * n < 2 ^ 31" "buf_count buf = k" "k \<noteq> 0" "length (slots buf) = unat k * n"
  shows "slots_wf buf (port_init buf c i ih irqs)"
proof -
  have "unat k * Suc i \<le> unat k * n" using assms(1) by (intro mult_le_mono2) simp
  then have i: "unat k * i + unat k \<le> unat k * n" by simp
  then have "unat (of_nat i * k) = unat k * i" using assms(2) by (intro prod_no_wrap(2)) simp
  then show ?thesis using i assms by (simp add: slots_wf_def port_init_def unat_gt_0)
qed

text \<open>
  C33.  A thread that allocates its descriptor memory, then its packet buffer and then its plane from the
  handles of the cards, as the application does, starts in an initial state of the ownership system of the
  ring driver: all slots are free, all rings are empty and well formed, and every port has its own slots.\<close>
theorem device_setup_initial:
  assumes "ixmap_desc_alloc hp ihs c s = Some (Some (d, ps), s1)"
    and "ixmap_buf_alloc hp (map pr_ih ps) k sz s1 = Some (Some b, s2)"
    and "ixmap_plane_alloc (map pr_ih ps) (bb_buf b) c s2 = Some (Some p, s3)"
    and "list_all (\<lambda>ih. has_core c ih \<and> ih_num_rx_desc ih \<in> {1..65536} \<and> ih_num_tx_desc ih \<in> {1..65536}) ihs"
    and "0 < k" "unat k * length ihs < 2 ^ 31"
  shows "drv_init \<lparr>dplane = pb_plane p, dbuf = bb_buf b, held = {#}\<rparr> \<and> length (ports (pb_plane p)) = length ihs"
proof -
  have hc: "list_all (has_core c) ihs" using assms(4) by (simp add: list_all_iff)
  have l: "list_all2 (\<lambda>k h. \<exists>s s'. desc_port c k s = Some (Some h, s')) (desc_places (ds_virt d) ihs) ps"
    using hc assms(1) by (cases rule: desc_alloc_res [where s = s and hp = hp]) auto
  have n: "length ps = length ihs" using list_all2_lengthD [OF l] by (simp add: length_desc_places)
  have f: "list_all (\<lambda>p. fresh_rings c (pr_ih p) \<and> ih_num_rx_desc (pr_ih p) \<in> {1..65536} \<and> ih_num_tx_desc (pr_ih p) \<in> {1..65536}) ps"
    using desc_ports_fresh [OF l, where P = "\<lambda>x y. x \<in> {1..65536} \<and> y \<in> {1..65536}"] assms(4) by simp
  have b: "buf_count (bb_buf b) = k" "slots (bb_buf b) = replicate (unat (k * of_nat (length ihs))) 0"
    using assms(2) n by (cases rule: buf_alloc_res [of hp "map pr_ih ps" k sz s1]; simp)+
  have kn: "unat (k * of_nat (length ihs)) = unat k * length ihs"
    using prod_no_wrap(2) [of k "length ihs"] assms(6) by (simp add: mult.commute)
  have pl: "ports (pb_plane p) = map (\<lambda>i. port_init (bb_buf b) c i (pr_ih (ps ! i)) (pb_irqs p ! i)) [0..<length ihs]"
    using plane_alloc_res [of "map pr_ih ps" "bb_buf b" c s2] assms(3) n by (auto simp: map_upt_eqI)
  have "port_wf q \<and> slots_wf (bb_buf b) q \<and> rx_queue q = [] \<and> tx_queue q = []"
    if "i < length ihs" "q = port_init (bb_buf b) c i (pr_ih (ps ! i)) (pb_irqs p ! i)" for i q
  proof -
    have "fresh_rings c (pr_ih (ps ! i))" "ih_num_rx_desc (pr_ih (ps ! i)) \<in> {1..65536}" "ih_num_tx_desc (pr_ih (ps ! i)) \<in> {1..65536}"
      using f that(1) n by (simp_all add: list_all_length)
    then have "fresh_rings c (pr_ih (ps ! i))" "ih_num_rx_desc (pr_ih (ps ! i)) \<noteq> 0" "ih_num_tx_desc (pr_ih (ps ! i)) \<noteq> 0"
      "ih_num_rx_desc (pr_ih (ps ! i)) \<le> 65536" "ih_num_tx_desc (pr_ih (ps ! i)) \<le> 65536"
      by (auto simp: word_le_nat_alt)
    note w = port_init_initial [OF this]
    have "k \<noteq> 0" "length (slots (bb_buf b)) = unat k * length ihs" using assms(5) b(2) kn by simp_all
    from port_init_slots [OF that(1) assms(6) b(1) this] show ?thesis unfolding that(2) by (simp add: w)
  qed
  then show ?thesis using pl b(2) kn by (simp add: drv_init_def get_port_def)
qed

definition ex_setup :: "((ixmap_desc \<times> port_rings list) \<times> dev_req os \<times> buf_blocks \<times> dev_req os \<times> plane_blocks \<times> dev_req os) option" where
  "ex_setup = do {
     (r, s1) \<leftarrow> ixmap_desc_alloc 0x200000 [ex_ih, ex_ih] 0 ex_os;
     dp \<leftarrow> r;
     (rb, s2) \<leftarrow> ixmap_buf_alloc 0x200000 (map pr_ih (snd dp)) 4 2048 s1;
     b \<leftarrow> rb;
     (rp, s3) \<leftarrow> ixmap_plane_alloc (map pr_ih (snd dp)) (bb_buf b) 0 s2;
     p \<leftarrow> rp;
     Some (dp, s1, b, s2, p, s3) }"

lemma ex_setup_some: "ex_setup \<noteq> None"
  by (simp add: ex_setup_def ixmap_desc_alloc_def desc_port_def ixmap_dma_map_def os_ops ex_os_def ex_ih_def SIZE_1GB_nz Let_def
    ixmap_buf_alloc_def buf_map_def buf_map_size_def ixmap_plane_alloc_def port_irqs_open_def ixmap_irq_open_def ixmap_irq_setaffinity_def
    affinity_masks_def)

theorem device_setup_initial_witness:
  "\<exists>d ps s1 b s2 p s3.
     ixmap_desc_alloc 0x200000 [ex_ih, ex_ih] 0 ex_os = Some (Some (d, ps), s1) \<and>
     ixmap_buf_alloc 0x200000 (map pr_ih ps) 4 2048 s1 = Some (Some b, s2) \<and>
     ixmap_plane_alloc (map pr_ih ps) (bb_buf b) 0 s2 = Some (Some p, s3) \<and>
     drv_init \<lparr>dplane = pb_plane p, dbuf = bb_buf b, held = {#}\<rparr> \<and> length (ports (pb_plane p)) = 2"
proof -
  obtain d ps s1 b s2 p s3 where e:
      "ixmap_desc_alloc 0x200000 [ex_ih, ex_ih] 0 ex_os = Some (Some (d, ps), s1)"
      "ixmap_buf_alloc 0x200000 (map pr_ih ps) 4 2048 s1 = Some (Some b, s2)"
      "ixmap_plane_alloc (map pr_ih ps) (bb_buf b) 0 s2 = Some (Some p, s3)"
    using ex_setup_some by (auto simp: ex_setup_def split: bind_splits)
  have "list_all (\<lambda>ih. has_core 0 ih \<and> ih_num_rx_desc ih \<in> {1..65536} \<and> ih_num_tx_desc ih \<in> {1..65536}) [ex_ih, ex_ih]"
    "0 < (4 :: u32)" "unat (4 :: u32) * length [ex_ih, ex_ih] < 2 ^ 31"
    by (simp_all add: ex_ih_def has_core_def)
  from device_setup_initial [OF e this] show ?thesis using e by auto
qed

section \<open>Interrupt masks\<close>

text \<open>The set of processors that the two masks of \<open>smp_affinity\<close> name.\<close>

definition affinity_cores :: "u32 \<Rightarrow> nat set" where
  "affinity_cores core_id = (case affinity_masks core_id of (high, low) \<Rightarrow> {i. bit low i} \<union> {32 + i | i. bit high i})"

lemma bit_c_shl: "bit (c_shl n) i \<longleftrightarrow> i = n mod 32"
  by (auto simp: c_shl_def bit_simps)

lemma irq_masks_law:
  fixes core_id :: u32
  shows "core_id < 32 \<Longrightarrow> affinity_cores core_id = {unat core_id}"
    "32 \<le> core_id \<Longrightarrow> core_id < 63 \<Longrightarrow> affinity_cores core_id = {unat core_id + 1}"
    "unat core_id < 31 \<Longrightarrow> bit (irq_qmask IXMAP_IRQ_RX core_id n_queues) i \<longleftrightarrow> i = unat core_id"
    "unat core_id + unat n_queues < 31 \<Longrightarrow> bit (irq_qmask IXMAP_IRQ_TX core_id n_queues) i \<longleftrightarrow> i = unat core_id + unat n_queues"
    "unat core_id + unat n_queues = 31 \<Longrightarrow> bit (irq_qmask IXMAP_IRQ_TX core_id n_queues) i \<longleftrightarrow> 31 \<le> i \<and> i < 64"
proof -
  have s: "bit (scast (x :: u32) :: u64) i \<longleftrightarrow> i < 64 \<and> bit x (min i 31)" for x i
    by (simp add: bit_simps min_def) 
  have u: "unat (core_id + n_queues) = unat core_id + unat n_queues" if "unat core_id + unat n_queues \<le> 31"
    using that by (simp add: unat_word_ariths)
  show "affinity_cores core_id = {unat core_id}" if "core_id < 32"
    using that by (auto simp: affinity_cores_def affinity_masks_def Let_def bit_c_shl word_less_nat_alt word_le_nat_alt)
  show "affinity_cores core_id = {unat core_id + 1}" if "32 \<le> core_id" "core_id < 63"
  proof -
    have "unat (core_id - 31) = unat core_id - 31" using that by (simp add: unat_sub word_le_nat_alt)
    then show ?thesis using that by (auto simp: affinity_cores_def affinity_masks_def Let_def bit_c_shl word_less_nat_alt word_le_nat_alt)
  qed
  show "bit (irq_qmask IXMAP_IRQ_RX core_id n_queues) i \<longleftrightarrow> i = unat core_id" if "unat core_id < 31"
    using that by (auto simp: irq_qmask_def s bit_c_shl min_def)
  show "bit (irq_qmask IXMAP_IRQ_TX core_id n_queues) i \<longleftrightarrow> i = unat core_id + unat n_queues" if "unat core_id + unat n_queues < 31"
    using that by (auto simp: irq_qmask_def s bit_c_shl u min_def)
  show "bit (irq_qmask IXMAP_IRQ_TX core_id n_queues) i \<longleftrightarrow> 31 \<le> i \<and> i < 64" if "unat core_id + unat n_queues = 31"
    using that by (auto simp: irq_qmask_def s bit_c_shl u min_def)
qed

text \<open>
  C34.  The masks that \<open>ixmap_irq_open\<close> computes.  The interrupt of a queue is bound to the processor of the
  same number as long as that is below 32; for the processors 32 to 62 it is bound to the next one.  The
  mask of a queue's interrupt cause is its own bit as long as the bit is below 31; bit 31 comes with all bits
  above it.\<close>
theorem irq_masks:
  "(core_id < 32 \<longrightarrow> affinity_cores core_id = {unat core_id}) \<and>
   (32 \<le> core_id \<and> core_id < 63 \<longrightarrow> affinity_cores core_id = {unat core_id + 1}) \<and>
   (unat core_id < 31 \<longrightarrow> (\<forall>i. bit (irq_qmask IXMAP_IRQ_RX core_id n_queues) i \<longleftrightarrow> i = unat core_id)) \<and>
   (unat core_id + unat n_queues < 31 \<longrightarrow>
      (\<forall>i. bit (irq_qmask IXMAP_IRQ_TX core_id n_queues) i \<longleftrightarrow> i = unat core_id + unat n_queues)) \<and>
   (unat core_id + unat n_queues = 31 \<longrightarrow> (\<forall>i. bit (irq_qmask IXMAP_IRQ_TX core_id n_queues) i \<longleftrightarrow> 31 \<le> i \<and> i < 64))"
  by (intro conjI impI allI irq_masks_law; simp)

theorem irq_masks_witness:
  "affinity_cores 5 = {5} \<and> affinity_cores 40 = {41} \<and> bit (irq_qmask IXMAP_IRQ_TX 5 8) 13 \<and> bit (irq_qmask IXMAP_IRQ_TX 15 16) 63"
  using irq_masks [of 5 8] irq_masks [of 40 0] irq_masks [of 15 16] by simp

section \<open>Opening and closing a card\<close>

definition ih_foot :: "ixmap_handle \<Rightarrow> resource multiset" where
  "ih_foot ih = {#Malloc (ih_self ih), Fd (ih_fd ih), Mmap (bar ih) (bar_size ih), Malloc (rx_ring_self ih), Malloc (tx_ring_self ih)#}"

lemma os_bytes_res: "res (snd (os_bytes n s)) = res s"
proof (induction n arbitrary: s)
  case (Suc n)
  from Suc [of "snd (sys s)"] show ?case by (auto simp: os_ops split: prod.splits)
qed simp

lemma os_out_cases: obtains v :: "'a :: len word" and s1 where "os_out s = (v, s1)" "res s1 = res s"
  by (cases "os_out s :: 'a word \<times> _") (auto simp: os_ops)

lemma ixmap_info_cases: obtains r s1 where "ixmap_info fd s = (r, s1)" "res s1 = res s"
proof -
  obtain x s1 where 1: "os_ioctl (IXMAP_INFO fd) s = (x, s1)" "res s1 = res s" by (rule os_ioctl_cases)
  obtain n :: u64 and s2 where 2: "os_out s1 = (n, s2)" "res s2 = res s1" by (rule os_out_cases)
  obtain mc s3 where 3: "os_bytes 6 s2 = (mc, s3)" "res s3 = res s2" using os_bytes_res [of 6 s2] by (cases "os_bytes 6 s2") simp
  obtain q :: u16 and s4 where 4: "os_out s3 = (q, s4)" "res s4 = res s3" by (rule os_out_cases)
  obtain t :: u32 and s5 where 5: "os_out s4 = (t, s5)" "res s5 = res s4" by (rule os_out_cases)
  obtain u :: u32 and s6 where 6: "os_out s5 = (u, s6)" "res s6 = res s5" by (rule os_out_cases)
  show thesis using 1 2 3 4 5 6 that by (cases "x < 0") (simp_all add: ixmap_info_def del: os_bytes.simps)
qed

lemma ixmap_close_res:
  assumes "res s = M + ih_foot ih" "bar_size ih \<noteq> 0"
  shows "\<exists>s'. ixmap_close ih s = Some s' \<and> res s' = M"
  using assms by (auto simp: ixmap_close_def ih_foot_def os_ops)

text \<open>
  C35.  \<open>ixmap_open\<close> returns for every behaviour of the system.  The handle it returns has at most the
  requested number of queues and interrupt rate, and \<open>ixmap_close\<close> gives back exactly what was acquired.
  When it fails, nothing is left but, at most, the mapping of the registers, which the error path unmaps
  with the length 0.\<close>
theorem ixmap_open_resources:
  "\<exists>r s'. ixmap_open pi nq rate rxb txb mtu prom nrx ntx jr jt s = Some (r, s') \<and>
    (case r of
       None \<Rightarrow> res s' = res s \<or> (\<exists>a n. res s' = add_mset (Mmap a n) (res s))
     | Some ih \<Rightarrow> ih_num_queues ih \<le> nq \<and> num_interrupt_rate ih \<le> rate \<and>
         (\<exists>s''. ixmap_close ih s' = Some s'' \<and> res s'' = res s))"
proof (cases rule: os_malloc_cases [of s])
  case 1: (ok ih s1)
  show ?thesis
  proof (cases rule: os_fd_cases [of s1])
    case (fail s2)
    then show ?thesis using 1 os_release_held(2) [of s2 ih "res s"] by (auto simp: ixmap_open_def)
  next
    case 2: (ok fd s2)
    have undo: "\<exists>t1. os_close fd t = Some t1 \<and> (\<exists>t2. os_free ih t1 = Some t2 \<and> res t2 = M)"
      if "res t = add_mset (Fd fd) (add_mset (Malloc ih) M)" for t and M
      using os_release_held(1) [OF that] os_release_held(2) by blast
    obtain r s3 where 3: "ixmap_info fd s2 = (r, s3)" "res s3 = res s2" by (rule ixmap_info_cases)
    show ?thesis
    proof (cases r)
      case None
      have "res s3 = add_mset (Fd fd) (add_mset (Malloc ih) (res s))" using 1 2 3 by simp
      from undo [OF this] show ?thesis using 1 2 3 None by (auto simp: ixmap_open_def)
    next
      case r: (Some info)
      define rt where "rt = min rate (max_interrupt_rate info)"
      define q where "q = min nq (min (max_rx_queues info) (max_tx_queues info))"
      obtain x s4 where 4: "os_ioctl (IXMAP_UP fd rt q q) s3 = (x, s4)" "res s4 = res s3" by (rule os_ioctl_cases)
      have r4: "res s4 = add_mset (Fd fd) (add_mset (Malloc ih) (res s))" using 1 2 3 4 by simp
      obtain m s5 where 5: "os_mmap_len (mmio_size info) s4 = (m, s5)"
          "res s5 = res s4 + (case m of None \<Rightarrow> {#} | Some a \<Rightarrow> {#Mmap a (mmio_size info)#})" "m \<noteq> None \<longrightarrow> mmio_size info \<noteq> 0"
        by (cases "os_mmap_len (mmio_size info) s4") (auto simp: os_ops split: if_splits)
      note up = 1 2(1,2) 3(1) r 4(1) 5(1) rt_def [symmetric] q_def [symmetric]
      show ?thesis
      proof (cases "x < 0 \<or> m = None")
        case True
        have "res s5 = res s4" if "\<not> x < 0" using True that 5(2) by simp
        then show ?thesis using undo [of s4 "res s"] undo [of s5 "res s"] r4 True up
          by (cases "x < 0") (auto simp: ixmap_open_def Let_def)
      next
        case False
        then obtain br where br: "m = Some br" "\<not> x < 0" by auto
        let ?B = "add_mset (Mmap br (mmio_size info)) (res s)"
        have r5: "res s5 = add_mset (Fd fd) (add_mset (Malloc ih) ?B)" using r4 5(2) br by simp
        show ?thesis
        proof (cases rule: os_malloc_cases [of s5])
          case (fail s6)
          from undo [of s6 ?B] show ?thesis using fail r5 up br by (auto simp: ixmap_open_def Let_def os_munmap_len_def)
        next
          case 6: (ok rxr s6)
          show ?thesis
          proof (cases rule: os_malloc_cases [of s6])
            case (fail s7)
            have "res s7 = add_mset (Malloc rxr) (add_mset (Fd fd) (add_mset (Malloc ih) ?B))" using fail 6 r5 by simp
            from os_release_held(2) [OF this] obtain s8 where "os_free rxr s7 = Some s8"
                "res s8 = add_mset (Fd fd) (add_mset (Malloc ih) ?B)" by blast
            then show ?thesis using undo [of s8 ?B] fail 6(1) up br by (auto simp: ixmap_open_def Let_def os_munmap_len_def)
          next
            case 7: (ok txr s7)
            let ?ih = "\<lparr>ih_self = ih, ih_fd = fd, bar = br, bar_size = mmio_size info, rx_ring_self = rxr, tx_ring_self = txr,
               ih_rx_ring = take (unat q) jr, ih_tx_ring = take (unat q) jt, ih_num_tx_desc = ntx, ih_num_rx_desc = nrx,
               ih_rx_budget = rxb, ih_tx_budget = txb, ih_num_queues = q, num_interrupt_rate = rt,
               promisc = (if prom \<noteq> 0 then 1 else 0), ih_mtu_frame = mtu, ih_buf_size = 0, ih_mac_addr = info_mac info,
               ih_interface_name = snprintf IFNAMSIZ (IXMAP_IFNAME @ print_d (sint pi))\<rparr>"
            have o: "ixmap_open pi nq rate rxb txb mtu prom nrx ntx jr jt s = Some (Some ?ih, s7)"
              using 6(1) 7(1) up br by (simp add: ixmap_open_def Let_def)
            have "res s7 = res s + ih_foot ?ih" using r5 6 7 by (simp add: ih_foot_def)
            from ixmap_close_res [OF this] show ?thesis using o 5(3) br by (simp add: q_def rt_def)
          qed
        qed
      qed
    qed
  qed
qed (auto simp: ixmap_open_def)

text \<open>The mapping is left when the second ring array cannot be allocated.\<close>

definition ex_os_full :: "dev_req os" where
  "ex_os_full = \<lparr>res = {#}, ans = (\<lambda>n. if n = 16 then 0 else 1), calls = 0, reqs = []\<rparr>"

lemma ixmap_open_leaks_bar:
  "map_option (\<lambda>(r, s'). (r, res s')) (ixmap_open 0 1 8 32 32 1518 0 64 64 [ex_ring] [ex_ring] ex_os_full) = Some (None, {#Mmap 1 1#})"
  by (simp add: ixmap_open_def ixmap_info_def os_ops ex_os_full_def eval_nat_numeral)

end
