(* ===== verification/Memory.thy ===== *)
theory Memory
  imports Ixmap_Prelude
begin

text \<open>
  The buddy allocator of \<open>src/lib/memory.c\<close>.  The tree of \<open>ixmap_mnode\<close> structures is a datatype, and a
  node is identified by its path from the root (\<open>False\<close> for \<open>child[0]\<close>, \<open>True\<close> for \<open>child[1]\<close>); the
  \<open>parent\<close> pointer is the path without its last step.  \<open>numa_alloc_onnode\<close> belongs to libnuma: the
  outcome of its \<open>k\<close>-th call is given by the field \<open>numa\<close>.  The header that \<open>ixmap_mem_alloc\<close> stores in front
  of a block is the map \<open>headers\<close> from the block's address to the node's path.

  The recursion of \<open>_ixmap_mem_alloc\<close> is bounded by a fuel argument and gives \<open>None\<close> when it is used up;
  33 levels are enough for every request that is not 0.
\<close>

section \<open>Nodes\<close>

datatype mnode =
  MNode (child0: "mnode option") (child1: "mnode option") (allocated: bool) (index: u32) (msize: u32) (ptr: addr)

record mem_state =
  root :: mnode
  headers :: "addr \<rightharpoonup> bool list"
  numa :: "nat \<Rightarrow> bool"
  numa_calls :: nat

definition L1_CACHE_BYTES :: u32 where "L1_CACHE_BYTES = push_bit 6 1"

text \<open>\<open>ixmap_mnode_alloc\<close>: \<open>None\<close> when \<open>numa_alloc_onnode\<close> fails.\<close>

definition ixmap_mnode_alloc :: "(nat \<Rightarrow> bool) \<Rightarrow> nat \<Rightarrow> addr \<Rightarrow> u32 \<Rightarrow> u32 \<Rightarrow> mnode option \<times> nat" where
  "ixmap_mnode_alloc ora k p sz i =
     (if ora k then Some (MNode None None False i sz p) else None, k + 1)"

definition child :: "mnode \<Rightarrow> bool \<Rightarrow> mnode option" where
  "child t i = (if i then child1 t else child0 t)"

definition set_child :: "bool \<Rightarrow> mnode option \<Rightarrow> mnode \<Rightarrow> mnode" where
  "set_child i c t = (case t of MNode c0 c1 al ix sz p \<Rightarrow>
     if i then MNode c0 c al ix sz p else MNode c c1 al ix sz p)"

definition set_allocated :: "bool \<Rightarrow> mnode \<Rightarrow> mnode" where
  "set_allocated b t = (case t of MNode c0 c1 al ix sz p \<Rightarrow> MNode c0 c1 b ix sz p)"

fun get_at :: "bool list \<Rightarrow> mnode \<Rightarrow> mnode option" where
  "get_at [] t = Some t"
| "get_at (i # ps) t = (case child t i of None \<Rightarrow> None | Some c \<Rightarrow> get_at ps c)"

fun upd_at :: "bool list \<Rightarrow> (mnode \<Rightarrow> mnode) \<Rightarrow> mnode \<Rightarrow> mnode" where
  "upd_at [] f t = f t"
| "upd_at (i # ps) f t = (case child t i of None \<Rightarrow> t | Some c \<Rightarrow> set_child i (Some (upd_at ps f c)) t)"

text \<open>\<open>ixmap_mnode_release\<close> of the child \<open>i\<close> of a node: the parent's pointer becomes \<open>NULL\<close>.\<close>

definition ixmap_mnode_release :: "bool \<Rightarrow> mnode \<Rightarrow> mnode" where
  "ixmap_mnode_release i t = set_child i None t"

definition ixmap_mem_init :: "(nat \<Rightarrow> bool) \<Rightarrow> addr \<Rightarrow> u32 \<Rightarrow> mem_state option" where
  "ixmap_mem_init ora p sz =
     (case ixmap_mnode_alloc ora 0 p sz 0 of
        (None, k) \<Rightarrow> None
      | (Some r, k) \<Rightarrow> Some \<lparr>root = r, headers = Map.empty, numa = ora, numa_calls = k\<rparr>)"

text \<open>\<open>_ixmap_mem_destroy\<close>: the nodes in the order in which \<open>numa_free\<close> gets them, by path.\<close>

fun mem_destroy :: "bool list \<Rightarrow> mnode \<Rightarrow> bool list list" where
  "mem_destroy up (MNode c0 c1 al ix sz p) =
     (case c0 of None \<Rightarrow> [] | Some a \<Rightarrow> mem_destroy (up @ [False]) a) @
     (case c1 of None \<Rightarrow> [] | Some b \<Rightarrow> mem_destroy (up @ [True]) b) @ [up]"

section \<open>Allocation\<close>

text \<open>
  The split of an unallocated node: both children are new.  When the second cannot be allocated the
  first is released again; when the first cannot, the second pointer keeps its value.
\<close>

definition mem_split :: "(nat \<Rightarrow> bool) \<Rightarrow> nat \<Rightarrow> mnode \<Rightarrow> bool \<times> mnode \<times> nat" where
  "mem_split ora k t =
     (let size_new = drop_bit 1 (msize t)
      in case ixmap_mnode_alloc ora k (ptr t + unat (size_new * 0)) size_new 0 of
           (None, k1) \<Rightarrow> (False, set_child False None t, k1)
         | (Some a, k1) \<Rightarrow>
             let t1 = set_child False (Some a) t
             in case ixmap_mnode_alloc ora k1 (ptr t + unat (size_new * 1)) size_new 1 of
                  (None, k2) \<Rightarrow> (False, ixmap_mnode_release False (set_child True None t1), k2)
                | (Some b, k2) \<Rightarrow> (True, set_child True (Some b) t1, k2))"

fun mem_alloc :: "nat \<Rightarrow> (nat \<Rightarrow> bool) \<Rightarrow> nat \<Rightarrow> mnode \<Rightarrow> u32 \<Rightarrow> (bool list option \<times> mnode \<times> nat) option" where
  "mem_alloc 0 ora k t req = None"
| "mem_alloc (Suc fuel) ora k t req =
     (if drop_bit 1 (msize t) < req
      then if \<not> allocated t \<and> msize t \<ge> req
           then Some (Some [], set_allocated True t, k) else Some (None, t, k)
      else case (if \<not> allocated t then mem_split ora k t else (True, t, k)) of
        (False, t1, k1) \<Rightarrow> Some (None, t1, k1)
      | (True, t1, k1) \<Rightarrow>
          (case (case child0 t1 of None \<Rightarrow> Some (None, t1, k1)
                 | Some a \<Rightarrow> map_option (\<lambda>(r, a1, k2). (map_option ((#) False) r, set_child False (Some a1) t1, k2))
                     (mem_alloc fuel ora k1 a req)) of
             None \<Rightarrow> None
           | Some (Some r, t2, k2) \<Rightarrow> Some (Some r, set_allocated True t2, k2)
           | Some (None, t2, k2) \<Rightarrow>
               (case (case child1 t2 of None \<Rightarrow> Some (None, t2, k2)
                      | Some b \<Rightarrow> map_option (\<lambda>(r, b1, k3). (map_option ((#) True) r, set_child True (Some b1) t2, k3))
                          (mem_alloc fuel ora k2 b req)) of
                  None \<Rightarrow> None
                | Some (Some r, t3, k3) \<Rightarrow> Some (Some r, set_allocated True t3, k3)
                | Some (None, t3, k3) \<Rightarrow> Some (None, t3, k3))))"

definition mem_fuel :: nat where "mem_fuel = 33"

text \<open>
  The size that \<open>ixmap_mem_alloc\<close> asks for: the request and the header, both rounded up to a cache
  line, as an \<open>unsigned int\<close>.
\<close>

definition mem_request :: "u32 \<Rightarrow> u32" where
  "mem_request req = ucast (ucast (ALIGN req L1_CACHE_BYTES) + ALIGN (8 :: u64) (ucast L1_CACHE_BYTES))"

definition mem_header_size :: addr where
  "mem_header_size = unat (ALIGN (8 :: u64) (ucast L1_CACHE_BYTES))"

definition ixmap_mem_alloc :: "mem_state \<Rightarrow> u32 \<Rightarrow> (addr option \<times> mem_state) option" where
  "ixmap_mem_alloc s req =
     (case mem_alloc mem_fuel (numa s) (numa_calls s) (root s) (mem_request req) of
        None \<Rightarrow> None
      | Some (None, t, k) \<Rightarrow> Some (None, s\<lparr>root := t, numa_calls := k\<rparr>)
      | Some (Some path, t, k) \<Rightarrow>
          (case get_at path t of
             None \<Rightarrow> None
           | Some node \<Rightarrow> Some (Some (ptr node + mem_header_size),
               s\<lparr>root := t, numa_calls := k, headers := (headers s)(ptr node \<mapsto> path)\<rparr>)))"

section \<open>Release\<close>

text \<open>
  \<open>_ixmap_mem_free\<close>, by the path of the node with its last step first, so that the parent is the tail;
  \<open>None\<close> is a dereference of a \<open>NULL\<close> pointer.
\<close>

fun mem_free :: "bool list \<Rightarrow> mnode \<Rightarrow> mnode option" where
  "mem_free [] t = Some (set_allocated False t)"
| "mem_free (i # up) t =
     (let t1 = upd_at (rev (i # up)) (set_allocated False) t
      in case get_at (rev up @ [\<not> i]) t1 of
           None \<Rightarrow> None
         | Some buddy \<Rightarrow>
             if allocated buddy then Some t1
             else mem_free up (upd_at (rev up) (\<lambda>p. ixmap_mnode_release i (ixmap_mnode_release (\<not> i) p)) t1))"

definition ixmap_mem_free :: "mem_state \<Rightarrow> addr \<Rightarrow> mem_state option" where
  "ixmap_mem_free s a =
     (case headers s (a - mem_header_size) of
        None \<Rightarrow> None
      | Some path \<Rightarrow> (case get_at path (root s) of
            None \<Rightarrow> None
          | Some _ \<Rightarrow> map_option (\<lambda>t. s\<lparr>root := t\<rparr>) (mem_free (rev path) (root s))))"

section \<open>Well-formed trees\<close>

text \<open>
  The shape of the tree while every \<open>numa_alloc_onnode\<close> succeeds: a node has both children or none; a
  node with children is allocated, its children halve it, and at least one of them is allocated.
\<close>

fun mwf :: "mnode \<Rightarrow> bool" where
  "mwf (MNode None None al ix sz p) \<longleftrightarrow> True"
| "mwf (MNode (Some a) (Some b) al ix sz p) \<longleftrightarrow> al \<and> mwf a \<and> mwf b \<and> (allocated a \<or> allocated b) \<and>
     index a = 0 \<and> index b = 1 \<and> msize a = drop_bit 1 sz \<and> msize b = drop_bit 1 sz \<and>
     ptr a = p \<and> ptr b = p + unat (drop_bit 1 sz)"
| "mwf t \<longleftrightarrow> False"

text \<open>The blocks handed out, as address and size, and whether a request fits some free node.\<close>

fun blocks :: "mnode \<Rightarrow> (addr \<times> u32) list" where
  "blocks (MNode None None al ix sz p) = (if al then [(p, sz)] else [])"
| "blocks (MNode (Some a) (Some b) al ix sz p) = blocks a @ blocks b"
| "blocks t = []"

fun fits :: "u32 \<Rightarrow> mnode \<Rightarrow> bool" where
  "fits req (MNode None None al ix sz p) \<longleftrightarrow> \<not> al \<and> req \<le> sz"
| "fits req (MNode (Some a) (Some b) al ix sz p) \<longleftrightarrow> fits req a \<or> fits req b"
| "fits req t \<longleftrightarrow> False"

lemma unat_half: "unat (drop_bit 1 (w :: u32)) = unat w div 2" "unat (drop_bit (Suc 0) (w :: u32)) = unat w div 2"
  by (simp_all add: drop_bit_Suc unat_div)

lemma half_le: "drop_bit 1 (w :: u32) \<le> w"
  by (simp add: word_le_nat_alt unat_half)

lemma mwf_cases:
  assumes "mwf t"
  obtains (leaf) al ix sz p where "t = MNode None None al ix sz p"
  | (node) a b ix sz p where "t = MNode (Some a) (Some b) True ix sz p" "mwf a" "mwf b"
      "allocated a \<or> allocated b" "index a = 0" "index b = 1" "msize a = drop_bit 1 sz"
      "msize b = drop_bit 1 sz" "ptr a = p" "ptr b = p + unat (drop_bit 1 sz)"
  using assms by (cases t rule: mwf.cases) auto

lemma fits_size: "mwf t \<Longrightarrow> fits req t \<Longrightarrow> req \<le> msize t"
proof (induction t rule: mwf.induct)
  case (2 a b al ix sz p)
  then have "req \<le> drop_bit 1 sz" by auto
  then show ?case using half_le [of sz] by simp
qed auto

lemma blocks_in_range:
  "mwf t \<Longrightarrow> (q, s) \<in> set (blocks t) \<Longrightarrow> ptr t \<le> q \<and> q + unat s \<le> ptr t + unat (msize t)"
proof (induction t rule: mwf.induct)
  case (2 a b al ix sz p)
  then have "(q, s) \<in> set (blocks a) \<or> (q, s) \<in> set (blocks b)" by auto
  moreover have "2 * unat (drop_bit 1 sz) \<le> unat sz" by (simp add: unat_half)
  ultimately show ?case using 2 by auto
qed (auto split: if_splits)

lemma blocks_disjoint: "mwf t \<Longrightarrow> sorted_wrt (\<lambda>(q, s) (q', s'). q + unat s \<le> q') (blocks t)"
proof (induction t rule: mwf.induct)
  case (2 a b al ix sz p)
  then have "q + unat s \<le> q'" if "(q, s) \<in> set (blocks a)" "(q', s') \<in> set (blocks b)" for q s q' s'
    using that blocks_in_range [of a q s] blocks_in_range [of b q' s'] by auto
  then show ?case using 2 by (auto simp: sorted_wrt_append)
qed auto

section \<open>Allocation finds a block and release gives it back\<close>

lemma child_simps [simp]:
  "child (set_child i c t) j = (if i = j then c else child t j)"
  "allocated (set_child i c t) = allocated t" "index (set_child i c t) = index t"
  "msize (set_child i c t) = msize t" "ptr (set_child i c t) = ptr t"
  "set_child i c (set_child i d t) = set_child i c t"
  "allocated (set_allocated b t) = b" "msize (set_allocated b t) = msize t" "ptr (set_allocated b t) = ptr t"
  "index (set_allocated b t) = index t" "child (set_allocated b t) i = child t i"
  by (cases t; auto simp: child_def set_child_def set_allocated_def)+

lemma set_child_same: "child t i = Some c \<Longrightarrow> set_child i (Some c) t = t"
  by (cases t; cases i) (auto simp: child_def set_child_def)

lemma allocated_upd_at: "ps \<noteq> [] \<Longrightarrow> allocated (upd_at ps f t) = allocated t"
  by (cases ps) (auto split: option.splits)

text \<open>Release of a node below the child \<open>i\<close>: first within the child, then the merge at the parent.\<close>

definition merge_at :: "bool \<Rightarrow> mnode \<Rightarrow> mnode \<Rightarrow> mnode option" where
  "merge_at i c t =
     (let t1 = set_child i (Some c) t
      in if allocated c then Some t1
         else case child t (\<not> i) of
           None \<Rightarrow> None
         | Some b \<Rightarrow> if allocated b then Some t1
             else Some (set_allocated False (ixmap_mnode_release i (ixmap_mnode_release (\<not> i) t1))))"

lemma mem_free_snoc:
  assumes "child t i = Some c" "allocated c" "mem_free qs c = Some c'"
  shows "mem_free (qs @ [i]) t = merge_at i c' t"
  using assms
proof (induction qs arbitrary: t c)
  case Nil
  then show ?case by (auto simp: merge_at_def Let_def split: option.splits)
next
  case (Cons j qs)
  let ?f = "set_allocated False" and ?g = "\<lambda>p. ixmap_mnode_release j (ixmap_mnode_release (\<not> j) p)"
  let ?c1 = "upd_at (rev qs @ [j]) ?f c" and ?t1 = "upd_at (rev (qs @ [i]) @ [j]) ?f t"
  have t1: "?t1 = set_child i (Some ?c1) t" using Cons.prems(1) by simp
  have al: "allocated ?c1" using Cons.prems(2) by (simp add: allocated_upd_at)
  from Cons.prems(3) obtain b where b: "get_at (rev qs @ [\<not> j]) ?c1 = Some b"
    by (auto simp: Let_def split: option.splits)
  then have b': "get_at (rev (qs @ [i]) @ [\<not> j]) ?t1 = Some b" unfolding t1 by simp
  show ?case
  proof (cases "allocated b")
    case True
    then have "c' = ?c1" using Cons.prems(3) b by (simp add: Let_def)
    then show ?thesis using True b' al t1 by (simp add: Let_def merge_at_def)
  next
    case False
    let ?c2 = "upd_at (rev qs) ?g ?c1"
    have c2: "mem_free qs ?c2 = Some c'" using Cons.prems(3) b False by (simp add: Let_def)
    have t2: "upd_at (rev (qs @ [i])) ?g ?t1 = set_child i (Some ?c2) t" unfolding t1 by simp
    have "allocated ?c2"
      using al allocated_upd_at [of "rev qs" ?g ?c1]
      by (cases "qs = []") (auto simp: ixmap_mnode_release_def)
    then have "mem_free (qs @ [i]) (set_child i (Some ?c2) t) = merge_at i c' (set_child i (Some ?c2) t)"
      using c2 by (intro Cons.IH) simp_all
    moreover have "merge_at i c' (set_child i (Some ?c2) t) = merge_at i c' t"
      by (simp add: merge_at_def Let_def)
    moreover have "mem_free ((j # qs) @ [i]) t = mem_free (qs @ [i]) (set_child i (Some ?c2) t)"
      using b' False t2 by (simp add: Let_def)
    ultimately show ?thesis by simp
  qed
qed

text \<open>The nodes that are blocks: allocated and without children.\<close>

definition bpath :: "mnode \<Rightarrow> bool list \<Rightarrow> mnode \<Rightarrow> bool" where
  "bpath t path n \<longleftrightarrow> get_at path t = Some n \<and> allocated n \<and> child0 n = None \<and> child1 n = None"

lemma bpath_Cons: "child t i = Some c \<Longrightarrow> bpath t (i # path) n = bpath c path n"
  by (simp add: bpath_def)

text \<open>What a successful call has done to the tree.\<close>

definition alloc_ok :: "u32 \<Rightarrow> mnode \<Rightarrow> bool list \<Rightarrow> mnode \<Rightarrow> bool" where
  "alloc_ok req t path t' \<longleftrightarrow> mwf t' \<and> allocated t' \<and> index t' = index t \<and> msize t' = msize t \<and> ptr t' = ptr t \<and>
     mem_free (rev path) t' = Some t \<and>
     (\<exists>n bs1 bs2. bpath t' path n \<and> req \<le> msize n \<and> drop_bit 1 (msize n) < req \<and>
        blocks t = bs1 @ bs2 \<and> blocks t' = bs1 @ (ptr n, msize n) # bs2)"

lemma alloc_ok_child:
  assumes "alloc_ok req c path c'" "t' = MNode (Some a') (Some b') True ix sz p"
    "if i then c = b \<and> c' = b' \<and> a' = a else c = a \<and> c' = a' \<and> b' = b"
    "mwf a" "mwf b" "index a = 0" "index b = 1" "msize a = drop_bit 1 sz" "msize b = drop_bit 1 sz"
    "ptr a = p" "ptr b = p + unat (drop_bit 1 sz)"
    "merge_at i c t' = Some t" "blocks t = blocks a @ blocks b" "index t = ix" "msize t = sz" "ptr t = p"
  shows "alloc_ok req t (i # path) t'"
proof -
  have c': "child t' i = Some c'" "allocated c'" "mwf t'"
    using assms(1-11) by (cases i; auto simp: alloc_ok_def child_def)+
  have "mem_free (rev (i # path)) t' = Some t"
    using mem_free_snoc [OF c'(1,2), of "rev path" c] assms(1,12) by (simp add: alloc_ok_def)
  moreover obtain n bs1 bs2 where n: "bpath c' path n" "req \<le> msize n" "drop_bit 1 (msize n) < req"
      "blocks c = bs1 @ bs2" "blocks c' = bs1 @ (ptr n, msize n) # bs2"
    using assms(1) by (auto simp: alloc_ok_def)
  moreover have "bpath t' (i # path) n" using n(1) c'(1) by (simp add: bpath_Cons)
  moreover have "\<exists>bs1 bs2. blocks t = bs1 @ bs2 \<and> blocks t' = bs1 @ (ptr n, msize n) # bs2"
  proof (cases i)
    case True
    then show ?thesis using n assms(2,3,13)
      by (intro exI [of _ "blocks a @ bs1"] exI [of _ bs2]) simp
  next
    case False
    then show ?thesis using n assms(2,3,13)
      by (intro exI [of _ bs1] exI [of _ "bs2 @ blocks b"]) simp
  qed
  ultimately show ?thesis using c'(3) assms(2,14-16) by (auto simp: alloc_ok_def)
qed

definition new_children :: "mnode \<Rightarrow> mnode" where
  "new_children t = (case t of MNode _ _ al ix sz p \<Rightarrow>
     MNode (Some (MNode None None False 0 (drop_bit 1 sz) p))
           (Some (MNode None None False 1 (drop_bit 1 sz) (p + unat (drop_bit 1 sz)))) al ix sz p)"

lemma mem_split_ok: "(\<And>j. ora j) \<Longrightarrow> mem_split ora k t = (True, new_children t, k + 2)"
  by (cases t) (simp add: mem_split_def new_children_def ixmap_mnode_alloc_def Let_def set_child_def)

lemma mem_alloc_down:
  assumes "\<not> drop_bit 1 (msize t) < req"
    "(if \<not> allocated t then mem_split ora k t else (True, t, k)) = (True, MNode (Some a) (Some b) al ix sz p, k1)"
  shows "mem_alloc (Suc f) ora k t req =
    (case mem_alloc f ora k1 a req of
       None \<Rightarrow> None
     | Some (Some r, a1, k2) \<Rightarrow> Some (Some (False # r), MNode (Some a1) (Some b) True ix sz p, k2)
     | Some (None, a1, k2) \<Rightarrow>
         (case mem_alloc f ora k2 b req of
            None \<Rightarrow> None
          | Some (Some r, b1, k3) \<Rightarrow> Some (Some (True # r), MNode (Some a1) (Some b1) True ix sz p, k3)
          | Some (None, b1, k3) \<Rightarrow> Some (None, MNode (Some a1) (Some b1) al ix sz p, k3)))"
  using assms(1) unfolding mem_alloc.simps assms(2)
  by (auto simp: set_child_def set_allocated_def split: option.splits)

text \<open>The outcome of a call: a block when the request fits, and otherwise nothing changes.\<close>

definition alloc_spec :: "nat \<Rightarrow> (nat \<Rightarrow> bool) \<Rightarrow> nat \<Rightarrow> mnode \<Rightarrow> u32 \<Rightarrow> bool" where
  "alloc_spec f ora k t req \<longleftrightarrow> (\<exists>k'. if fits req t
     then \<exists>path t'. mem_alloc f ora k t req = Some (Some path, t', k') \<and> alloc_ok req t path t'
     else mem_alloc f ora k t req = Some (None, t, k'))"

lemma alloc_spec_here:
  assumes "mwf t" "drop_bit 1 (msize t) < req"
  shows "alloc_spec (Suc f) ora k t req"
  using assms(1)
proof (cases rule: mwf_cases)
  case (leaf al ix sz p)
  then show ?thesis using assms(2) by (auto simp: alloc_spec_def alloc_ok_def set_allocated_def bpath_def)
next
  case (node a b ix sz p)
  then have "\<not> fits req t" using assms(2) fits_size [of a req] fits_size [of b req] by auto
  then show ?thesis using assms(2) node(1) by (simp add: alloc_spec_def)
qed

lemma alloc_spec_split:
  assumes "\<And>j. ora j" "\<not> drop_bit 1 sz < req" "t = MNode None None False ix sz p"
    "a = MNode None None False 0 (drop_bit 1 sz) p" "alloc_spec f ora (k + 2) a req"
  shows "alloc_spec (Suc f) ora k t req"
proof -
  let ?b = "MNode None None False 1 (drop_bit 1 sz) (p + unat (drop_bit 1 sz))"
  have fa: "fits req a" "fits req t" using assms(2-4) half_le [of sz] by auto
  then obtain path a' k' where a': "mem_alloc f ora (k + 2) a req = Some (Some path, a', k')" "alloc_ok req a path a'"
    using assms(5) by (auto simp: alloc_spec_def)
  let ?t' = "MNode (Some a') (Some ?b) True ix sz p"
  have "alloc_ok req t (False # path) ?t'"
    by (rule alloc_ok_child [OF a'(2) refl, where a = a and b = ?b])
       (use assms(3,4) in \<open>simp_all add: merge_at_def Let_def child_def set_child_def set_allocated_def ixmap_mnode_release_def\<close>)
  moreover have "mem_alloc (Suc f) ora k t req = Some (Some (False # path), ?t', k')"
    using mem_alloc_down [of t req ora k a ?b False ix sz p "k + 2" f] a'(1) assms(2-4)
    by (simp add: mem_split_ok assms(1) new_children_def)
  ultimately show ?thesis using fa by (auto simp: alloc_spec_def)
qed

lemma alloc_spec_node:
  assumes "\<not> drop_bit 1 sz < req" "mwf t" "t = MNode (Some a) (Some b) True ix sz p"
    "\<And>k. alloc_spec f ora k a req" "\<And>k. alloc_spec f ora k b req"
  shows "alloc_spec (Suc f) ora k t req"
proof -
  note down = mem_alloc_down [of t req ora k a b True ix sz p k f]
  have wf: "mwf a" "mwf b" "allocated a \<or> allocated b" "index a = 0" "index b = 1" "msize a = drop_bit 1 sz"
    "msize b = drop_bit 1 sz" "ptr a = p" "ptr b = p + unat (drop_bit 1 sz)" using assms(2,3) by auto
  have merge: "merge_at i c (set_child i (Some c') t) = Some t" if "child t i = Some c" for i c c'
    using that wf(3) assms(3)
    by (cases i) (auto simp: merge_at_def Let_def child_def set_child_def)
  show ?thesis
  proof (cases "fits req a")
    case True
    then obtain path a' k' where a': "mem_alloc f ora k a req = Some (Some path, a', k')" "alloc_ok req a path a'"
      using assms(4) [of k] by (auto simp: alloc_spec_def)
    have "alloc_ok req t (False # path) (MNode (Some a') (Some b) True ix sz p)"
      by (rule alloc_ok_child [OF a'(2) refl, where a = a and b = b])
         (use wf assms(3) merge [of False a a'] in \<open>simp_all add: child_def set_child_def\<close>)
    then show ?thesis using down assms(1,3) a'(1) True by (auto simp: alloc_spec_def)
  next
    case False
    then obtain k2 where a: "mem_alloc f ora k a req = Some (None, a, k2)"
      using assms(4) [of k] by (auto simp: alloc_spec_def)
    show ?thesis
    proof (cases "fits req b")
      case True
      then obtain path b' k' where b': "mem_alloc f ora k2 b req = Some (Some path, b', k')" "alloc_ok req b path b'"
        using assms(5) [of k2] by (auto simp: alloc_spec_def)
      have "alloc_ok req t (True # path) (MNode (Some a) (Some b') True ix sz p)"
        by (rule alloc_ok_child [OF b'(2) refl, where a = a and b = b])
           (use wf assms(3) merge [of True b b'] in \<open>simp_all add: child_def set_child_def\<close>)
      then show ?thesis using down assms(1,3) a b'(1) True by (auto simp: alloc_spec_def)
    next
      case nb: False
      then obtain k3 where "mem_alloc f ora k2 b req = Some (None, b, k3)"
        using assms(5) [of k2] by (auto simp: alloc_spec_def)
      then show ?thesis using down assms(1,3) a False nb by (simp add: alloc_spec_def)
    qed
  qed
qed

lemma mem_alloc_correct:
  assumes "\<And>j. ora j" "mwf t" "0 < req" "unat (msize t) < 2 ^ f"
  shows "alloc_spec (Suc f) ora k t req"
  using assms(2,4)
proof (induction f arbitrary: t k)
  case 0
  then have "msize t = 0" by (simp add: unat_eq_zero)
  then show ?case using 0 assms(3) by (intro alloc_spec_here) auto
next
  case (Suc f)
  show ?case
  proof (cases "drop_bit 1 (msize t) < req")
    case True
    then show ?thesis by (rule alloc_spec_here [OF Suc.prems(1)])
  next
    case False
    from Suc.prems(1) show ?thesis
    proof (cases rule: mwf_cases)
      case (leaf al ix sz p)
      show ?thesis
      proof (cases al)
        case True
        then show ?thesis using False leaf by (simp add: alloc_spec_def)
      next
        case al: False
        show ?thesis
          by (rule alloc_spec_split [OF assms(1), of sz req t ix p, OF _ _ refl Suc.IH])
             (use False leaf al Suc.prems(2) in \<open>simp_all add: unat_half\<close>)
      qed
    next
      case (node a b ix sz p)
      have "unat (msize a) < 2 ^ f" "unat (msize b) < 2 ^ f" using node Suc.prems(2) by (simp_all add: unat_half)
      then show ?thesis
        using alloc_spec_node [OF _ Suc.prems(1) node(1) Suc.IH Suc.IH] node False by simp
    qed
  qed
qed

lemma mwf_free_leaf:
  assumes "mwf t" "\<not> allocated t"
  shows "child0 t = None" "child1 t = None" "blocks t = []" "\<not> bpath t path n"
proof -
  obtain ix sz p where t: "t = MNode None None False ix sz p"
    using assms by (cases rule: mwf_cases) auto
  then show "child0 t = None" "child1 t = None" "blocks t = []" by simp_all
  show "\<not> bpath t path n" using t by (cases path) (auto simp: bpath_def child_def)
qed

lemma bpath_allocated:
  assumes "mwf t" "bpath t path n"
  shows "allocated t"
  using assms mwf_free_leaf(4) by blast

definition free_ok :: "mnode \<Rightarrow> bool list \<Rightarrow> mnode \<Rightarrow> mnode \<Rightarrow> bool" where
  "free_ok t path n t' \<longleftrightarrow> mwf t' \<and> index t' = index t \<and> msize t' = msize t \<and> ptr t' = ptr t \<and>
     (\<exists>bs1 bs2. blocks t = bs1 @ (ptr n, msize n) # bs2 \<and> blocks t' = bs1 @ bs2) \<and>
     (\<forall>p2 m. bpath t' p2 m \<longleftrightarrow> p2 \<noteq> path \<and> bpath t p2 m)"

lemma bpath_node:
  "bpath (MNode (Some a) (Some b) al ix sz p) path n \<longleftrightarrow>
     (\<exists>i ps. path = i # ps \<and> bpath (if i then b else a) ps n)"
  by (cases path) (auto simp: bpath_def child_def)

lemma free_ok_child:
  assumes "t = MNode (Some a) (Some b) True ix sz p" "mwf t" "free_ok c ps n c'"
    "c = (if i then b else a)" "t' = set_child i (Some c') t" "allocated c' \<or> allocated (if i then a else b)"
  shows "free_ok t (i # ps) n t'"
proof -
  let ?a = "if i then a else c'" and ?b = "if i then c' else b"
  have t': "t' = MNode (Some ?a) (Some ?b) True ix sz p" using assms(1,5) by (simp add: set_child_def)
  have "mwf t'" using t' assms by (auto simp: free_ok_def)
  moreover obtain bs1 bs2 where bs: "blocks c = bs1 @ (ptr n, msize n) # bs2" "blocks c' = bs1 @ bs2"
    using assms(3) by (auto simp: free_ok_def)
  have "\<exists>bs1 bs2. blocks t = bs1 @ (ptr n, msize n) # bs2 \<and> blocks t' = bs1 @ bs2"
  proof (cases i)
    case True
    then show ?thesis using bs assms(1,4) t' by (intro exI [of _ "blocks a @ bs1"] exI [of _ bs2]) simp
  next
    case False
    then show ?thesis using bs assms(1,4) t' by (intro exI [of _ bs1] exI [of _ "bs2 @ blocks b"]) simp
  qed
  moreover have "bpath t' p2 m \<longleftrightarrow> p2 \<noteq> i # ps \<and> bpath t p2 m" for p2 m
    using assms(3,4) unfolding t' assms(1) bpath_node by (auto simp: free_ok_def split: if_splits)
  ultimately show ?thesis using assms(1) t' by (simp add: free_ok_def)
qed

lemma free_ok_merge:
  assumes "t = MNode (Some a) (Some b) True ix sz p" "mwf t" "free_ok c ps n c'"
    "c = (if i then b else a)" "\<not> allocated c'" "\<not> allocated (if i then a else b)"
  shows "free_ok t (i # ps) n (MNode None None False ix sz p)"
proof -
  let ?o = "if i then a else b"
  have o: "blocks ?o = []" "\<And>ps n. \<not> bpath ?o ps n" and c': "blocks c' = []" "\<And>ps n. \<not> bpath c' ps n"
    using mwf_free_leaf(3,4) [of ?o] mwf_free_leaf(3,4) [of c'] assms(1-3,5,6) by (auto simp: free_ok_def)
  have "blocks c = [(ptr n, msize n)]" using assms(3) c'(1) by (auto simp: free_ok_def)
  then have "blocks t = [(ptr n, msize n)]" using o(1) assms(1,4) by (cases i) auto
  moreover have "\<not> (p2 \<noteq> i # ps \<and> bpath t p2 m)" for p2 m
    using assms(3,4) o(2) c'(2) unfolding assms(1) bpath_node by (auto simp: free_ok_def split: if_splits)
  moreover have "\<not> bpath (MNode None None False ix sz p) p2 m" for p2 m
    by (rule mwf_free_leaf(4)) simp_all
  ultimately show ?thesis using assms(1) by (simp add: free_ok_def)
qed

lemma mem_free_correct:
  assumes "mwf t" "bpath t path n"
  shows "\<exists>t'. mem_free (rev path) t = Some t' \<and> free_ok t path n t'"
  using assms
proof (induction path arbitrary: t)
  case Nil
  then obtain ix sz p where t: "t = MNode None None True ix sz p" "n = t"
    by (cases rule: mwf_cases) (auto simp: bpath_def)
  have "bpath t p2 m \<longleftrightarrow> p2 = [] \<and> m = t" for p2 m using t by (cases p2) (auto simp: bpath_def child_def)
  moreover have "\<not> bpath (MNode None None False ix sz p) p2 m" for p2 m
    by (rule mwf_free_leaf(4)) simp_all
  ultimately show ?case using t by (auto simp: free_ok_def set_allocated_def)
next
  case (Cons i ps)
  from Cons.prems(1) show ?case
  proof (cases rule: mwf_cases)
    case leaf
    then show ?thesis using Cons.prems(2) by (cases i) (simp_all add: bpath_def child_def)
  next
    case (node a b ix sz p)
    define c where "c = (if i then b else a)"
    have c: "child t i = Some c" "mwf c" using node by (auto simp: c_def child_def)
    have "bpath c ps n" using Cons.prems(2) c(1) by (simp add: bpath_Cons)
    then obtain c' where c': "mem_free (rev ps) c = Some c'" "free_ok c ps n c'" "allocated c"
      using Cons.IH c(2) bpath_allocated by blast
    have m: "mem_free (rev (i # ps)) t = merge_at i c' t" using mem_free_snoc [OF c(1) c'(3,1)] by simp
    let ?o = "if i then a else b"
    have o: "child t (\<not> i) = Some ?o" using node(1) by (auto simp: child_def)
    show ?thesis
    proof (cases "allocated c' \<or> allocated ?o")
      case True
      then have "merge_at i c' t = Some (set_child i (Some c') t)" using o by (auto simp: merge_at_def Let_def)
      then show ?thesis using m free_ok_child [OF node(1) Cons.prems(1) c'(2) c_def refl True] by simp
    next
      case False
      then have "merge_at i c' t = Some (MNode None None False ix sz p)"
        using o node(1) by (cases i) (auto simp: merge_at_def Let_def set_child_def set_allocated_def ixmap_mnode_release_def)
      then show ?thesis using m free_ok_merge [OF node(1) Cons.prems(1) c'(2) c_def] False by simp
    qed
  qed
qed

lemma bpath_blocks: "mwf t \<Longrightarrow> bpath t path n \<Longrightarrow> (ptr n, msize n) \<in> set (blocks t)"
  using mem_free_correct [of t path n] by (auto simp: free_ok_def)

lemma blocks_bpath: "mwf t \<Longrightarrow> (q, s) \<in> set (blocks t) \<Longrightarrow> \<exists>path n. bpath t path n \<and> q = ptr n \<and> s = msize n"
proof (induction t rule: mwf.induct)
  case (1 al ix sz p)
  then show ?case by (intro exI [of _ "[]"]) (auto simp: bpath_def split: if_splits)
next
  case (2 a b al ix sz p)
  let ?t = "MNode (Some a) (Some b) al ix sz p"
  have up: "bpath ?t (i # path) n" if "bpath (if i then b else a) path n" for i path n
    using that by (simp add: bpath_node)
  from 2(4) consider "(q, s) \<in> set (blocks a)" | "(q, s) \<in> set (blocks b)" by auto
  then show ?case
  proof cases
    case 1
    then show ?thesis using 2(1) [OF _ 1] 2(3) up [of False] by fastforce
  next
    case 2
    then show ?thesis using \<open>mwf ?t\<close> "2.IH"(2) [OF _ 2] up [of True] by fastforce
  qed
qed auto

lemma bpath_disjoint:
  assumes "mwf t" "bpath t p1 n1" "bpath t p2 n2" "p1 \<noteq> p2"
  shows "ptr n1 + unat (msize n1) \<le> ptr n2 \<or> ptr n2 + unat (msize n2) \<le> ptr n1"
  using assms
proof (induction p1 arbitrary: t p2)
  case Nil
  then show ?case by (cases p2; cases rule: mwf_cases) (auto simp: bpath_def child_def split: if_splits)
next
  case (Cons i ps)
  from Cons.prems(1) show ?case
  proof (cases rule: mwf_cases)
    case leaf
    then show ?thesis using Cons.prems(2) by (cases i) (simp_all add: bpath_def child_def)
  next
    case (node a b ix sz p)
    obtain j qs where p2: "p2 = j # qs" "bpath (if j then b else a) qs n2" and b1: "bpath (if i then b else a) ps n1"
      using Cons.prems(2,3) unfolding node(1) bpath_node by auto
    have r: "ptr c \<le> ptr n \<and> ptr n + unat (msize n) \<le> ptr c + unat (msize c)" if "mwf c" "bpath c path n" for c path n
      using blocks_in_range [OF that(1) bpath_blocks [OF that]] .
    show ?thesis
    proof (cases "i = j")
      case True
      then show ?thesis using Cons.IH [of "if i then b else a" qs] p2 b1 Cons.prems(4) node(2,3) by auto
    next
      case False
      then show ?thesis using r [OF _ p2(2)] r [OF _ b1] node by (cases i; cases j) auto
    qed
  qed
qed

section \<open>The interface of an allocator\<close>

text \<open>
  What the tables of the forwarder use: an allocation returns an address that is not in use, or fails
  and changes nothing that is in use; an address in use can be released once.
\<close>

locale allocator =
  fixes inv :: "'s \<Rightarrow> bool"
    and live :: "'s \<Rightarrow> addr set"
    and ok_size :: "u32 \<Rightarrow> bool"
    and alloc :: "'s \<Rightarrow> u32 \<Rightarrow> (addr option \<times> 's) option"
    and free :: "'s \<Rightarrow> addr \<Rightarrow> 's option"
  assumes alloc_law: "\<lbrakk>inv s; ok_size n\<rbrakk> \<Longrightarrow> \<exists>r s'. alloc s n = Some (r, s') \<and> inv s' \<and>
      (case r of None \<Rightarrow> live s' = live s | Some a \<Rightarrow> a \<noteq> 0 \<and> a \<notin> live s \<and> live s' = insert a (live s))"
    and free_law: "\<lbrakk>inv s; a \<in> live s\<rbrakk> \<Longrightarrow> \<exists>s'. free s a = Some s' \<and> inv s' \<and> live s' = live s - {a}"
begin

lemma alloc_cases:
  assumes "inv s" "ok_size n"
  obtains (fail) s' where "alloc s n = Some (None, s')" "inv s'" "live s' = live s"
  | (ok) a s' where "alloc s n = Some (Some a, s')" "inv s'" "a \<noteq> 0" "a \<notin> live s" "live s' = insert a (live s)"
proof -
  obtain r s' where r: "alloc s n = Some (r, s')" "inv s'"
    "case r of None \<Rightarrow> live s' = live s | Some a \<Rightarrow> a \<noteq> 0 \<and> a \<notin> live s \<and> live s' = insert a (live s)"
    using alloc_law [OF assms] by blast
  show thesis using r fail ok by (cases r) auto
qed

lemma alloc_free:
  assumes "inv s" "ok_size n" "alloc s n = Some (Some a, s')"
  shows "\<exists>s''. free s' a = Some s'' \<and> inv s'' \<and> live s'' = live s"
  using assms(1,2)
proof (cases rule: alloc_cases)
  case (ok a' t)
  then show ?thesis using free_law [of t a'] assms(3) by auto
qed (use assms(3) in simp)

end

text \<open>
  A well-formed area, and one for which in addition no further call of libnuma fails.  The second condition
  is on the environment: after a failing call \<open>_ixmap_mem_alloc\<close> may leave a free node with children
  (lemma \<open>mem_alloc_overlap_after_numa_failure\<close>), which the first excludes.
\<close>

definition mem_wf :: "mem_state \<Rightarrow> bool" where
  "mem_wf s \<longleftrightarrow> mwf (root s) \<and>
     (\<forall>path n. bpath (root s) path n \<longrightarrow> headers s (ptr n) = Some path \<and> 0 < msize n)"

definition numa_never_fails :: "mem_state \<Rightarrow> bool" where
  "numa_never_fails s \<longleftrightarrow> (\<forall>j. numa s j)"

definition mem_inv :: "mem_state \<Rightarrow> bool" where
  "mem_inv s \<longleftrightarrow> numa_never_fails s \<and> mem_wf s"

lemmas mem_inv_defs = mem_inv_def mem_wf_def numa_never_fails_def

definition mem_live :: "mem_state \<Rightarrow> addr set" where
  "mem_live s = {ptr n + mem_header_size | path n. bpath (root s) path n}"

definition mem_ok_size :: "u32 \<Rightarrow> bool" where
  "mem_ok_size n \<longleftrightarrow> n \<le> 0xFFFFFF80"

lemma mem_header_size_eq [simp]: "mem_header_size = 64"
  by (simp add: mem_header_size_def ALIGN_def L1_CACHE_BYTES_def)

lemma unat_mem_request:
  assumes "mem_ok_size n"
  shows "unat (mem_request n) = (unat n + 63) div 64 * 64 + 64"
proof -
  have n: "unat n \<le> 4294967168" using assms by (simp add: mem_ok_size_def word_le_nat_alt)
  have "unat (ALIGN n L1_CACHE_BYTES) = (unat n + 2 ^ 6 - 1) div 2 ^ 6 * 2 ^ 6"
    using n by (intro unat_ALIGN) (simp_all add: L1_CACHE_BYTES_def)
  then have a: "unat (ALIGN n L1_CACHE_BYTES) = (unat n + 63) div 64 * 64" by simp
  then have lt: "unat (ALIGN n L1_CACHE_BYTES) + 64 < 4294967296" using n by simp
  have "ALIGN (8 :: u64) (ucast L1_CACHE_BYTES) = 64" by (simp add: ALIGN_def L1_CACHE_BYTES_def)
  moreover have "unat (ucast (ALIGN n L1_CACHE_BYTES) + 64 :: u64) = unat (ALIGN n L1_CACHE_BYTES) + 64"
    using lt by (subst unat_plus_no_wrap) simp_all
  ultimately show ?thesis using lt a by (simp add: mem_request_def unat_ucast_mod)
qed

lemma mem_request_pos: "mem_ok_size n \<Longrightarrow> 0 < mem_request n"
  by (simp add: word_less_nat_alt unat_mem_request)

lemma mem_alloc_fuel_ok:
  assumes "mem_inv s" "mem_ok_size n"
  shows "alloc_spec mem_fuel (numa s) k (root s) (mem_request n)"
proof -
  have "unat (msize (root s)) < 2 ^ 32" using unat_bound_u32 [of "msize (root s)"] by simp
  then show ?thesis
    using mem_alloc_correct [of "numa s" "root s" "mem_request n" 32 k] assms mem_request_pos
    by (simp add: mem_inv_defs mem_fuel_def)
qed

lemma alloc_ok_bpaths:
  assumes "alloc_ok req t path t'"
  obtains n where "bpath t' path n" "req \<le> msize n" "drop_bit 1 (msize n) < req"
    "\<forall>p2 m. bpath t p2 m \<longleftrightarrow> p2 \<noteq> path \<and> bpath t' p2 m"
    "\<exists>bs1 bs2. blocks t = bs1 @ bs2 \<and> blocks t' = bs1 @ (ptr n, msize n) # bs2"
proof -
  obtain n where n: "bpath t' path n" "req \<le> msize n" "drop_bit 1 (msize n) < req"
    "\<exists>bs1 bs2. blocks t = bs1 @ bs2 \<and> blocks t' = bs1 @ (ptr n, msize n) # bs2"
    using assms unfolding alloc_ok_def by blast
  have "free_ok t' path n t"
    using mem_free_correct [OF _ n(1)] assms by (auto simp: alloc_ok_def)
  then have "\<forall>p2 m. bpath t p2 m \<longleftrightarrow> p2 \<noteq> path \<and> bpath t' p2 m" by (simp add: free_ok_def)
  then show thesis using that [OF n(1-3) _ n(4)] by simp
qed

lemma ixmap_mem_alloc_fail:
  assumes "mem_inv s" "mem_ok_size n" "\<not> fits (mem_request n) (root s)"
  shows "\<exists>k. ixmap_mem_alloc s n = Some (None, s\<lparr>numa_calls := k\<rparr>)"
  using mem_alloc_fuel_ok [OF assms(1,2), of "numa_calls s"] assms(3)
  by (auto simp: alloc_spec_def ixmap_mem_alloc_def)

lemma ixmap_mem_alloc_fits:
  assumes "mem_inv s" "mem_ok_size n" "fits (mem_request n) (root s)"
  obtains path t m k where "alloc_ok (mem_request n) (root s) path t" "bpath t path m"
    "ixmap_mem_alloc s n = Some (Some (ptr m + 64),
       s\<lparr>root := t, numa_calls := k, headers := (headers s)(ptr m \<mapsto> path)\<rparr>)"
proof -
  obtain path t k where a: "mem_alloc mem_fuel (numa s) (numa_calls s) (root s) (mem_request n) = Some (Some path, t, k)"
      "alloc_ok (mem_request n) (root s) path t"
    using mem_alloc_fuel_ok [OF assms(1,2), of "numa_calls s"] assms(3) by (auto simp: alloc_spec_def)
  obtain m where m: "bpath t path m" using a(2) by (auto simp: alloc_ok_def)
  show thesis by (rule that [OF a(2) m]) (use a(1) m in \<open>simp add: ixmap_mem_alloc_def bpath_def\<close>)
qed

lemma bpath_ptr_inj:
  assumes "mwf t" "bpath t p1 n1" "bpath t p2 n2" "ptr n1 = ptr n2" "0 < msize n1" "0 < msize n2"
  shows "p1 = p2"
proof (rule ccontr)
  assume "p1 \<noteq> p2"
  from bpath_disjoint [OF assms(1-3) this] show False using assms(4-6) by (simp add: word_less_nat_alt)
qed

lemma mem_inv_alloc:
  assumes "mem_inv s" "mem_ok_size n" "alloc_ok (mem_request n) (root s) path t" "bpath t path m"
  shows "mem_inv (s\<lparr>root := t, numa_calls := k, headers := (headers s)(ptr m \<mapsto> path)\<rparr>)"
proof -
  obtain m' where m: "bpath t path m'" "mem_request n \<le> msize m'" "drop_bit 1 (msize m') < mem_request n"
      "\<forall>p2 n2. bpath (root s) p2 n2 \<longleftrightarrow> p2 \<noteq> path \<and> bpath t p2 n2"
      "\<exists>bs1 bs2. blocks (root s) = bs1 @ bs2 \<and> blocks t = bs1 @ (ptr m', msize m') # bs2"
    using alloc_ok_bpaths [OF assms(3)] .
  have m': "m' = m" using m(1) assms(4) by (simp add: bpath_def)
  have pos: "0 < msize m" using mem_request_pos [OF assms(2)] m(2) m' by (simp add: order.strict_trans2)
  have wf: "mwf t" using assms(3) by (simp add: alloc_ok_def)
  have "((headers s)(ptr m \<mapsto> path)) (ptr n2) = Some p2 \<and> 0 < msize n2" if "bpath t p2 n2" for p2 n2
  proof (cases "p2 = path")
    case True
    then have "n2 = m" using that assms(4) by (simp add: bpath_def)
    then show ?thesis using pos True by simp
  next
    case False
    then have "headers s (ptr n2) = Some p2" "0 < msize n2"
      using m(4) that assms(1) by (auto simp: mem_inv_defs)
    then show ?thesis using bpath_ptr_inj [OF wf that assms(4)] pos False by auto
  qed
  then show ?thesis using assms(1) wf by (simp add: mem_inv_defs)
qed

lemma mem_live_iff: "x \<in> mem_live s \<longleftrightarrow> (\<exists>path n. bpath (root s) path n \<and> x = ptr n + 64)"
  by (auto simp: mem_live_def)

lemma mem_live_alloc:
  assumes "mem_inv s" "mem_ok_size n" "alloc_ok (mem_request n) (root s) path t" "bpath t path m"
    "root s' = t"
  shows "ptr m + 64 \<notin> mem_live s" "mem_live s' = insert (ptr m + 64) (mem_live s)"
proof -
  have b: "bpath (root s) p2 n2 \<longleftrightarrow> p2 \<noteq> path \<and> bpath t p2 n2" for p2 n2
    by (rule alloc_ok_bpaths [OF assms(3)]) simp
  have m: "n2 = m" if "bpath t path n2" for n2 using that assms(4) by (simp add: bpath_def)
  have wf: "mwf t" using assms(3) by (simp add: alloc_ok_def)
  have "mem_inv (s\<lparr>root := t, numa_calls := 0, headers := (headers s)(ptr m \<mapsto> path)\<rparr>)"
    using mem_inv_alloc [OF assms(1-4)] .
  then have pos: "0 < msize n2" if "bpath t p2 n2" for p2 n2 using that by (auto simp: mem_inv_defs)
  show "ptr m + 64 \<notin> mem_live s"
  proof
    assume "ptr m + 64 \<in> mem_live s"
    then obtain p2 n2 where n2: "bpath (root s) p2 n2" "ptr m = ptr n2" by (auto simp: mem_live_def)
    then have "bpath t p2 n2" "p2 \<noteq> path" using b by auto
    then show False using bpath_ptr_inj [OF wf assms(4), of p2 n2] n2(2) pos assms(4) by blast
  qed
  have "x \<in> mem_live s' \<longleftrightarrow> x \<in> insert (ptr m + 64) (mem_live s)" for x
  proof -
    have "x \<in> mem_live s' \<longleftrightarrow> (\<exists>p2 n2. bpath t p2 n2 \<and> x = ptr n2 + 64)" using assms(5) by (auto simp: mem_live_def)
    also have "\<dots> \<longleftrightarrow> x = ptr m + 64 \<or> (\<exists>p2 n2. p2 \<noteq> path \<and> bpath t p2 n2 \<and> x = ptr n2 + 64)"
      by (metis m assms(4))
    finally show ?thesis using b by (auto simp: mem_live_def)
  qed
  then show "mem_live s' = insert (ptr m + 64) (mem_live s)" by blast
qed

lemma ixmap_mem_free_live:
  assumes "mem_wf s" "bpath (root s) path n"
  shows "\<exists>t. ixmap_mem_free s (ptr n + 64) = Some (s\<lparr>root := t\<rparr>) \<and> free_ok (root s) path n t \<and>
    mem_free (rev path) (root s) = Some t"
proof -
  have "headers s (ptr n) = Some path" "get_at path (root s) = Some n" "mwf (root s)"
    using assms by (auto simp: mem_wf_def bpath_def)
  then show ?thesis using mem_free_correct [OF _ assms(2)] by (auto simp: ixmap_mem_free_def)
qed

lemma mem_wf_free:
  assumes "mem_wf s" "free_ok (root s) path n t"
  shows "mem_wf (s\<lparr>root := t\<rparr>)"
  using assms by (auto simp: mem_wf_def free_ok_def)

lemma mem_live_free:
  assumes "mem_wf s" "bpath (root s) path n" "free_ok (root s) path n t"
  shows "mem_live (s\<lparr>root := t\<rparr>) = mem_live s - {ptr n + 64}"
proof -
  have "p2 = path" if "bpath (root s) p2 n2" "ptr n2 = ptr n" for p2 n2
    using bpath_ptr_inj [of "root s" p2 n2 path n] assms(1,2) that by (auto simp: mem_wf_def)
  moreover have "n2 = n" if "bpath (root s) path n2" for n2 using that assms(2) by (simp add: bpath_def)
  ultimately have "ptr n2 = ptr n \<longleftrightarrow> p2 = path" if "bpath (root s) p2 n2" for p2 n2 using that by blast
  moreover have "bpath t p2 n2 \<longleftrightarrow> p2 \<noteq> path \<and> bpath (root s) p2 n2" for p2 n2 using assms(3) by (simp add: free_ok_def)
  ultimately have "(\<exists>p2 n2. bpath t p2 n2 \<and> x = ptr n2 + 64) \<longleftrightarrow>
      (\<exists>p2 n2. bpath (root s) p2 n2 \<and> x = ptr n2 + 64) \<and> x \<noteq> ptr n + 64" for x
    by (metis add_right_cancel)
  then show ?thesis by (simp add: set_eq_iff mem_live_iff)
qed

lemma mem_inv_wf: "mem_inv s \<Longrightarrow> mem_wf s"
  by (simp add: mem_inv_def)

lemma mem_inv_free: "mem_inv s \<Longrightarrow> free_ok (root s) path n t \<Longrightarrow> mem_inv (s\<lparr>root := t\<rparr>)"
  using mem_wf_free by (simp add: mem_inv_def numa_never_fails_def)

interpretation buddy: allocator mem_inv mem_live mem_ok_size ixmap_mem_alloc ixmap_mem_free
proof unfold_locales
  fix s n
  assume s: "mem_inv s" "mem_ok_size n"
  show "\<exists>r s'. ixmap_mem_alloc s n = Some (r, s') \<and> mem_inv s' \<and>
    (case r of None \<Rightarrow> mem_live s' = mem_live s
     | Some a \<Rightarrow> a \<noteq> 0 \<and> a \<notin> mem_live s \<and> mem_live s' = insert a (mem_live s))"
  proof (cases "fits (mem_request n) (root s)")
    case True
    then obtain path t m k where a: "alloc_ok (mem_request n) (root s) path t" "bpath t path m"
      "ixmap_mem_alloc s n = Some (Some (ptr m + 64),
         s\<lparr>root := t, numa_calls := k, headers := (headers s)(ptr m \<mapsto> path)\<rparr>)"
      using ixmap_mem_alloc_fits [OF s] by blast
    show ?thesis
      using a(3) mem_inv_alloc [OF s a(1,2)]
        mem_live_alloc [OF s a(1,2), of "s\<lparr>root := t, numa_calls := k, headers := (headers s)(ptr m \<mapsto> path)\<rparr>"]
      by simp
  next
    case False
    then obtain k where "ixmap_mem_alloc s n = Some (None, s\<lparr>numa_calls := k\<rparr>)"
      using ixmap_mem_alloc_fail [OF s] by blast
    moreover have "mem_inv (s\<lparr>numa_calls := k\<rparr>)" using s(1) by (auto simp: mem_inv_defs)
    ultimately show ?thesis by (simp add: mem_live_def)
  qed
next
  fix s a
  assume s: "mem_inv s" "a \<in> mem_live s"
  then obtain path n where n: "bpath (root s) path n" "a = ptr n + 64" by (auto simp: mem_live_def)
  obtain t where t: "ixmap_mem_free s a = Some (s\<lparr>root := t\<rparr>)" "free_ok (root s) path n t"
    using ixmap_mem_free_live [OF mem_inv_wf [OF s(1)] n(1)] n(2) by blast
  then show "\<exists>s'. ixmap_mem_free s a = Some s' \<and> mem_inv s' \<and> mem_live s' = mem_live s - {a}"
    using mem_inv_free [OF s(1)] mem_live_free [OF mem_inv_wf [OF s(1)] n(1)] n(2) by auto
qed

section \<open>Properties\<close>

text \<open>
  C12.  As long as no call of libnuma fails, \<open>ixmap_mem_alloc\<close> returns for every request up to \<open>0xFFFFFF80\<close>
  bytes on a well-formed area.  It fails exactly when no free node is large enough, and then leaves the tree as it was.
  Otherwise the new block lies inside the managed area, starts 64 bytes before the returned address, has
  room for the request and its header and is less than twice as large as that needs; all blocks handed
  out before are still there, and all blocks are disjoint.
\<close>

theorem ixmap_mem_alloc_correct:
  assumes "mem_wf s" "numa_never_fails s" "n \<le> 0xFFFFFF80"
  shows "\<exists>r s'. ixmap_mem_alloc s n = Some (r, s') \<and> mem_wf s' \<and> numa s' = numa s \<and>
    (case r of
       None \<Rightarrow> \<not> fits (mem_request n) (root s) \<and> root s' = root s
     | Some a \<Rightarrow> \<exists>q sz bs1 bs2. a = q + 64 \<and> fits (mem_request n) (root s) \<and>
         blocks (root s) = bs1 @ bs2 \<and> blocks (root s') = bs1 @ (q, sz) # bs2 \<and>
         unat n + 64 \<le> unat sz \<and> drop_bit 1 sz < mem_request n \<and>
         ptr (root s) \<le> q \<and> q + unat sz \<le> ptr (root s) + unat (msize (root s)) \<and>
         sorted_wrt (\<lambda>(q, s) (q', s'). q + unat s \<le> q') (blocks (root s')))"
proof -
  have inv: "mem_inv s" using assms(1,2) by (simp add: mem_inv_def)
  have ok: "mem_ok_size n" using assms(3) by (simp add: mem_ok_size_def)
  show ?thesis
  proof (cases "fits (mem_request n) (root s)")
    case True
    then obtain path t m k where a: "alloc_ok (mem_request n) (root s) path t" "bpath t path m"
        "ixmap_mem_alloc s n = Some (Some (ptr m + 64),
           s\<lparr>root := t, numa_calls := k, headers := (headers s)(ptr m \<mapsto> path)\<rparr>)"
      using ixmap_mem_alloc_fits [OF inv ok] by blast
    obtain m' where m: "bpath t path m'" "mem_request n \<le> msize m'" "drop_bit 1 (msize m') < mem_request n"
        "\<forall>p2 n2. bpath (root s) p2 n2 \<longleftrightarrow> p2 \<noteq> path \<and> bpath t p2 n2"
        "\<exists>bs1 bs2. blocks (root s) = bs1 @ bs2 \<and> blocks t = bs1 @ (ptr m', msize m') # bs2"
      using alloc_ok_bpaths [OF a(1)] .
    have m': "m' = m" using m(1) a(2) by (simp add: bpath_def)
    have wf: "mwf t" "ptr t = ptr (root s)" "msize t = msize (root s)" using a(1) by (simp_all add: alloc_ok_def)
    have "unat n \<le> (unat n + 63) div 64 * 64" by linarith
    then have "unat n + 64 \<le> unat (msize m)"
      using m(2) unat_mem_request [OF ok] m' by (simp add: word_le_nat_alt)
    moreover have "ptr (root s) \<le> ptr m \<and> ptr m + unat (msize m) \<le> ptr (root s) + unat (msize (root s))"
      using blocks_in_range [OF wf(1) bpath_blocks [OF wf(1) a(2)]] wf by simp
    ultimately show ?thesis
      using a(3) mem_inv_wf [OF mem_inv_alloc [OF inv ok a(1,2)]] m(3,5) m' True blocks_disjoint [OF wf(1)] by (simp, blast)
  next
    case False
    then obtain k where "ixmap_mem_alloc s n = Some (None, s\<lparr>numa_calls := k\<rparr>)"
      using ixmap_mem_alloc_fail [OF inv ok] by blast
    moreover have "mem_wf (s\<lparr>numa_calls := k\<rparr>)" using assms(1) by (auto simp: mem_wf_def)
    ultimately show ?thesis using False by simp
  qed
qed

definition ex_mem :: mem_state where
  "ex_mem = \<lparr>root = MNode None None False 0 1024 4096, headers = Map.empty, numa = \<lambda>_. True, numa_calls = 1\<rparr>"

lemma ex_mem_wf [simp]: "mem_wf ex_mem" "numa_never_fails ex_mem"
  using mwf_free_leaf(4) [of "MNode None None False 0 1024 4096"] by (simp_all add: mem_inv_defs ex_mem_def)

lemma ex_mem_inv: "mem_inv ex_mem"
  by (simp add: mem_inv_def)

theorem ixmap_mem_alloc_correct_witness:
  "\<exists>r s'. ixmap_mem_alloc ex_mem 100 = Some (r, s') \<and> r \<noteq> None \<and> mem_wf s'"
proof -
  have "mem_request 100 = 192" by (simp add: mem_request_def ALIGN_def L1_CACHE_BYTES_def)
  then have "fits (mem_request 100) (root ex_mem)" by (simp add: ex_mem_def)
  then show ?thesis using ixmap_mem_alloc_correct [OF ex_mem_wf, of 100] by (fastforce split: option.splits)
qed

text \<open>
  C13.  As long as no call of libnuma fails and for requests up to \<open>0xFFFFFF80\<close> bytes, releasing the address
  that \<open>ixmap_mem_alloc\<close> has just returned restores the tree exactly: every split made for the allocation
  is undone.
\<close>

theorem ixmap_mem_alloc_free_roundtrip:
  assumes "mem_wf s" "numa_never_fails s" "n \<le> 0xFFFFFF80" "ixmap_mem_alloc s n = Some (Some a, s1)"
  shows "\<exists>s2. ixmap_mem_free s1 a = Some s2 \<and> root s2 = root s \<and> mem_wf s2"
proof -
  have inv: "mem_inv s" using assms(1,2) by (simp add: mem_inv_def)
  have ok: "mem_ok_size n" using assms(3) by (simp add: mem_ok_size_def)
  have "fits (mem_request n) (root s)"
  proof (rule ccontr)
    assume "\<not> fits (mem_request n) (root s)"
    from ixmap_mem_alloc_fail [OF inv ok this] show False using assms(4) by auto
  qed
  then obtain path t m k where p: "alloc_ok (mem_request n) (root s) path t" "bpath t path m"
      "ixmap_mem_alloc s n = Some (Some (ptr m + 64),
         s\<lparr>root := t, numa_calls := k, headers := (headers s)(ptr m \<mapsto> path)\<rparr>)"
    using ixmap_mem_alloc_fits [OF inv ok] by blast
  then have s1: "a = ptr m + 64" "root s1 = t" "mem_wf s1"
    using assms(4) mem_inv_wf [OF mem_inv_alloc [OF inv ok p(1,2)]] by auto
  obtain t2 where t2: "ixmap_mem_free s1 a = Some (s1\<lparr>root := t2\<rparr>)" "free_ok (root s1) path m t2"
      "mem_free (rev path) (root s1) = Some t2"
    using ixmap_mem_free_live [OF s1(3), of path m] p(2) s1(1,2) by auto
  then have "t2 = root s" using p(1) s1(2) by (simp add: alloc_ok_def)
  then show ?thesis using t2(1) mem_wf_free [OF s1(3) t2(2)] by simp
qed

text \<open>
  C14.  \<open>ixmap_mem_free\<close> of any address in use of a well-formed area succeeds, removes exactly its block and keeps every other
  block, and the tree stays well formed: a node with children always has an allocated child, so free
  buddies have been merged.
\<close>

theorem ixmap_mem_free_correct:
  assumes "mem_wf s" "a \<in> mem_live s"
  shows "\<exists>s' bs1 bs2 sz. ixmap_mem_free s a = Some s' \<and> mem_wf s' \<and> mem_live s' = mem_live s - {a} \<and>
    blocks (root s) = bs1 @ (a - 64, sz) # bs2 \<and> blocks (root s') = bs1 @ bs2"
proof -
  obtain path n where n: "bpath (root s) path n" "a = ptr n + 64" using assms(2) by (auto simp: mem_live_iff)
  obtain t where t: "ixmap_mem_free s a = Some (s\<lparr>root := t\<rparr>)" "free_ok (root s) path n t"
    using ixmap_mem_free_live [OF assms(1) n(1)] n(2) by blast
  then obtain bs1 bs2 where "blocks (root s) = bs1 @ (ptr n, msize n) # bs2" "blocks t = bs1 @ bs2"
    by (auto simp: free_ok_def)
  then show ?thesis
    using t mem_wf_free [OF assms(1) t(2)] mem_live_free [OF assms(1) n(1) t(2)] n(2)
    by (intro exI [of _ "s\<lparr>root := t\<rparr>"] exI [of _ bs1] exI [of _ bs2] exI [of _ "msize n"]) simp
qed

definition ex_mem_used :: mem_state where
  "ex_mem_used = ex_mem\<lparr>root := MNode None None True 0 1024 4096, headers := [4096 \<mapsto> []]\<rparr>"

lemma ex_mem_used_wf: "mem_wf ex_mem_used" "4160 \<in> mem_live ex_mem_used"
proof -
  have "bpath (root ex_mem_used) path n \<longleftrightarrow> path = [] \<and> n = root ex_mem_used" for path n
    by (cases path) (auto simp: ex_mem_used_def bpath_def child_def)
  then show "mem_wf ex_mem_used" "4160 \<in> mem_live ex_mem_used"
    by (auto simp: mem_wf_def mem_live_iff ex_mem_used_def ex_mem_def)
qed

theorem ixmap_mem_free_correct_witness:
  "\<exists>s'. ixmap_mem_free ex_mem_used 4160 = Some s' \<and> mem_wf s' \<and> mem_live s' = mem_live ex_mem_used - {4160}"
  using ixmap_mem_free_correct [OF ex_mem_used_wf] by blast

lemma mem_alloc_zero_diverges:
  "mwf t \<Longrightarrow> \<not> allocated t \<Longrightarrow> mem_alloc fuel (\<lambda>_. True) k t 0 = None"
proof (induction fuel arbitrary: k t)
  case (Suc fuel)
  obtain t1 where s: "mem_split (\<lambda>_. True) k t = (True, t1, k + 2)"
      "\<exists>a. child0 t1 = Some a \<and> \<not> allocated a \<and> mwf a"
    by (cases t) (simp add: mem_split_def ixmap_mnode_alloc_def set_child_def Let_def)
  then obtain a where "child0 t1 = Some a" "\<not> allocated a" "mwf a" by blast
  then show ?case using Suc s(1) by simp
qed simp

text \<open>
  C15.  A request of more than \<open>0xFFFFFF80\<close> and at most \<open>0xFFFFFFC0\<close> bytes does not fail: the rounded size with
  its header wraps to 0, no node is too small to be split for it, and \<open>_ixmap_mem_alloc\<close> descends without
  end while libnuma provides nodes; no bound on the recursion is enough.
\<close>

theorem mem_alloc_wrapped_request_diverges:
  assumes "0xFFFFFF80 < n" "n \<le> 0xFFFFFFC0" "\<And>j. ora j" "mwf t" "\<not> allocated t"
  shows "mem_request n = 0 \<and> mem_alloc fuel ora k t (mem_request n) = None"
proof -
  have "unat (ALIGN n L1_CACHE_BYTES) = (unat n + 63) div 64 * 64"
    using unat_ALIGN [of L1_CACHE_BYTES 6 n] assms(2) by (simp add: L1_CACHE_BYTES_def word_le_nat_alt)
  moreover have "(unat n + 63) div 64 = 67108863" using assms(1,2) by (simp add: word_less_nat_alt word_le_nat_alt)
  ultimately have "ALIGN n L1_CACHE_BYTES = 0xFFFFFFC0" by (simp add: word_unat_eq_iff)
  then have "mem_request n = 0" by (simp add: mem_request_def ALIGN_def L1_CACHE_BYTES_def)
  moreover have "ora = (\<lambda>_. True)" using assms(3) by auto
  ultimately show ?thesis using mem_alloc_zero_diverges [OF assms(4,5)] by simp
qed

theorem mem_alloc_wrapped_request_diverges_witness:
  "mem_request 0xFFFFFF90 = 0 \<and> mem_alloc 33 (\<lambda>_. True) 1 (MNode None None False 0 1024 4096) (mem_request 0xFFFFFF90) = None"
  by (rule mem_alloc_wrapped_request_diverges) simp_all

text \<open>The results of a sequence of requests.\<close>

fun mem_run :: "mem_state \<Rightarrow> u32 list \<Rightarrow> addr option list option" where
  "mem_run s [] = Some []"
| "mem_run s (n # ns) = (case ixmap_mem_alloc s n of
     None \<Rightarrow> None
   | Some (r, s') \<Rightarrow> map_option ((#) r) (mem_run s' ns))"

lemmas mem_alloc_numeral = mem_alloc.simps(2) [where fuel = "pred_numeral w", folded numeral_eq_Suc] for w

text \<open>
  Why the correctness of \<open>ixmap_mem_alloc\<close> needs libnuma not to fail.  On a fresh area, let the fourth and the fifth
  call of \<open>numa_alloc_onnode\<close> fail, and let the first request need two splits: it fails below the children
  of the root and leaves the root free but with children.  A second request for the whole area then takes
  the root, and a third one for half of it is served from the first child: both get the same address.
\<close>

lemma mem_alloc_split_fails:
  assumes "ora 1" "ora 2" "\<not> ora 3" "\<not> ora 4" "\<not> drop_bit 1 sz < req" "\<not> drop_bit 1 (drop_bit 1 sz) < req"
  shows "mem_alloc (Suc (Suc f)) ora 1 (MNode None None False 0 sz p) req =
    Some (None, MNode (Some (MNode None None False 0 (drop_bit 1 sz) p))
      (Some (MNode None None False 1 (drop_bit 1 sz) (p + unat (drop_bit 1 sz)))) False 0 sz p, 5)"
proof -
  have "mem_split ora 1 (MNode None None False 0 sz p) = (True, MNode (Some (MNode None None False 0 (drop_bit 1 sz) p))
      (Some (MNode None None False 1 (drop_bit 1 sz) (p + unat (drop_bit 1 sz)))) False 0 sz p, 3)"
    using assms(1,2) by (simp add: numeral_2_eq_2 numeral_3_eq_3 mem_split_def ixmap_mnode_alloc_def set_child_def Let_def)
  moreover have "mem_alloc (Suc f) ora j (MNode None None False i (drop_bit 1 sz) q) req = Some (None, MNode None None False i (drop_bit 1 sz) q, j + 1)"
    if "\<not> ora j" for j i q
    using that assms(6) by (simp add: mem_split_def ixmap_mnode_alloc_def set_child_def Let_def)
  ultimately show ?thesis using assms(3-5) by (simp add: set_child_def)
qed

lemma mem_alloc_overlap_after_numa_failure:
  assumes "ora 0" "ora 1" "ora 2" "\<not> ora 3" "\<not> ora 4"
    and "mem_request r1 \<le> drop_bit 1 (drop_bit 1 sz)"
    and "drop_bit 1 sz < mem_request r2" "mem_request r2 \<le> sz"
    and "drop_bit 1 (drop_bit 1 sz) < mem_request r3" "mem_request r3 \<le> drop_bit 1 sz"
  shows "Option.bind (ixmap_mem_init ora p sz) (\<lambda>s. mem_run s [r1, r2, r3]) = Some [None, Some (p + 64), Some (p + 64)]"
proof -
  let ?L = "MNode None None False 0 (drop_bit 1 sz) p" and ?R = "MNode None None False 1 (drop_bit 1 sz) (p + unat (drop_bit 1 sz))"
  let ?t = "\<lambda>b. MNode (Some ?L) (Some ?R) b 0 sz p"
  obtain f where fuel: "mem_fuel = Suc (Suc f)" using that [of 31] by (simp add: mem_fuel_def)
  have "\<not> drop_bit 1 sz < mem_request r1" "\<not> drop_bit 1 (drop_bit 1 sz) < mem_request r1"
    using assms(6) half_le [of "drop_bit 1 sz"] by auto
  then have 1: "mem_alloc mem_fuel ora 1 (MNode None None False 0 sz p) (mem_request r1) = Some (None, ?t False, 5)"
    unfolding fuel using assms(2-5) by (intro mem_alloc_split_fails)
  have 2: "mem_alloc mem_fuel ora 5 (?t False) (mem_request r2) = Some (Some [], ?t True, 5)"
    unfolding fuel mem_alloc.simps(2) using assms(7,8) by (simp add: set_allocated_def)
  have 3: "mem_alloc mem_fuel ora 5 (?t True) (mem_request r3) =
      Some (Some [False], MNode (Some (set_allocated True ?L)) (Some ?R) True 0 sz p, 5)"
    unfolding fuel using assms(9,10) by (simp add: set_allocated_def set_child_def)
  show ?thesis
    using assms(1) 1 2 3 by (simp add: ixmap_mem_init_def ixmap_mnode_alloc_def ixmap_mem_alloc_def set_allocated_def child_def)
qed

theorem ixmap_mem_alloc_free_roundtrip_witness:
  "\<exists>s1 s2 a. ixmap_mem_alloc ex_mem 100 = Some (Some a, s1) \<and> ixmap_mem_free s1 a = Some s2 \<and> root s2 = root ex_mem"
proof -
  have "mem_request 100 = 192" by (simp add: mem_request_def ALIGN_def L1_CACHE_BYTES_def)
  then have f: "fits (mem_request 100) (root ex_mem)" by (simp add: ex_mem_def)
  have ok: "mem_ok_size 100" by (simp add: mem_ok_size_def)
  obtain a s1 where a: "ixmap_mem_alloc ex_mem 100 = Some (Some a, s1)"
    by (rule ixmap_mem_alloc_fits [OF ex_mem_inv ok f]) iprover
  from a ixmap_mem_alloc_free_roundtrip [OF ex_mem_wf _ a] show ?thesis by auto
qed

end
