(* ===== verification/Heap.thy ===== *)
theory Heap
  imports Memory "HOL-Library.Monad_Syntax"
begin

text \<open>
  The memory of one forwarding thread: the allocator of its descriptor (\<open>desc->node\<close>) together with the
  objects that the tables keep in allocated memory, by address: the neighbour entries of
  \<open>src/src/neigh.h\<close> and the routes of \<open>src/src/fib.h\<close>.  Releasing an address drops the object stored there, so
  that reading it afterwards has no result (\<open>None\<close>).
\<close>

text \<open>The identifier of a route is only compared for equality, as an \<open>unsigned int\<close>: it is a word of 32 bits.\<close>

datatype fib_type = FIB_TYPE_FORWARD | FIB_TYPE_LINK | FIB_TYPE_LOCAL

record fib_entry =
  fprefix :: "u8 list"
  fprefix_len :: u32
  fnexthop :: "u8 list"
  fport_index :: int
  ftype :: fib_type
  fid :: u32
  refcount :: u32

record neigh_entry =
  dst_mac :: "u8 list"
  dst_addr :: "u8 list"

text \<open>\<open>junk a\<close> are the bytes that a block allocated at \<open>a\<close> happens to hold.\<close>

record world =
  wmem :: mem_state
  nents :: "addr \<rightharpoonup> neigh_entry"
  fibs :: "addr \<rightharpoonup> fib_entry"
  junk :: "addr \<Rightarrow> u8 list"

definition AF_INET :: int where "AF_INET = 2"
definition AF_INET6 :: int where "AF_INET6 = 10"
definition ETH_ALEN :: nat where "ETH_ALEN = 6"

definition memcpy :: "u8 list \<Rightarrow> u8 list \<Rightarrow> nat \<Rightarrow> u8 list" where
  "memcpy dst src n = take n src @ drop n dst"

definition walloc :: "world \<Rightarrow> u32 \<Rightarrow> (addr option \<times> world) option" where
  "walloc w n = map_option (\<lambda>(r, s). (r, w\<lparr>wmem := s\<rparr>)) (ixmap_mem_alloc (wmem w) n)"

definition wfree :: "world \<Rightarrow> addr \<Rightarrow> world option" where
  "wfree w a = map_option (\<lambda>s. w\<lparr>wmem := s, nents := (nents w)(a := None), fibs := (fibs w)(a := None)\<rparr>)
     (ixmap_mem_free (wmem w) a)"

section \<open>The allocator's contract, for the whole memory\<close>

definition winv :: "world \<Rightarrow> bool" where
  "winv w \<longleftrightarrow> mem_inv (wmem w) \<and> dom (nents w) \<union> dom (fibs w) \<subseteq> mem_live (wmem w)"

definition wlive :: "world \<Rightarrow> addr set" where
  "wlive w = mem_live (wmem w)"

lemma winv_live: "winv w \<Longrightarrow> nents w a = Some e \<Longrightarrow> a \<in> wlive w" "winv w \<Longrightarrow> fibs w a = Some f \<Longrightarrow> a \<in> wlive w"
  by (auto simp: winv_def wlive_def)

lemma winv_dead: "winv w \<Longrightarrow> a \<notin> wlive w \<Longrightarrow> nents w a = None" "winv w \<Longrightarrow> a \<notin> wlive w \<Longrightarrow> fibs w a = None"
  by (auto simp: winv_def wlive_def domIff)

lemma walloc_frame:
  "walloc w n = Some (r, w') \<Longrightarrow> nents w' = nents w" "walloc w n = Some (r, w') \<Longrightarrow> fibs w' = fibs w"
  "walloc w n = Some (r, w') \<Longrightarrow> junk w' = junk w"
  by (auto simp: walloc_def)

lemma wfree_frame:
  "wfree w a = Some w' \<Longrightarrow> nents w' = (nents w)(a := None)" "wfree w a = Some w' \<Longrightarrow> fibs w' = (fibs w)(a := None)"
  "wfree w a = Some w' \<Longrightarrow> junk w' = junk w"
  by (auto simp: wfree_def)

interpretation wheap: allocator winv wlive mem_ok_size walloc wfree
proof unfold_locales
  fix w n
  assume w: "winv w" "mem_ok_size n"
  then have "mem_inv (wmem w)" by (simp add: winv_def)
  from this w(2) show "\<exists>r w'. walloc w n = Some (r, w') \<and> winv w' \<and>
      (case r of None \<Rightarrow> wlive w' = wlive w | Some a \<Rightarrow> a \<noteq> 0 \<and> a \<notin> wlive w \<and> wlive w' = insert a (wlive w))"
    by (cases rule: buddy.alloc_cases) (use w(1) in \<open>auto simp: walloc_def winv_def wlive_def\<close>)
next
  fix w a
  assume w: "winv w" "a \<in> wlive w"
  then obtain s' where "ixmap_mem_free (wmem w) a = Some s'" "mem_inv s'" "mem_live s' = mem_live (wmem w) - {a}"
    using buddy.free_law [of "wmem w" a] by (auto simp: winv_def wlive_def)
  then show "\<exists>w'. wfree w a = Some w' \<and> winv w' \<and> wlive w' = wlive w - {a}"
    using w(1) by (auto simp: wfree_def winv_def wlive_def)
qed

lemma winv_store:
  assumes "winv w" "a \<in> wlive w"
  shows "winv (w\<lparr>nents := (nents w)(a \<mapsto> e)\<rparr>)" "winv (w\<lparr>fibs := (fibs w)(a \<mapsto> f)\<rparr>)"
  using assms by (auto simp: winv_def wlive_def)

lemma wlive_store [simp]: "wlive (w\<lparr>nents := n\<rparr>) = wlive w" "wlive (w\<lparr>fibs := f\<rparr>) = wlive w"
  by (simp_all add: wlive_def)

text \<open>There is room for a request when some free node of the tree is large enough for it.\<close>

definition wroom :: "world \<Rightarrow> u32 \<Rightarrow> bool" where
  "wroom w n \<longleftrightarrow> fits (mem_request n) (root (wmem w))"

lemma walloc_room:
  assumes "winv w" "mem_ok_size n"
  shows "walloc w n = Some (None, w1) \<Longrightarrow> \<not> wroom w n" and "walloc w n = Some (Some a, w1) \<Longrightarrow> wroom w n"
proof -
  have m: "mem_inv (wmem w)" using assms(1) by (simp add: winv_def)
  show "\<not> wroom w n" if "walloc w n = Some (None, w1)"
    using ixmap_mem_alloc_fits [OF m assms(2)] that by (fastforce simp: walloc_def wroom_def)
  show "wroom w n" if "walloc w n = Some (Some a, w1)"
    using ixmap_mem_alloc_fail [OF m assms(2)] that by (fastforce simp: walloc_def wroom_def)
qed

end
