(* ===== verification/Hash.thy ===== *)
theory Hash
  imports Heap
begin

text \<open>
  The hash table of \<open>src/src/hash.c\<close>.  A chain is the list of its entries in the order of the
  \<open>hlist\<close>, for which \<open>List_H\<close> shows that insertion, removal and traversal of the C structure are these
  list operations.  An entry has the address of the object that contains it and the bytes that its key
  points to.  The three function pointers of the table are fields; the one that releases an entry
  acts on the memory \<open>'w\<close> and gives \<open>None\<close> when it cannot.
\<close>

section \<open>Table and operations\<close>

record hash_entry =
  eaddr :: addr
  ekey :: "u8 list"

record 'w hash_table =
  head :: "u32 \<Rightarrow> hash_entry list"
  hash_entry_delete :: "addr \<Rightarrow> 'w \<Rightarrow> 'w option"
  hash_key_generate :: "u8 list \<Rightarrow> u32 \<Rightarrow> u32"
  hash_key_compare :: "u8 list \<Rightarrow> u8 list \<Rightarrow> int"

definition HASH_BIT :: u32 where "HASH_BIT = 16"
definition HASH_SIZE :: u32 where "HASH_SIZE = push_bit 16 1"

fun hash_init_loop :: "u32 list \<Rightarrow> 'w hash_table \<Rightarrow> 'w hash_table" where
  "hash_init_loop [] t = t"
| "hash_init_loop (i # ks) t = hash_init_loop ks (t\<lparr>head := (head t)(i := [])\<rparr>)"

definition hash_indices :: "u32 list" where
  "hash_indices = map of_nat [0..<unat HASH_SIZE]"

definition hash_init :: "'w hash_table \<Rightarrow> 'w hash_table" where
  "hash_init t = hash_init_loop hash_indices t"

definition hash_entry_init :: "addr \<Rightarrow> u8 list \<Rightarrow> hash_entry" where
  "hash_entry_init a key = \<lparr>eaddr = a, ekey = key\<rparr>"

text \<open>The first entry of a chain whose key compares equal, which the three loops over a chain look for.\<close>

fun chain_find :: "'w hash_table \<Rightarrow> u8 list \<Rightarrow> hash_entry list \<Rightarrow> hash_entry option" where
  "chain_find t key [] = None"
| "chain_find t key (e # es) = (if hash_key_compare t key (ekey e) = 0 then Some e else chain_find t key es)"

text \<open>An index outside of \<open>head[HASH_SIZE]\<close> has no result.\<close>

definition hash_index :: "'w hash_table \<Rightarrow> u8 list \<Rightarrow> u32 option" where
  "hash_index t key = (let hash_key = hash_key_generate t key HASH_BIT
     in if hash_key < HASH_SIZE then Some hash_key else None)"

definition hash_add :: "'w hash_table \<Rightarrow> u8 list \<Rightarrow> addr \<Rightarrow> (int \<times> 'w hash_table) option" where
  "hash_add t key a = do {
     let entry_new = hash_entry_init a key;
     hash_key \<leftarrow> hash_index t key;
     (case chain_find t key (head t hash_key) of
        Some entry \<Rightarrow> Some (-1, t)
      | None \<Rightarrow> Some (0, t\<lparr>head := (head t)(hash_key := entry_new # head t hash_key)\<rparr>)) }"

definition hash_delete :: "'w hash_table \<Rightarrow> u8 list \<Rightarrow> 'w \<Rightarrow> (int \<times> 'w hash_table \<times> 'w) option" where
  "hash_delete t key w = do {
     hash_key \<leftarrow> hash_index t key;
     (case chain_find t key (head t hash_key) of
        None \<Rightarrow> Some (-1, t, w)
      | Some target \<Rightarrow> do {
          let t' = t\<lparr>head := (head t)(hash_key := remove1 target (head t hash_key))\<rparr>;
          w' \<leftarrow> hash_entry_delete t' (eaddr target) w;
          Some (0, t', w') }) }"

fun chain_delete_all :: "u32 \<Rightarrow> hash_entry list \<Rightarrow> 'w hash_table \<Rightarrow> 'w \<Rightarrow> ('w hash_table \<times> 'w) option" where
  "chain_delete_all i [] t w = Some (t, w)"
| "chain_delete_all i (e # es) t w = do {
     let t' = t\<lparr>head := (head t)(i := remove1 e (head t i))\<rparr>;
     w' \<leftarrow> hash_entry_delete t' (eaddr e) w;
     chain_delete_all i es t' w' }"

fun hash_delete_all_loop :: "u32 list \<Rightarrow> 'w hash_table \<Rightarrow> 'w \<Rightarrow> ('w hash_table \<times> 'w) option" where
  "hash_delete_all_loop [] t w = Some (t, w)"
| "hash_delete_all_loop (i # ks) t w = do {
     (t', w') \<leftarrow> chain_delete_all i (head t i) t w;
     hash_delete_all_loop ks t' w' }"

definition hash_delete_all :: "'w hash_table \<Rightarrow> 'w \<Rightarrow> ('w hash_table \<times> 'w) option" where
  "hash_delete_all t w = hash_delete_all_loop hash_indices t w"

definition hash_lookup :: "'w hash_table \<Rightarrow> u8 list \<Rightarrow> hash_entry option option" where
  "hash_lookup t key = do {
     hash_key \<leftarrow> hash_index t key;
     Some (chain_find t key (head t hash_key)) }"

section \<open>The table as a map\<close>

text \<open>
  All entries in the order of \<open>hash_delete_all\<close>; the map from the views of the keys to the objects; and
  the table's invariant: every entry is in the chain of its key, and no two entries of a chain have keys
  with the same view.
\<close>

definition entries :: "'w hash_table \<Rightarrow> hash_entry list" where
  "entries t = concat (map (head t) hash_indices)"

definition hmap :: "(u8 list \<Rightarrow> 'v) \<Rightarrow> 'w hash_table \<Rightarrow> 'v \<rightharpoonup> addr" where
  "hmap view t = map_of (map (\<lambda>e. (view (ekey e), eaddr e)) (entries t))"

definition hash_ok :: "(u8 list \<Rightarrow> u32 \<Rightarrow> u32) \<Rightarrow> (u8 list \<Rightarrow> u8 list \<Rightarrow> int) \<Rightarrow> (u8 list \<Rightarrow> 'v) \<Rightarrow> 'w hash_table \<Rightarrow> bool" where
  "hash_ok gen cmp view t \<longleftrightarrow> hash_key_generate t = gen \<and> hash_key_compare t = cmp \<and>
     (\<forall>i < HASH_SIZE. (\<forall>e \<in> set (head t i). gen (ekey e) HASH_BIT = i) \<and>
        distinct (map (view \<circ> ekey) (head t i)))"

lemma set_hash_indices: "set hash_indices = {i. i < HASH_SIZE}"
proof -
  have "i \<in> of_nat ` {0..<unat HASH_SIZE}" if "i < HASH_SIZE" for i :: u32
    using that by (intro image_eqI [of _ _ "unat i"]) (auto simp: word_less_nat_alt)
  moreover have "of_nat n < HASH_SIZE" if "n < unat HASH_SIZE" for n
    using that by (simp add: word_less_nat_alt unat_of_nat HASH_SIZE_def)
  ultimately show ?thesis by (auto simp: hash_indices_def)
qed

lemma distinct_hash_indices: "distinct hash_indices"
  by (auto simp: hash_indices_def distinct_map inj_on_def HASH_SIZE_def word_unat_eq_iff unat_of_nat)

lemma set_entries: "set (entries t) = {e. \<exists>i < HASH_SIZE. e \<in> set (head t i)}"
  by (auto simp: entries_def set_hash_indices)

text \<open>The chain of one index within all entries.\<close>

lemma hash_indices_split:
  assumes "i < HASH_SIZE"
  obtains ks js where "hash_indices = ks @ i # js" "i \<notin> set ks" "i \<notin> set js"
proof -
  have "i \<in> set hash_indices" using assms by (simp add: set_hash_indices)
  then obtain ks js where s: "hash_indices = ks @ i # js" by (meson split_list)
  then have "distinct (ks @ i # js)" using distinct_hash_indices by simp
  then show thesis using that [OF s] by auto
qed

lemma entries_upd:
  assumes "i < HASH_SIZE"
  obtains es es' where "entries t = es @ head t i @ es'"
    "\<forall>xs. entries (t\<lparr>head := (head t)(i := xs)\<rparr>) = es @ xs @ es'"
proof -
  obtain ks js where s: "hash_indices = ks @ i # js" "i \<notin> set ks" "i \<notin> set js"
    using hash_indices_split [OF assms] .
  have "concat (map ((head t)(i := xs)) ks) = concat (map (head t) ks)"
      "concat (map ((head t)(i := xs)) js) = concat (map (head t) js)" for xs
    using s by (auto intro!: arg_cong [where f = concat])
  then show thesis
    by (intro that [of "concat (map (head t) ks)" "concat (map (head t) js)"]) (simp_all add: entries_def s(1))
qed

lemma head_hash_init_loop: "head (hash_init_loop ks t) i = (if i \<in> set ks then [] else head t i)"
  by (induction ks arbitrary: t) auto

lemma hash_init_keeps:
  "hash_key_generate (hash_init_loop ks t) = hash_key_generate t" "hash_key_compare (hash_init_loop ks t) = hash_key_compare t"
  "hash_entry_delete (hash_init_loop ks t) = hash_entry_delete t"
  by (induction ks arbitrary: t) auto

lemma entries_hash_init [simp]: "entries (hash_init t) = []"
  by (auto simp: entries_def hash_init_def head_hash_init_loop)

text \<open>\<open>hash_delete_all\<close> releases every entry once, in order, and leaves all chains empty.\<close>

fun delete_seq :: "(addr \<Rightarrow> 'w \<Rightarrow> 'w option) \<Rightarrow> addr list \<Rightarrow> 'w \<Rightarrow> 'w option" where
  "delete_seq del [] w = Some w"
| "delete_seq del (a # as) w = Option.bind (del a w) (delete_seq del as)"

lemma delete_seq_append: "delete_seq del (xs @ ys) w = Option.bind (delete_seq del xs w) (delete_seq del ys)"
  by (induction xs arbitrary: w) (auto simp: bind_eq_Some_conv split: bind_split)

lemma chain_delete_all_eq:
  "head t i = es \<Longrightarrow> chain_delete_all i es t w =
     map_option (\<lambda>w'. (t\<lparr>head := (head t)(i := [])\<rparr>, w')) (delete_seq (hash_entry_delete t) (map eaddr es) w)"
proof (induction es arbitrary: t w)
  case Nil
  then have "t\<lparr>head := (head t)(i := [])\<rparr> = t" by (simp add: fun_upd_idem)
  then show ?case by (simp only: chain_delete_all.simps delete_seq.simps list.map option.map)
next
  case (Cons e es)
  show ?case
    using Cons.IH [of "t\<lparr>head := (head t)(i := es)\<rparr>"] Cons.prems
    by (cases "hash_entry_delete t (eaddr e) w") (auto simp: Let_def cong: if_cong)
qed

lemma hash_delete_all_loop_eq:
  "distinct ks \<Longrightarrow> hash_delete_all_loop ks t w =
     map_option (\<lambda>w'. (hash_init_loop ks t, w'))
       (delete_seq (hash_entry_delete t) (map eaddr (concat (map (head t) ks))) w)"
proof (induction ks arbitrary: t w)
  case (Cons i ks)
  let ?t = "t\<lparr>head := (head t)(i := [])\<rparr>"
  have "concat (map (head ?t) ks) = concat (map (head t) ks)"
    using Cons.prems by (auto intro!: arg_cong [where f = concat])
  then have "hash_delete_all_loop ks ?t w' = map_option (\<lambda>w'. (hash_init_loop ks ?t, w'))
      (delete_seq (hash_entry_delete t) (map eaddr (concat (map (head t) ks))) w')" for w'
    using Cons.IH [of ?t w'] Cons.prems by (simp only: distinct.simps) simp
  then show ?case
    by (cases "delete_seq (hash_entry_delete t) (map eaddr (head t i)) w")
      (simp_all add: chain_delete_all_eq delete_seq_append)
qed simp

lemma hash_delete_all_eq:
  "hash_delete_all t w =
     map_option (\<lambda>w'. (hash_init t, w')) (delete_seq (hash_entry_delete t) (map eaddr (entries t)) w)"
  by (simp add: hash_delete_all_def hash_delete_all_loop_eq distinct_hash_indices hash_init_def entries_def)

lemma hmap_entry:
  assumes "hmap view t v = Some a"
  shows "\<exists>e \<in> set (entries t). eaddr e = a"
  using map_of_SomeD [OF assms [unfolded hmap_def]] by auto

lemma map_of_remove:
  assumes "distinct (map fst (xs @ (k, v) # ys))"
  shows "map_of (xs @ ys) = (map_of (xs @ (k, v) # ys))(k := None)"
proof -
  have "map_of xs k = None" "map_of ys k = None" using assms by (auto simp: map_of_eq_None_iff)
  then show ?thesis by (auto simp: map_add_def split: option.splits)
qed

text \<open>
  What the table asks of its key functions: keys compare equal exactly when they have the same view,
  and the generated index depends on the view only and is inside the table.
\<close>

locale hash_keys =
  fixes gen :: "u8 list \<Rightarrow> u32 \<Rightarrow> u32"
    and cmp :: "u8 list \<Rightarrow> u8 list \<Rightarrow> int"
    and view :: "u8 list \<Rightarrow> 'v"
  assumes cmp_view: "cmp k k' = 0 \<longleftrightarrow> view k = view k'"
    and gen_view: "view k = view k' \<Longrightarrow> gen k HASH_BIT = gen k' HASH_BIT"
    and gen_range: "gen k HASH_BIT < HASH_SIZE"
begin

lemma index_ok: "hash_ok gen cmp view t \<Longrightarrow> hash_index t key = Some (gen key HASH_BIT)"
  using gen_range by (simp add: hash_ok_def hash_index_def Let_def)

lemma chain_find_view:
  assumes "hash_ok gen cmp view t"
  shows "chain_find t key es = find (\<lambda>e. view (ekey e) = view key) es"
proof -
  have "hash_key_compare t key k = 0 \<longleftrightarrow> view k = view key" for k
    using assms cmp_view [of key k] by (auto simp: hash_ok_def)
  then show ?thesis by (induction es) auto
qed

lemma same_view_same_entry:
  assumes "hash_ok gen cmp view t" "e \<in> set (entries t)" "e' \<in> set (entries t)" "view (ekey e) = view (ekey e')"
  shows "e = e'"
proof -
  obtain i j where i: "i < HASH_SIZE" "e \<in> set (head t i)" "j < HASH_SIZE" "e' \<in> set (head t j)"
    using assms(2,3) by (auto simp: set_entries)
  then have "i = j" using assms(1,4) gen_view [of "ekey e" "ekey e'"] by (auto simp: hash_ok_def)
  moreover have "distinct (map (view \<circ> ekey) (head t i))" using assms(1) i(1) by (simp add: hash_ok_def)
  ultimately show ?thesis using i assms(4) by (auto simp: distinct_map inj_on_def)
qed

lemma distinct_views:
  assumes "hash_ok gen cmp view t"
  shows "distinct (map (view \<circ> ekey) (entries t))"
proof -
  have "distinct (map (view \<circ> ekey) (concat (map (head t) ks)))" if "distinct ks" "\<forall>i \<in> set ks. i < HASH_SIZE" for ks
    using that
  proof (induction ks)
    case (Cons i ks)
    have sep: "view (ekey e) \<noteq> view (ekey e')" if "e \<in> set (head t i)" "j \<in> set ks" "e' \<in> set (head t j)" for e e' j
    proof
      assume v: "view (ekey e) = view (ekey e')"
      have "gen (ekey e) HASH_BIT = i" "gen (ekey e') HASH_BIT = j"
        using that Cons.prems(2) assms by (auto simp: hash_ok_def)
      then show False using gen_view [OF v] that(2) Cons.prems(1) by simp
    qed
    have "(view \<circ> ekey) ` set (head t i) \<inter> (view \<circ> ekey) ` set (concat (map (head t) ks)) = {}"
      using sep by (auto simp: image_iff)
    moreover have "distinct (map (view \<circ> ekey) (head t i))" using Cons.prems(2) assms by (simp add: hash_ok_def)
    moreover have "distinct (map (view \<circ> ekey) (concat (map (head t) ks)))" by (rule Cons.IH) (use Cons.prems in auto)
    ultimately show ?case by (simp only: list.map concat.simps map_append distinct_append set_map)
  qed simp
  then show ?thesis unfolding entries_def using distinct_hash_indices set_hash_indices by simp
qed

lemma hmap_iff:
  assumes "hash_ok gen cmp view t"
  shows "hmap view t v = Some a \<longleftrightarrow> (\<exists>e \<in> set (entries t). view (ekey e) = v \<and> eaddr e = a)"
proof -
  have "distinct (map fst (map (\<lambda>e. (view (ekey e), eaddr e)) (entries t)))"
    using distinct_views [OF assms] by (simp add: comp_def)
  from map_of_eq_Some_iff [OF this, of v a] show ?thesis by (auto simp: hmap_def)
qed

lemma find_in_chain:
  assumes "hash_ok gen cmp view t"
  shows "map_option eaddr (chain_find t key (head t (gen key HASH_BIT))) = hmap view t (view key)"
proof (cases "chain_find t key (head t (gen key HASH_BIT))")
  case None
  then have n: "view (ekey e) \<noteq> view key" if "e \<in> set (head t (gen key HASH_BIT))" for e
    using that by (simp add: chain_find_view [OF assms] find_None_iff)
  have "view (ekey e) \<noteq> view key" if e: "e \<in> set (entries t)" for e
  proof
    assume v: "view (ekey e) = view key"
    obtain i where i: "i < HASH_SIZE" "e \<in> set (head t i)" using e by (auto simp: set_entries)
    then have "gen (ekey e) HASH_BIT = i" using assms by (simp add: hash_ok_def)
    then show False using n i(2) gen_view [OF v] v by simp
  qed
  then have "hmap view t (view key) = None" by (force simp: hmap_def map_of_eq_None_iff)
  then show ?thesis using None by simp
next
  case (Some e)
  then have "view (ekey e) = view key" "e \<in> set (head t (gen key HASH_BIT))"
    by (auto simp: chain_find_view [OF assms] find_Some_iff)
  moreover from this have "e \<in> set (entries t)" using gen_range by (auto simp: set_entries)
  ultimately have "hmap view t (view key) = Some (eaddr e)" by (auto simp: hmap_iff [OF assms])
  then show ?thesis using Some by simp
qed

lemma init_map:
  assumes "hash_key_generate t = gen" "hash_key_compare t = cmp"
  shows "hash_ok gen cmp view (hash_init t) \<and> hmap view (hash_init t) = Map.empty"
  using assms set_hash_indices
  by (auto simp: hash_ok_def hmap_def hash_init_keeps hash_init_def [of t] head_hash_init_loop entries_hash_init [unfolded hash_init_def])

lemma lookup_map:
  assumes "hash_ok gen cmp view t"
  shows "map_option (map_option eaddr) (hash_lookup t key) = Some (hmap view t (view key))"
  using find_in_chain [OF assms, of key] by (simp add: hash_lookup_def index_ok [OF assms])

lemma add_map:
  assumes "hash_ok gen cmp view t"
  shows "\<exists>r t'. hash_add t key a = Some (r, t') \<and> hash_ok gen cmp view t' \<and> hash_entry_delete t' = hash_entry_delete t \<and>
    (if hmap view t (view key) = None
     then r = 0 \<and> hmap view t' = (hmap view t)(view key \<mapsto> a) \<and>
       (\<exists>es es'. entries t = es @ es' \<and> entries t' = es @ \<lparr>eaddr = a, ekey = key\<rparr> # es')
     else r = -1 \<and> t' = t)"
proof (cases "chain_find t key (head t (gen key HASH_BIT))")
  case (Some e)
  then have "hmap view t (view key) = Some (eaddr e)" using find_in_chain [OF assms, of key] by simp
  then show ?thesis using Some assms by (simp add: hash_add_def index_ok)
next
  case None
  let ?i = "gen key HASH_BIT" and ?e = "\<lparr>eaddr = a, ekey = key\<rparr>"
  let ?t = "t\<lparr>head := (head t)(?i := ?e # head t ?i)\<rparr>"
  have m: "hmap view t (view key) = None" using find_in_chain [OF assms, of key] None by simp
  have n: "view (ekey e) \<noteq> view key" if "e \<in> set (head t ?i)" for e
    using None that by (simp add: chain_find_view [OF assms] find_None_iff)
  then have "view key \<notin> (view \<circ> ekey) ` set (head t ?i)" by force
  then have ok: "hash_ok gen cmp view ?t" using assms n by (auto simp: hash_ok_def)
  obtain es es' where es: "entries t = es @ head t ?i @ es'"
      "\<forall>xs. entries (t\<lparr>head := (head t)(?i := xs)\<rparr>) = es @ xs @ es'"
    using entries_upd [OF gen_range [of key], of t] .
  then have e: "entries ?t = es @ ?e # head t ?i @ es'" by simp
  have "hmap view ?t v = ((hmap view t)(view key \<mapsto> a)) v" for v
  proof -
    have "hmap view ?t v = Some b \<longleftrightarrow> ((hmap view t)(view key \<mapsto> a)) v = Some b" for b
      using m by (auto simp: hmap_iff [OF ok] hmap_iff [OF assms] e es(1)) (auto simp: hmap_def map_of_eq_None_iff es(1) image_iff)
    then show ?thesis by (metis not_Some_eq)
  qed
  then have "hmap view ?t = (hmap view t)(view key \<mapsto> a)" by blast
  moreover have "hash_add t key a = Some (0, ?t)" using None assms by (simp add: hash_add_def index_ok hash_entry_init_def)
  ultimately show ?thesis using m ok e es(1) by auto
qed

lemma delete_map:
  assumes "hash_ok gen cmp view t"
  shows "case hmap view t (view key) of
      None \<Rightarrow> hash_delete t key w = Some (-1, t, w)
    | Some a \<Rightarrow> \<exists>t' e es es'. hash_delete t key w = map_option (\<lambda>w'. (0, t', w')) (hash_entry_delete t a w) \<and>
        hash_ok gen cmp view t' \<and> hash_entry_delete t' = hash_entry_delete t \<and> hmap view t' = (hmap view t)(view key := None) \<and>
        eaddr e = a \<and> entries t = es @ e # es' \<and> entries t' = es @ es'"
proof (cases "chain_find t key (head t (gen key HASH_BIT))")
  case None
  then have "hmap view t (view key) = None" using find_in_chain [OF assms, of key] by simp
  then show ?thesis using None by (simp add: hash_delete_def index_ok [OF assms])
next
  case (Some e)
  let ?i = "gen key HASH_BIT"
  let ?t = "t\<lparr>head := (head t)(?i := remove1 e (head t ?i))\<rparr>"
  have m: "hmap view t (view key) = Some (eaddr e)" using find_in_chain [OF assms, of key] Some by simp
  have e: "e \<in> set (head t ?i)" "view (ekey e) = view key"
    using Some by (auto simp: chain_find_view [OF assms] find_Some_iff)
  have "distinct (map (view \<circ> ekey) (head t ?i))" using assms gen_range by (simp add: hash_ok_def)
  then obtain xs ys where xs: "head t ?i = xs @ e # ys" "e \<notin> set xs" "distinct (map (view \<circ> ekey) (xs @ ys))"
      "view key \<notin> (view \<circ> ekey) ` set (xs @ ys)"
    using split_list_first [OF e(1)] e(2) by fastforce
  then have r: "remove1 e (head t ?i) = xs @ ys" by (simp add: remove1_append)
  have ok: "hash_ok gen cmp view ?t"
    using assms xs(1,3) unfolding hash_ok_def r by auto
  obtain es es' where es: "entries t = es @ head t ?i @ es'"
      "\<forall>zs. entries (t\<lparr>head := (head t)(?i := zs)\<rparr>) = es @ zs @ es'"
    using entries_upd [OF gen_range [of key], of t] .
  have en: "entries t = (es @ xs) @ e # (ys @ es')" "entries ?t = (es @ xs) @ (ys @ es')"
    using es r xs(1) by simp_all
  have "hmap view ?t = (hmap view t)(view key := None)"
    using map_of_remove [of "map (\<lambda>e. (view (ekey e), eaddr e)) (es @ xs)" "view key" "eaddr e"
        "map (\<lambda>e. (view (ekey e), eaddr e)) (ys @ es')"] distinct_views [OF assms] e(2)
    by (simp add: hmap_def en comp_def)
  moreover have "hash_delete t key w = map_option (\<lambda>w'. (0, ?t, w')) (hash_entry_delete t (eaddr e) w)"
    using Some by (cases "hash_entry_delete t (eaddr e) w") (simp_all add: hash_delete_def index_ok [OF assms] Let_def)
  ultimately show ?thesis
    unfolding m option.case
    by (intro exI [of _ ?t] exI [of _ e] exI [of _ "es @ xs"] exI [of _ "ys @ es'"] conjI ok en refl) simp_all
qed

end

end
