(* ===== verification/Neigh.thy ===== *)
theory Neigh
  imports Hash
begin

text \<open>
  The neighbour tables of \<open>src/src/neigh.c\<close>: a hash table whose entries are blocks of the thread's memory.
\<close>

record neigh_table =
  nself :: addr
  table :: "world hash_table"

definition GOLDEN_RATIO_PRIME_32 :: u64 where "GOLDEN_RATIO_PRIME_32 = 0x9e370001"
definition GOLDEN_RATIO_PRIME_64 :: u64 where "GOLDEN_RATIO_PRIME_64 = 0x9e37fffffffc0001"

definition sizeof_neigh_table :: u32 where "sizeof_neigh_table = 524312"
definition sizeof_neigh_entry :: u32 where "sizeof_neigh_entry = 48"

definition neigh_entry_delete :: "addr \<Rightarrow> world \<Rightarrow> world option" where
  "neigh_entry_delete entry w = wfree w entry"

definition neigh_key_generate_v4 :: "u8 list \<Rightarrow> u32 \<Rightarrow> u32" where
  "neigh_key_generate_v4 key bit_len =
     (let hash = ucast (ucast (load32 key 0) * GOLDEN_RATIO_PRIME_32) :: u32
      in drop_bit (unat (32 - bit_len)) hash)"

definition neigh_key_generate_v6 :: "u8 list \<Rightarrow> u32 \<Rightarrow> u32" where
  "neigh_key_generate_v6 key bit_len =
     (let hash = load64 key 0 * load64 key 8; hash = hash * GOLDEN_RATIO_PRIME_64
      in ucast (drop_bit (unat (64 - bit_len)) hash))"

definition neigh_key_compare_v4 :: "u8 list \<Rightarrow> u8 list \<Rightarrow> int" where
  "neigh_key_compare_v4 key_tgt key_ent = (if load32 key_tgt 0 XOR load32 key_ent 0 \<noteq> 0 then 1 else 0)"

definition neigh_key_compare_v6 :: "u8 list \<Rightarrow> u8 list \<Rightarrow> int" where
  "neigh_key_compare_v6 key_tgt key_ent =
     (if load64 key_tgt 0 XOR load64 key_ent 0 \<noteq> 0 then 1
      else if load64 key_tgt 8 XOR load64 key_ent 8 \<noteq> 0 then 1 else 0)"

text \<open>\<open>raw\<close> is what the block of the new table happens to hold.\<close>

definition neigh_alloc :: "world hash_table \<Rightarrow> world \<Rightarrow> int \<Rightarrow> (neigh_table option \<times> world) option" where
  "neigh_alloc raw w family = do {
     (r, w1) \<leftarrow> walloc w sizeof_neigh_table;
     (case r of
        None \<Rightarrow> Some (None, w1)
      | Some neigh \<Rightarrow>
          let t = (hash_init raw)\<lparr>hash_entry_delete := neigh_entry_delete\<rparr>
          in if family = AF_INET then
               Some (Some \<lparr>nself = neigh, table = t\<lparr>hash_key_generate := neigh_key_generate_v4,
                 hash_key_compare := neigh_key_compare_v4\<rparr>\<rparr>, w1)
             else if family = AF_INET6 then
               Some (Some \<lparr>nself = neigh, table = t\<lparr>hash_key_generate := neigh_key_generate_v6,
                 hash_key_compare := neigh_key_compare_v6\<rparr>\<rparr>, w1)
             else do { w2 \<leftarrow> wfree w1 neigh; Some (None, w2) }) }"

definition neigh_release :: "world \<Rightarrow> neigh_table \<Rightarrow> world option" where
  "neigh_release w neigh = do {
     (t, w1) \<leftarrow> hash_delete_all (table neigh) w;
     wfree w1 (nself neigh) }"

definition neigh_add ::
    "world \<Rightarrow> neigh_table \<Rightarrow> int \<Rightarrow> u8 list \<Rightarrow> u8 list \<Rightarrow> (int \<times> neigh_table \<times> world) option" where
  "neigh_add w neigh family dst mac = do {
     (r, w1) \<leftarrow> walloc w sizeof_neigh_entry;
     (case r of
        None \<Rightarrow> Some (-1, neigh, w1)
      | Some neigh_entry \<Rightarrow>
          if family = AF_INET \<or> family = AF_INET6 then do {
            let key = memcpy (take 16 (drop 32 (junk w1 neigh_entry))) dst (if family = AF_INET then 4 else 16);
            let w2 = w1\<lparr>nents := (nents w1)(neigh_entry \<mapsto> \<lparr>dst_mac = memcpy [] mac ETH_ALEN, dst_addr = key\<rparr>)\<rparr>;
            (ret, t) \<leftarrow> hash_add (table neigh) key neigh_entry;
            (if ret < 0 then do { w3 \<leftarrow> wfree w2 neigh_entry; Some (-1, neigh\<lparr>table := t\<rparr>, w3) }
             else Some (0, neigh\<lparr>table := t\<rparr>, w2)) }
          else do { w2 \<leftarrow> wfree w1 neigh_entry; Some (-1, neigh, w2) }) }"

definition neigh_delete :: "world \<Rightarrow> neigh_table \<Rightarrow> int \<Rightarrow> u8 list \<Rightarrow> (int \<times> neigh_table \<times> world) option" where
  "neigh_delete w neigh family dst = do {
     (ret, t, w') \<leftarrow> hash_delete (table neigh) dst w;
     Some (if ret < 0 then -1 else 0, neigh\<lparr>table := t\<rparr>, w') }"

definition neigh_lookup :: "neigh_table \<Rightarrow> u8 list \<Rightarrow> addr option option" where
  "neigh_lookup neigh dst = map_option (map_option eaddr) (hash_lookup (table neigh) dst)"

section \<open>The keys of both families\<close>

text \<open>The address that a key holds, as two words of 64 bits, and the key functions of a family.\<close>

definition neigh_view :: "int \<Rightarrow> u8 list \<Rightarrow> u64 \<times> u64" where
  "neigh_view family key = (if family = AF_INET then (ucast (load32 key 0), 0) else (load64 key 0, load64 key 8))"

definition neigh_gen :: "int \<Rightarrow> u8 list \<Rightarrow> u32 \<Rightarrow> u32" where
  "neigh_gen family = (if family = AF_INET then neigh_key_generate_v4 else neigh_key_generate_v6)"

definition neigh_cmp :: "int \<Rightarrow> u8 list \<Rightarrow> u8 list \<Rightarrow> int" where
  "neigh_cmp family = (if family = AF_INET then neigh_key_compare_v4 else neigh_key_compare_v6)"

definition neigh_klen :: "int \<Rightarrow> nat" where
  "neigh_klen family = (if family = AF_INET then 4 else 16)"

lemma xor_eq_0: "x XOR y = 0 \<longleftrightarrow> x = y" for x y :: "'a::len word"
  by (auto simp: bit_eq_iff bit_xor_iff)

lemma ucast_inj_up: "(ucast x :: u64) = ucast y \<longleftrightarrow> x = y" for x y :: u32
  by (simp add: word_unat_eq_iff)

lemma drop_bit_lt:
  fixes w :: "'a::len word"
  assumes "k + n = LENGTH('a)"
  shows "unat (drop_bit n w) < 2 ^ k"
proof -
  have "unat w < 2 ^ k * 2 ^ n" using unsigned_less [of w, where ?'a = nat] assms by (simp flip: power_add)
  then have "unat w div 2 ^ n < 2 ^ k" by (rule less_mult_imp_div_less)
  then show ?thesis unfolding unat_drop_bit_eq by (simp only: drop_bit_eq_div)
qed

interpretation neigh_hash: hash_keys "neigh_gen family" "neigh_cmp family" "neigh_view family" for family
proof unfold_locales
  show "neigh_cmp family k k' = 0 \<longleftrightarrow> neigh_view family k = neigh_view family k'" for k k'
    by (auto simp: neigh_cmp_def neigh_view_def neigh_key_compare_v4_def neigh_key_compare_v6_def xor_eq_0 ucast_inj_up)
  show "neigh_gen family k HASH_BIT = neigh_gen family k' HASH_BIT" if "neigh_view family k = neigh_view family k'" for k k'
    using that
    by (auto simp: neigh_gen_def neigh_view_def neigh_key_generate_v4_def neigh_key_generate_v6_def ucast_inj_up Let_def
        split: if_splits)
  show "neigh_gen family k HASH_BIT < HASH_SIZE" for k
  proof -
    have "unat (drop_bit 16 w) < 2 ^ 16" for w :: u32 using drop_bit_lt [of 16 16, where ?'a = 32] by simp
    moreover have "unat (drop_bit 48 w) mod 4294967296 < 2 ^ 16" for w :: u64
      using drop_bit_lt [of 16 48 w] by (intro le_less_trans [OF mod_less_eq_dividend]) simp
    ultimately show ?thesis
      by (simp add: neigh_gen_def neigh_key_generate_v4_def neigh_key_generate_v6_def word_less_nat_alt HASH_SIZE_def
          HASH_BIT_def Let_def unat_ucast_mod)
  qed
qed

lemma nth_memcpy: "i < n \<Longrightarrow> n \<le> length src \<Longrightarrow> memcpy dst src n ! i = src ! i"
  by (simp add: memcpy_def nth_append)

lemma load_memcpy:
  "a + 4 \<le> n \<Longrightarrow> n \<le> length src \<Longrightarrow> load32 (memcpy dst src n) a = load32 src a"
  "a + 8 \<le> n \<Longrightarrow> n \<le> length src \<Longrightarrow> load64 (memcpy dst src n) a = load64 src a"
  by (simp_all add: load32_def load64_def nth_memcpy)

lemma neigh_view_memcpy:
  assumes "neigh_klen family \<le> length dst"
  shows "neigh_view family (memcpy j dst (neigh_klen family)) = neigh_view family dst"
  using assms by (simp add: neigh_view_def neigh_klen_def load_memcpy split: if_splits)

section \<open>The table as a map from addresses to link addresses\<close>

definition neigh_map :: "int \<Rightarrow> world \<Rightarrow> neigh_table \<Rightarrow> u64 \<times> u64 \<rightharpoonup> u8 list" where
  "neigh_map family w neigh = (\<lambda>v. Option.bind (hmap (neigh_view family) (table neigh) v) (\<lambda>a. map_option dst_mac (nents w a)))"

text \<open>The memory the table owns: its own block and one block for each entry.\<close>

definition neigh_owned :: "neigh_table \<Rightarrow> addr list" where
  "neigh_owned neigh = nself neigh # map eaddr (entries (table neigh))"

definition neigh_inv :: "int \<Rightarrow> world \<Rightarrow> neigh_table \<Rightarrow> bool" where
  "neigh_inv family w neigh \<longleftrightarrow> winv w \<and>
     hash_ok (neigh_gen family) (neigh_cmp family) (neigh_view family) (table neigh) \<and>
     hash_entry_delete (table neigh) = neigh_entry_delete \<and>
     distinct (neigh_owned neigh) \<and> nself neigh \<in> wlive w \<and> nents w (nself neigh) = None \<and>
     (\<forall>e \<in> set (entries (table neigh)). nents w (eaddr e) \<noteq> None)"

lemma neigh_owned_live: "neigh_inv family w neigh \<Longrightarrow> set (neigh_owned neigh) \<subseteq> wlive w"
  by (auto simp: neigh_inv_def neigh_owned_def intro: winv_live)

lemma neigh_ok_sizes [simp]: "mem_ok_size sizeof_neigh_entry" "mem_ok_size sizeof_neigh_table"
  by (simp_all add: mem_ok_size_def sizeof_neigh_entry_def sizeof_neigh_table_def)

text \<open>
  Storing an entry that the table does not own, and releasing it again, is invisible to the table.
\<close>

lemma neigh_frame:
  assumes "neigh_inv family w neigh" "winv w'" "nself neigh \<in> wlive w'" "\<And>b. b \<in> set (neigh_owned neigh) \<Longrightarrow> nents w' b = nents w b"
  shows "neigh_inv family w' neigh" "neigh_map family w' neigh = neigh_map family w neigh"
proof -
  show "neigh_inv family w' neigh" using assms by (auto simp: neigh_inv_def neigh_owned_def)
  have "nents w' a = nents w a" if "hmap (neigh_view family) (table neigh) v = Some a" for v a
    using hmap_entry [OF that] assms(4) by (auto simp: neigh_owned_def)
  then show "neigh_map family w' neigh = neigh_map family w neigh"
    unfolding neigh_map_def by (intro ext bind_option_cong) auto
qed

lemma neigh_inv_add:
  assumes "neigh_inv family w neigh" "winv w2" "wlive w2 = insert a (wlive w)" "a \<notin> wlive w"
    "nents w2 = (nents w)(a \<mapsto> ne)" "hash_ok (neigh_gen family) (neigh_cmp family) (neigh_view family) t"
    "hash_entry_delete t = neigh_entry_delete" "entries (table neigh) = es @ es'" "entries t = es @ \<lparr>eaddr = a, ekey = key\<rparr> # es'"
  shows "neigh_inv family w2 (neigh\<lparr>table := t\<rparr>)"
  using assms neigh_owned_live [OF assms(1)] by (auto simp: neigh_inv_def neigh_owned_def)

lemma neigh_map_add:
  assumes "neigh_inv family w neigh" "a \<notin> wlive w" "nents w2 = (nents w)(a \<mapsto> ne)"
    "hmap (neigh_view family) t = (hmap (neigh_view family) (table neigh))(v \<mapsto> a)"
  shows "neigh_map family w2 (neigh\<lparr>table := t\<rparr>) = (neigh_map family w neigh)(v \<mapsto> dst_mac ne)"
proof -
  have "b \<noteq> a" if "hmap (neigh_view family) (table neigh) u = Some b" for u b
    using hmap_entry [OF that] neigh_owned_live [OF assms(1)] assms(2) by (auto simp: neigh_owned_def)
  then have "Option.bind (hmap (neigh_view family) (table neigh) u) (\<lambda>b. map_option dst_mac (nents w2 b)) =
      Option.bind (hmap (neigh_view family) (table neigh) u) (\<lambda>b. map_option dst_mac (nents w b))" for u
    using assms(3) by (intro bind_option_cong) auto
  then show ?thesis using assms(3,4) by (auto simp: neigh_map_def fun_eq_iff)
qed

text \<open>Releasing every entry of a list of blocks in use.\<close>

lemma delete_seq_free:
  assumes "winv w" "distinct as" "set as \<subseteq> wlive w"
  shows "\<exists>w'. delete_seq neigh_entry_delete as w = Some w' \<and> winv w' \<and> wlive w' = wlive w - set as \<and>
    (\<forall>a. a \<notin> set as \<longrightarrow> fibs w' a = fibs w a \<and> nents w' a = nents w a)"
  using assms
proof (induction as arbitrary: w)
  case (Cons a as)
  obtain w1 where w1: "wfree w a = Some w1" "winv w1" "wlive w1 = wlive w - {a}"
    using wheap.free_law [of w a] Cons.prems by auto
  have "distinct as" "set as \<subseteq> wlive w1" using Cons.prems w1(3) by auto
  from Cons.IH [OF w1(2) this] obtain w2 where w2: "delete_seq neigh_entry_delete as w1 = Some w2" "winv w2"
      "wlive w2 = wlive w1 - set as" "\<forall>b. b \<notin> set as \<longrightarrow> fibs w2 b = fibs w1 b \<and> nents w2 b = nents w1 b"
    by blast
  moreover have "neigh_entry_delete a w = Some w1" using w1(1) by (simp add: neigh_entry_delete_def)
  ultimately show ?case using w1 wfree_frame [OF w1(1)] by (intro exI [of _ w2]) auto
qed simp

section \<open>The operations on the map\<close>

lemma neigh_lookup_hmap:
  assumes "neigh_inv family w neigh"
  shows "neigh_lookup neigh dst = Some (hmap (neigh_view family) (table neigh) (neigh_view family dst))"
  using assms neigh_hash.lookup_map [of family "table neigh" dst] by (simp add: neigh_lookup_def neigh_inv_def)

lemma neigh_hit:
  assumes "neigh_inv family w neigh" "hmap (neigh_view family) (table neigh) v = Some a"
  obtains ne where "nents w a = Some ne" "neigh_map family w neigh v = Some (dst_mac ne)"
  using assms(1) hmap_entry [OF assms(2)] assms(2) by (auto simp: neigh_inv_def neigh_map_def)

lemma neigh_add_law:
  assumes "neigh_inv family w neigh" "family = AF_INET \<or> family = AF_INET6"
    "neigh_klen family \<le> length dst" "6 \<le> length mac"
  shows "\<exists>r neigh' w'. neigh_add w neigh family dst mac = Some (r, neigh', w') \<and> neigh_inv family w' neigh' \<and>
    (r = 0 \<longleftrightarrow> neigh_map family w neigh (neigh_view family dst) = None \<and> wroom w sizeof_neigh_entry) \<and>
    (if r = 0
     then neigh_map family w' neigh' = (neigh_map family w neigh)(neigh_view family dst \<mapsto> take 6 mac) \<and>
       (\<exists>a. a \<notin> wlive w \<and> wlive w' = insert a (wlive w))
     else r = -1 \<and> neigh' = neigh \<and> neigh_map family w' neigh' = neigh_map family w neigh \<and> wlive w' = wlive w)"
proof -
  have w: "winv w" using assms(1) by (simp add: neigh_inv_def)
  from w neigh_ok_sizes(1) show ?thesis
  proof (cases rule: wheap.alloc_cases)
    case (fail w1)
    then show ?thesis
      using neigh_frame [OF assms(1) fail(2)] walloc_frame(1) [OF fail(1)] assms(1) walloc_room(1) [OF w neigh_ok_sizes(1) fail(1)]
      by (auto simp: neigh_add_def neigh_inv_def)
  next
    case (ok a w1)
    let ?key = "memcpy (take 16 (drop 32 (junk w1 a))) dst (neigh_klen family)"
    let ?w2 = "w1\<lparr>nents := (nents w1)(a \<mapsto> \<lparr>dst_mac = memcpy [] mac ETH_ALEN, dst_addr = ?key\<rparr>)\<rparr>"
    have room: "wroom w sizeof_neigh_entry" by (rule walloc_room(2) [OF w neigh_ok_sizes(1) ok(1)])
    have v: "neigh_view family ?key = neigh_view family dst" by (rule neigh_view_memcpy [OF assms(3)])
    have h: "hash_ok (neigh_gen family) (neigh_cmp family) (neigh_view family) (table neigh)"
      using assms(1) by (simp add: neigh_inv_def)
    have w2: "winv ?w2" "wlive ?w2 = insert a (wlive w)" using ok winv_store(1) [of w1 a] by auto
    have n2: "nents ?w2 = (nents w)(a \<mapsto> \<lparr>dst_mac = memcpy [] mac ETH_ALEN, dst_addr = ?key\<rparr>)"
      using walloc_frame(1) [OF ok(1)] by simp
    have e: "neigh_add w neigh family dst mac = do {
        (ret, t) \<leftarrow> hash_add (table neigh) ?key a;
        (if ret < 0 then do { w3 \<leftarrow> wfree ?w2 a; Some (-1, neigh\<lparr>table := t\<rparr>, w3) }
         else Some (0, neigh\<lparr>table := t\<rparr>, ?w2)) }"
      using ok(1) assms(2) by (simp add: neigh_add_def Let_def flip: neigh_klen_def)
    obtain r t where t: "hash_add (table neigh) ?key a = Some (r, t)"
      "hash_ok (neigh_gen family) (neigh_cmp family) (neigh_view family) t" "hash_entry_delete t = hash_entry_delete (table neigh)"
      "if hmap (neigh_view family) (table neigh) (neigh_view family ?key) = None
       then r = 0 \<and> hmap (neigh_view family) t = (hmap (neigh_view family) (table neigh))(neigh_view family ?key \<mapsto> a) \<and>
         (\<exists>es es'. entries (table neigh) = es @ es' \<and> entries t = es @ \<lparr>eaddr = a, ekey = ?key\<rparr> # es')
       else r = -1 \<and> t = table neigh"
      using neigh_hash.add_map [OF h, of ?key a] by blast
    show ?thesis
    proof (cases "hmap (neigh_view family) (table neigh) (neigh_view family dst)")
      case None
      then have t': "r = 0" "hmap (neigh_view family) t = (hmap (neigh_view family) (table neigh))(neigh_view family dst \<mapsto> a)"
          "\<exists>es es'. entries (table neigh) = es @ es' \<and> entries t = es @ \<lparr>eaddr = a, ekey = ?key\<rparr> # es'"
        using t(4) v by auto
      moreover from t'(3) obtain es es' where "entries (table neigh) = es @ es'"
          "entries t = es @ \<lparr>eaddr = a, ekey = ?key\<rparr> # es'" by blast
      moreover have "hash_entry_delete t = neigh_entry_delete" using t(3) assms(1) by (simp add: neigh_inv_def)
      moreover note neigh_inv_add [OF assms(1) w2 ok(4) n2 t(2)]
      moreover have "neigh_map family ?w2 (neigh\<lparr>table := t\<rparr>) = (neigh_map family w neigh)(neigh_view family dst \<mapsto> take 6 mac)"
        using neigh_map_add [OF assms(1) ok(4) n2 t'(2)] by (simp add: memcpy_def ETH_ALEN_def)
      moreover have "neigh_map family w neigh (neigh_view family dst) = None" using None by (simp add: neigh_map_def)
      ultimately show ?thesis using e t(1) w2 ok(4) room by auto
    next
      case (Some b)
      then have t': "r = -1" "t = table neigh" using t(4) v by auto
      obtain w3 where w3: "wfree ?w2 a = Some w3" "winv w3" "wlive w3 = wlive w"
        using wheap.free_law [OF w2(1), of a] w2(2) ok(4) by auto
      have m: "neigh_map family w neigh (neigh_view family dst) \<noteq> None"
        using Some hmap_entry [OF Some] assms(1) by (auto simp: neigh_map_def neigh_inv_def)
      have "nents w3 c = nents w c" for c
        using wfree_frame(1) [OF w3(1)] n2 winv_dead(1) [OF w ok(4)] by auto
      then show ?thesis
        using e t(1) t' w3 m neigh_frame [OF assms(1) w3(2)] assms(1) by (auto simp: neigh_inv_def)
    qed
  qed
qed

lemma neigh_delete_law:
  assumes "neigh_inv family w neigh"
  shows "(\<exists>r. neigh_lookup neigh dst = Some r \<and>
      neigh_map family w neigh (neigh_view family dst) = Option.bind r (\<lambda>a. map_option dst_mac (nents w a))) \<and>
    (\<exists>r neigh' w'. neigh_delete w neigh family dst = Some (r, neigh', w') \<and> neigh_inv family w' neigh' \<and>
      neigh_map family w' neigh' = (neigh_map family w neigh)(neigh_view family dst := None) \<and>
      (if neigh_map family w neigh (neigh_view family dst) = None then r = -1 \<and> neigh' = neigh \<and> w' = w
       else r = 0 \<and> (\<exists>a. neigh_lookup neigh dst = Some (Some a) \<and> wlive w' = wlive w - {a})))"
proof -
  let ?m = "hmap (neigh_view family) (table neigh)"
  have h: "hash_ok (neigh_gen family) (neigh_cmp family) (neigh_view family) (table neigh)"
    and wi: "winv w" and del: "hash_entry_delete (table neigh) = neigh_entry_delete"
    using assms by (simp_all add: neigh_inv_def)
  have l: "neigh_lookup neigh dst = Some (?m (neigh_view family dst))"
    by (rule neigh_lookup_hmap [OF assms])
  have d: "case ?m (neigh_view family dst) of
      None \<Rightarrow> hash_delete (table neigh) dst w = Some (-1, table neigh, w)
    | Some a \<Rightarrow> \<exists>t' e es es'. hash_delete (table neigh) dst w = map_option (\<lambda>w'. (0, t', w')) (hash_entry_delete (table neigh) a w) \<and>
        hash_ok (neigh_gen family) (neigh_cmp family) (neigh_view family) t' \<and> hash_entry_delete t' = hash_entry_delete (table neigh) \<and>
        hmap (neigh_view family) t' = ?m(neigh_view family dst := None) \<and>
        eaddr e = a \<and> entries (table neigh) = es @ e # es' \<and> entries t' = es @ es'"
    by (rule neigh_hash.delete_map [OF h])
  have "\<exists>r neigh' w'. neigh_delete w neigh family dst = Some (r, neigh', w') \<and> neigh_inv family w' neigh' \<and>
      neigh_map family w' neigh' = (neigh_map family w neigh)(neigh_view family dst := None) \<and>
      (if neigh_map family w neigh (neigh_view family dst) = None then r = -1 \<and> neigh' = neigh \<and> w' = w
       else r = 0 \<and> (\<exists>a. neigh_lookup neigh dst = Some (Some a) \<and> wlive w' = wlive w - {a}))"
  proof (cases "?m (neigh_view family dst)")
    case None
    then have "neigh_map family w neigh (neigh_view family dst) = None" by (simp add: neigh_map_def)
    then show ?thesis using d None assms by (simp add: neigh_delete_def fun_upd_idem)
  next
    case (Some a)
    then obtain t' e es es' where t: "hash_delete (table neigh) dst w = map_option (\<lambda>w'. (0, t', w')) (wfree w a)"
        "hash_ok (neigh_gen family) (neigh_cmp family) (neigh_view family) t'" "hash_entry_delete t' = neigh_entry_delete"
        "hmap (neigh_view family) t' = ?m(neigh_view family dst := None)"
        "eaddr e = a" "entries (table neigh) = es @ e # es'" "entries t' = es @ es'"
      using d del by (auto simp: neigh_entry_delete_def)
    have own: "a \<in> set (neigh_owned neigh)" "a \<noteq> nself neigh" using t assms by (auto simp: neigh_owned_def neigh_inv_def)
    then obtain w' where w': "wfree w a = Some w'" "winv w'" "wlive w' = wlive w - {a}"
      using wheap.free_law [OF wi, of a] neigh_owned_live [OF assms] by auto
    have n': "nents w' = (nents w)(a := None)" by (rule wfree_frame [OF w'(1)])
    have "a \<notin> eaddr ` set (entries t')" using t(5-7) assms by (simp add: neigh_inv_def neigh_owned_def image_Un)
    then have ne: "eaddr e' \<noteq> a" if "e' \<in> set (entries t')" for e' using that by blast
    have inv: "neigh_inv family w' (neigh\<lparr>table := t'\<rparr>)"
      using assms w' t(2,3,6,7) own n' ne by (simp add: neigh_inv_def neigh_owned_def)
    have "b \<noteq> a" if "?m v = Some b" "v \<noteq> neigh_view family dst" for v b
    proof -
      have "hmap (neigh_view family) t' v = Some b" using that t(4) by simp
      from hmap_entry [OF this] show ?thesis using ne by blast
    qed
    then have "neigh_map family w' (neigh\<lparr>table := t'\<rparr>) v = ((neigh_map family w neigh)(neigh_view family dst := None)) v" for v
      using t(4) n' by (cases "?m v") (auto simp: neigh_map_def)
    then have "neigh_map family w' (neigh\<lparr>table := t'\<rparr>) = (neigh_map family w neigh)(neigh_view family dst := None)" by blast
    moreover have "neigh_map family w neigh (neigh_view family dst) \<noteq> None"
      using Some t(5,6) assms by (auto simp: neigh_map_def neigh_inv_def)
    ultimately show ?thesis using inv t(1) w' l Some by (simp add: neigh_delete_def)
  qed
  then show ?thesis using l by (simp add: neigh_map_def)
qed

section \<open>Properties\<close>

text \<open>
  C17.  \<open>neigh_add\<close> for a family that the table has, as long as no call of libnuma fails: it succeeds exactly
  when the address has no entry yet and the thread's memory has room for one.  Then the address is mapped
  to the new link address, one block more is in use, and the table's invariant holds again.  Otherwise it
  returns -1, and neither the table's map nor the memory it owns changes (in particular an existing entry
  keeps its link address).
\<close>

theorem neigh_add_correct:
  assumes "neigh_inv family w neigh" "family = AF_INET \<or> family = AF_INET6"
    "neigh_klen family \<le> length dst" "6 \<le> length mac"
  shows "\<exists>r neigh' w'. neigh_add w neigh family dst mac = Some (r, neigh', w') \<and> neigh_inv family w' neigh' \<and>
    (r = 0 \<longleftrightarrow> neigh_map family w neigh (neigh_view family dst) = None \<and> wroom w sizeof_neigh_entry) \<and>
    (if r = 0
     then neigh_map family w' neigh' = (neigh_map family w neigh)(neigh_view family dst \<mapsto> take 6 mac) \<and>
       (\<exists>a. a \<notin> wlive w \<and> wlive w' = insert a (wlive w))
     else r = -1 \<and> neigh' = neigh \<and> neigh_map family w' neigh' = neigh_map family w neigh \<and> wlive w' = wlive w)"
  using assms by (rule neigh_add_law)

text \<open>
  C18.  \<open>neigh_lookup\<close> returns the entry with the link address that the table maps the address to, or
  \<open>NULL\<close> exactly when it maps it to none; \<open>neigh_delete\<close> removes exactly that entry and releases its
  block, and fails without any change when there is none.
\<close>

theorem neigh_delete_lookup_correct:
  assumes "neigh_inv family w neigh"
  shows "(\<exists>r. neigh_lookup neigh dst = Some r \<and>
      neigh_map family w neigh (neigh_view family dst) = Option.bind r (\<lambda>a. map_option dst_mac (nents w a))) \<and>
    (\<exists>r neigh' w'. neigh_delete w neigh family dst = Some (r, neigh', w') \<and> neigh_inv family w' neigh' \<and>
      neigh_map family w' neigh' = (neigh_map family w neigh)(neigh_view family dst := None) \<and>
      (if neigh_map family w neigh (neigh_view family dst) = None then r = -1 \<and> neigh' = neigh \<and> w' = w
       else r = 0 \<and> (\<exists>a. neigh_lookup neigh dst = Some (Some a) \<and> wlive w' = wlive w - {a})))"
  using assms by (rule neigh_delete_law)

text \<open>
  C19.  \<open>neigh_release\<close> succeeds on every table that satisfies the invariant and releases exactly the
  memory the table owns, each block once: nothing leaks.
\<close>

theorem neigh_release_correct:
  assumes "neigh_inv family w neigh"
  shows "\<exists>w'. neigh_release w neigh = Some w' \<and> winv w' \<and> wlive w' = wlive w - set (neigh_owned neigh)"
proof -
  let ?as = "map eaddr (entries (table neigh))"
  have a: "winv w" "distinct ?as" "set ?as \<subseteq> wlive w" "nself neigh \<notin> set ?as" "nself neigh \<in> wlive w"
      "hash_entry_delete (table neigh) = neigh_entry_delete"
    using assms neigh_owned_live [OF assms] by (auto simp: neigh_inv_def neigh_owned_def)
  obtain w1 where w1: "delete_seq neigh_entry_delete ?as w = Some w1" "winv w1" "wlive w1 = wlive w - set ?as"
    using delete_seq_free [OF a(1-3)] by blast
  obtain w2 where "wfree w1 (nself neigh) = Some w2" "winv w2" "wlive w2 = wlive w1 - {nself neigh}"
    using wheap.free_law [OF w1(2), of "nself neigh"] w1(3) a(4,5) by auto
  then show ?thesis using w1 a(6) by (auto simp: neigh_release_def hash_delete_all_eq neigh_owned_def)
qed

section \<open>A concrete table\<close>

text \<open>A memory of four megabytes whose first half holds an empty table.\<close>

definition ex_world :: world where
  "ex_world = \<lparr>
     wmem = \<lparr>root = MNode (Some (MNode None None True 0 0x200000 4096)) (Some (MNode None None False 1 0x200000 0x201000))
         True 0 0x400000 4096, headers = [4096 \<mapsto> [False]], numa = \<lambda>_. True, numa_calls = 3\<rparr>,
     nents = Map.empty, fibs = Map.empty, junk = \<lambda>_. replicate 64 0\<rparr>"

definition ex_neigh :: neigh_table where
  "ex_neigh = \<lparr>nself = 4160, table = \<lparr>head = \<lambda>_. [], hash_entry_delete = neigh_entry_delete,
     hash_key_generate = neigh_key_generate_v4, hash_key_compare = neigh_key_compare_v4\<rparr>\<rparr>"

lemma ex_world_bpath:
  "bpath (root (wmem ex_world)) path n \<longleftrightarrow> path = [False] \<and> n = MNode None None True 0 0x200000 4096"
proof (cases path)
  case (Cons i p)
  then show ?thesis by (cases i; cases p) (auto simp: ex_world_def bpath_def child_def)
qed (auto simp: ex_world_def bpath_def)

lemma ex_world_inv: "winv ex_world" "wlive ex_world = {4160}"
proof -
  have "mwf (root (wmem ex_world))" by (simp add: ex_world_def)
  then have "mem_inv (wmem ex_world)"
    unfolding mem_inv_defs ex_world_bpath by (auto simp: ex_world_def)
  then show "winv ex_world" by (auto simp: winv_def ex_world_def)
  show "wlive ex_world = {4160}" unfolding wlive_def mem_live_def ex_world_bpath by auto
qed

lemma ex_neigh_entries: "entries (table ex_neigh) = []"
  by (auto simp: entries_def ex_neigh_def)

lemma ex_neigh_inv: "neigh_inv AF_INET ex_world ex_neigh"
proof -
  have "hash_ok (neigh_gen AF_INET) (neigh_cmp AF_INET) (neigh_view AF_INET) (table ex_neigh)"
    by (simp add: hash_ok_def ex_neigh_def neigh_gen_def neigh_cmp_def)
  moreover have "nself ex_neigh = 4160" "hash_entry_delete (table ex_neigh) = neigh_entry_delete" by (simp_all add: ex_neigh_def)
  moreover have "nents ex_world = Map.empty" by (simp add: ex_world_def)
  ultimately show ?thesis using ex_world_inv by (simp add: neigh_inv_def neigh_owned_def ex_neigh_entries)
qed

lemma ex_world_room: "wroom ex_world sizeof_neigh_entry"
  by (simp add: wroom_def ex_world_def mem_request_def sizeof_neigh_entry_def ALIGN_def L1_CACHE_BYTES_def)

lemma ex_neigh_map: "neigh_map AF_INET ex_world ex_neigh = Map.empty"
  by (rule ext) (simp add: neigh_map_def ex_world_def split: bind_split)

theorem neigh_add_correct_witness:
  "\<exists>neigh' w'. neigh_add ex_world ex_neigh AF_INET [10, 0, 0, 1] [2, 0, 0, 0, 0, 1] = Some (0, neigh', w') \<and>
     neigh_inv AF_INET w' neigh' \<and> neigh_map AF_INET w' neigh' = [neigh_view AF_INET [10, 0, 0, 1] \<mapsto> [2, 0, 0, 0, 0, 1]]"
  using neigh_add_correct [OF ex_neigh_inv, of "[10, 0, 0, 1]" "[2, 0, 0, 0, 0, 1]"] ex_world_room
  by (auto simp: neigh_klen_def ex_neigh_map)

theorem neigh_delete_lookup_correct_witness:
  "\<exists>w neigh neigh' w'. neigh_inv AF_INET w neigh \<and> neigh_map AF_INET w neigh (neigh_view AF_INET [10, 0, 0, 1]) = Some [2, 0, 0, 0, 0, 1] \<and>
     neigh_delete w neigh AF_INET [10, 0, 0, 1] = Some (0, neigh', w') \<and> neigh_map AF_INET w' neigh' (neigh_view AF_INET [10, 0, 0, 1]) = None"
proof -
  obtain neigh w where w: "neigh_inv AF_INET w neigh" "neigh_map AF_INET w neigh (neigh_view AF_INET [10, 0, 0, 1]) = Some [2, 0, 0, 0, 0, 1]"
    using neigh_add_law [OF ex_neigh_inv, of "[10, 0, 0, 1]" "[2, 0, 0, 0, 0, 1]"] ex_world_room by (auto simp: neigh_klen_def ex_neigh_map)
  with neigh_delete_lookup_correct [OF w(1), of "[10, 0, 0, 1]"] show ?thesis by fastforce
qed

theorem neigh_release_correct_witness:
  "\<exists>w'. neigh_release ex_world ex_neigh = Some w' \<and> wlive w' = {}"
  using neigh_release_correct [OF ex_neigh_inv] ex_world_inv(2) by (auto simp: neigh_owned_def ex_neigh_entries) (auto simp: ex_neigh_def)

end
