(* ===== verification/Lpm.thy ===== *)
theory Lpm
  imports Heap
begin

text \<open>
  The longest-prefix-match table of \<open>src/src/lpm.c\<close>: a first level of \<open>2^16\<close> nodes and, below a node, tables
  of \<open>2^8\<close> nodes.  A node has a chain of entries, which is the list of its entries in the order of the
  \<open>hlist\<close>, and possibly a table of further nodes with the address of its block.  Arrays of nodes are
  functions of the index.  The function pointers of the table are fields; they act on the thread's memory.
\<close>

section \<open>Nodes and entries\<close>

record lpm_entry =
  laddr :: addr
  lptr :: addr

datatype lpm_node = LNode (nhead: "lpm_entry list") (next_table: "(addr \<times> (u32 \<Rightarrow> lpm_node)) option")

record lpm_table =
  node :: "u32 \<Rightarrow> lpm_node"
  entry_identify :: "world \<Rightarrow> addr \<Rightarrow> u32 \<Rightarrow> u32 \<Rightarrow> int option"
  entry_compare :: "world \<Rightarrow> addr \<Rightarrow> u32 \<Rightarrow> int option"
  entry_pull :: "addr \<Rightarrow> world \<Rightarrow> world option"
  entry_put :: "addr \<Rightarrow> world \<Rightarrow> world option"

definition TABLE_SIZE_16 :: u32 where "TABLE_SIZE_16 = push_bit 16 1"
definition TABLE_SIZE_8 :: u32 where "TABLE_SIZE_8 = push_bit 8 1"
definition sizeof_lpm_entry :: u32 where "sizeof_lpm_entry = 24"
definition sizeof_lpm_node :: u32 where "sizeof_lpm_node = 16"

definition set_head :: "lpm_entry list \<Rightarrow> lpm_node \<Rightarrow> lpm_node" where
  "set_head h n = LNode h (next_table n)"

definition set_next :: "(addr \<times> (u32 \<Rightarrow> lpm_node)) option \<Rightarrow> lpm_node \<Rightarrow> lpm_node" where
  "set_next t n = LNode (nhead n) t"

text \<open>The values of the loop variable in \<open>for(i = 0; i < n; i++)\<close>.\<close>

definition indices :: "u32 \<Rightarrow> u32 list" where
  "indices n = map of_nat [0..<unat n]"

text \<open>Every node of a fresh table: no chain, no table below.  An index has no meaning beyond the array.\<close>

definition lpm_init_node :: lpm_node where
  "lpm_init_node = LNode [] None"

definition lpm_init :: "lpm_table \<Rightarrow> lpm_table" where
  "lpm_init t = t\<lparr>node := \<lambda>i. lpm_init_node\<rparr>"

definition lpm_index :: "u8 list \<Rightarrow> u32 \<Rightarrow> u32 \<Rightarrow> u32" where
  "lpm_index prefix offset rng =
     (let shift = 32 - ((offset mod 32) + rng); wd = drop_bit 5 offset; msk = push_bit (unat rng) 1 - 1
      in drop_bit (unat shift) (ntohl (load32 prefix (4 * unat wd))) AND msk)"

section \<open>Lookup\<close>

definition below :: "(lpm_node \<times> lpm_node) set" where
  "below = {(c, n). \<exists>a tb i. next_table n = Some (a, tb) \<and> c = tb i}"

lemma wf_below: "wf below"
proof (rule wfUNIVI)
  fix P :: "lpm_node \<Rightarrow> bool" and n
  assume ih: "\<forall>n. (\<forall>c. (c, n) \<in> below \<longrightarrow> P c) \<longrightarrow> P n"
  show "P n"
  proof (induction n)
    case (LNode h nx)
    have "P c" if "(c, LNode h nx) \<in> below" for c
      using that LNode by (fastforce simp: below_def)
    then show ?case using ih by blast
  qed
qed

lemma below_I: "next_table n = Some (a, tb) \<Longrightarrow> (tb i, n) \<in> below"
  by (auto simp: below_def)

text \<open>\<open>_lpm_lookup\<close>: the chain to use, or \<open>None\<close> for \<open>NULL\<close>.\<close>

function lpm_lookup_sub :: "u8 list \<Rightarrow> lpm_node \<Rightarrow> u32 \<Rightarrow> lpm_entry list option" where
  "lpm_lookup_sub dst parent offset =
     (case next_table parent of
        None \<Rightarrow> None
      | Some (a, tb) \<Rightarrow>
          let nd = tb (lpm_index dst offset 8)
          in if next_table nd \<noteq> None
             then case lpm_lookup_sub dst nd (offset + 8) of
                    None \<Rightarrow> if nhead nd \<noteq> [] then Some (nhead nd) else None
                  | Some h \<Rightarrow> Some h
             else if nhead nd \<noteq> [] then Some (nhead nd) else None)"
  by pat_completeness auto
termination
  by (relation "inv_image below (\<lambda>(dst, n, off). n)") (auto simp: wf_below below_I)

declare lpm_lookup_sub.simps [simp del]

definition lpm_lookup :: "lpm_table \<Rightarrow> u8 list \<Rightarrow> lpm_entry option" where
  "lpm_lookup t dst =
     (let nd = node t (lpm_index dst 0 16);
          h = (if next_table nd \<noteq> None
               then case lpm_lookup_sub dst nd 16 of None \<Rightarrow> nhead nd | Some h \<Rightarrow> h
               else nhead nd)
      in case h of [] \<Rightarrow> None | e # _ \<Rightarrow> Some e)"

section \<open>Chains\<close>

text \<open>
  The loop of \<open>lpm_entry_insert\<close>: \<open>None\<close> inside the result is an entry that already exists; otherwise
  the number of entries up to and including \<open>prior\<close>, 0 when \<open>prior\<close> stays \<open>NULL\<close>.
\<close>

fun lpm_insert_scan :: "lpm_table \<Rightarrow> world \<Rightarrow> u32 \<Rightarrow> u32 \<Rightarrow> lpm_entry list \<Rightarrow> nat \<Rightarrow> nat \<Rightarrow> nat option option" where
  "lpm_insert_scan t w rid prefix_len [] k prior = Some (Some prior)"
| "lpm_insert_scan t w rid prefix_len (e # es) k prior = do {
     r \<leftarrow> entry_identify t w (lptr e) rid prefix_len;
     (if r = 0 then Some None else do {
        c \<leftarrow> entry_compare t w (lptr e) prefix_len;
        lpm_insert_scan t w rid prefix_len es (k + 1) (if c \<noteq> 0 then k + 1 else prior) }) }"

definition lpm_entry_insert ::
    "lpm_table \<Rightarrow> lpm_entry list \<Rightarrow> u32 \<Rightarrow> u32 \<Rightarrow> lpm_entry \<Rightarrow> world \<Rightarrow> (int \<times> lpm_entry list \<times> world) option" where
  "lpm_entry_insert t h rid prefix_len e w = do {
     r \<leftarrow> lpm_insert_scan t w rid prefix_len h 0 0;
     (case r of
        None \<Rightarrow> Some (-1, h, w)
      | Some k \<Rightarrow> do {
          w' \<leftarrow> entry_pull t (lptr e) w;
          Some (0, take k h @ e # drop k h, w') }) }"

fun lpm_delete_scan :: "lpm_table \<Rightarrow> world \<Rightarrow> u32 \<Rightarrow> u32 \<Rightarrow> lpm_entry list \<Rightarrow> lpm_entry option option" where
  "lpm_delete_scan t w rid prefix_len [] = Some None"
| "lpm_delete_scan t w rid prefix_len (e # es) = do {
     r \<leftarrow> entry_identify t w (lptr e) rid prefix_len;
     (if r = 0 then Some (Some e) else lpm_delete_scan t w rid prefix_len es) }"

definition lpm_entry_delete ::
    "lpm_table \<Rightarrow> lpm_entry list \<Rightarrow> u32 \<Rightarrow> u32 \<Rightarrow> world \<Rightarrow> (int \<times> lpm_entry list \<times> world) option" where
  "lpm_entry_delete t h rid prefix_len w = do {
     r \<leftarrow> lpm_delete_scan t w rid prefix_len h;
     (case r of
        None \<Rightarrow> Some (-1, h, w)
      | Some e \<Rightarrow> do {
          w1 \<leftarrow> entry_put t (lptr e) w;
          w2 \<leftarrow> wfree w1 (laddr e);
          Some (0, remove1 e h, w2) }) }"

definition lpm_entry_delete_all :: "lpm_table \<Rightarrow> lpm_entry list \<Rightarrow> world \<Rightarrow> world option" where
  "lpm_entry_delete_all t h w =
     for_each (\<lambda>e w. do { w1 \<leftarrow> entry_put t (lptr e) w; wfree w1 (laddr e) }) h w"

section \<open>Insertion\<close>

text \<open>
  The loop of \<open>lpm_add\<close> and \<open>_lpm_add\<close> over the nodes \<open>index | i\<close>: whether it ran to its end, the number of
  entries inserted, the nodes and the memory.
\<close>

fun lpm_add_loop ::
    "lpm_table \<Rightarrow> u32 \<Rightarrow> u32 \<Rightarrow> addr \<Rightarrow> u32 \<Rightarrow> u32 list \<Rightarrow> nat \<Rightarrow> (u32 \<Rightarrow> lpm_node) \<Rightarrow> world \<Rightarrow>
     (bool \<times> nat \<times> (u32 \<Rightarrow> lpm_node) \<times> world) option" where
  "lpm_add_loop t rid prefix_len obj ix [] n tb w = Some (True, n, tb, w)"
| "lpm_add_loop t rid prefix_len obj ix (i # ks) n tb w = do {
     (r, w1) \<leftarrow> walloc w sizeof_lpm_entry;
     (case r of
        None \<Rightarrow> Some (False, n, tb, w1)
      | Some entry \<Rightarrow> do {
          (ret, h, w2) \<leftarrow> lpm_entry_insert t (nhead (tb (ix OR i))) rid prefix_len \<lparr>laddr = entry, lptr = obj\<rparr> w1;
          (if ret < 0 then do { w3 \<leftarrow> wfree w2 entry; Some (False, n, tb, w3) }
           else lpm_add_loop t rid prefix_len obj ix ks (n + 1)
             (tb(ix OR i := set_head h (tb (ix OR i)))) w2) }) }"

text \<open>\<open>err_lpm_add_self\<close>: the entries of the first \<open>n\<close> nodes are deleted again.\<close>

definition lpm_rollback ::
    "lpm_table \<Rightarrow> u32 \<Rightarrow> u32 \<Rightarrow> u32 \<Rightarrow> nat \<Rightarrow> (u32 \<Rightarrow> lpm_node) \<Rightarrow> world \<Rightarrow> ((u32 \<Rightarrow> lpm_node) \<times> world) option" where
  "lpm_rollback t rid prefix_len ix n tb w =
     for_each (\<lambda>i (tb, w). do {
         (ret, h, w') \<leftarrow> lpm_entry_delete t (nhead (tb (ix OR i))) rid prefix_len w;
         Some (tb(ix OR i := set_head h (tb (ix OR i))), w') })
       (map of_nat [0..<n]) (tb, w)"

definition nodes_empty :: "(u32 \<Rightarrow> lpm_node) \<Rightarrow> bool" where
  "nodes_empty tb \<longleftrightarrow> (\<forall>i \<in> set (indices TABLE_SIZE_8). next_table (tb i) = None \<and> nhead (tb i) = [])"

text \<open>\<open>err_lpm_add\<close> and the end of \<open>_lpm_delete\<close>: a table without any entry is released.\<close>

definition lpm_release_empty :: "lpm_node \<Rightarrow> addr \<Rightarrow> (u32 \<Rightarrow> lpm_node) \<Rightarrow> world \<Rightarrow> (lpm_node \<times> world) option" where
  "lpm_release_empty parent a tb w =
     (if nodes_empty tb then do { w' \<leftarrow> wfree w a; Some (set_next None parent, w') }
      else Some (set_next (Some (a, tb)) parent, w))"

lemma offset_step: "8 < x \<Longrightarrow> unat (x - 8) < unat (x :: u32)"
  by (simp add: word_less_nat_alt unat_minus_no_wrap)

function lpm_add_sub ::
    "lpm_table \<Rightarrow> u8 list \<Rightarrow> u32 \<Rightarrow> u32 \<Rightarrow> addr \<Rightarrow> lpm_node \<Rightarrow> u32 \<Rightarrow> world \<Rightarrow> (int \<times> lpm_node \<times> world) option" where
  "lpm_add_sub t prefix prefix_len rid obj parent offset w = do {
     (r, w1) \<leftarrow> (case next_table parent of
        Some nx \<Rightarrow> Some (Some nx, w)
      | None \<Rightarrow> map_option (\<lambda>(r, w1). (map_option (\<lambda>a. (a, \<lambda>_. lpm_init_node)) r, w1))
          (walloc w (sizeof_lpm_node * TABLE_SIZE_8)));
     (case r of
        None \<Rightarrow> Some (-1, parent, w1)
      | Some (a, tb) \<Rightarrow>
          let ix = lpm_index prefix offset 8
          in if prefix_len - offset > 8 then do {
               (ret, nd, w2) \<leftarrow> lpm_add_sub t prefix prefix_len rid obj (tb ix) (offset + 8) w1;
               (let tb' = tb(ix := nd)
                in if ret < 0 then do { (p, w3) \<leftarrow> lpm_release_empty parent a tb' w2; Some (-1, p, w3) }
                   else Some (0, set_next (Some (a, tb')) parent, w2)) }
             else do {
               let rng = push_bit (unat (8 - (prefix_len - offset))) 1;
               let ix = ix AND NOT (rng - 1);
               (ok, n, tb', w2) \<leftarrow> lpm_add_loop t rid prefix_len obj ix (indices rng) 0 tb w1;
               (if ok then Some (0, set_next (Some (a, tb')) parent, w2)
                else do {
                  (tb'', w3) \<leftarrow> lpm_rollback t rid prefix_len ix 0 tb' w2;
                  (p, w4) \<leftarrow> lpm_release_empty parent a tb'' w3;
                  Some (-1, p, w4) }) }) }"
  by pat_completeness auto
termination
proof (relation "measure (\<lambda>(t, prefix, prefix_len, rid, obj, parent, offset, w). unat (prefix_len - offset))", goal_cases)
  case 2
  then show ?case using offset_step by (simp add: diff_diff_eq [symmetric])
qed simp

declare lpm_add_sub.simps [simp del]

definition lpm_add ::
    "lpm_table \<Rightarrow> u8 list \<Rightarrow> u32 \<Rightarrow> u32 \<Rightarrow> addr \<Rightarrow> world \<Rightarrow> (int \<times> lpm_table \<times> world) option" where
  "lpm_add t prefix prefix_len rid obj w =
     (let ix = lpm_index prefix 0 16
      in if prefix_len > 16 then do {
           (ret, nd, w') \<leftarrow> lpm_add_sub t prefix prefix_len rid obj (node t ix) 16 w;
           Some (if ret < 0 then -1 else 0, t\<lparr>node := (node t)(ix := nd)\<rparr>, w') }
         else do {
           let rng = push_bit (unat (16 - prefix_len)) 1;
           let ix = ix AND NOT (rng - 1);
           (ok, n, tb, w1) \<leftarrow> lpm_add_loop t rid prefix_len obj ix (indices rng) 0 (node t) w;
           (if ok then Some (0, t\<lparr>node := tb\<rparr>, w1)
            else do {
              (tb', w2) \<leftarrow> lpm_rollback t rid prefix_len ix n tb w1;
              Some (-1, t\<lparr>node := tb'\<rparr>, w2) }) })"

section \<open>Deletion\<close>

text \<open>The loop of \<open>lpm_delete\<close> and \<open>_lpm_delete\<close>, which stops at the first node without the entry.\<close>

fun lpm_delete_loop ::
    "lpm_table \<Rightarrow> u32 \<Rightarrow> u32 \<Rightarrow> u32 \<Rightarrow> u32 list \<Rightarrow> (u32 \<Rightarrow> lpm_node) \<Rightarrow> world \<Rightarrow>
     (bool \<times> (u32 \<Rightarrow> lpm_node) \<times> world) option" where
  "lpm_delete_loop t rid prefix_len ix [] tb w = Some (True, tb, w)"
| "lpm_delete_loop t rid prefix_len ix (i # ks) tb w = do {
     (ret, h, w') \<leftarrow> lpm_entry_delete t (nhead (tb (ix OR i))) rid prefix_len w;
     (let tb' = tb(ix OR i := set_head h (tb (ix OR i)))
      in if ret < 0 then Some (False, tb', w') else lpm_delete_loop t rid prefix_len ix ks tb' w') }"

function lpm_delete_sub ::
    "lpm_table \<Rightarrow> u8 list \<Rightarrow> u32 \<Rightarrow> u32 \<Rightarrow> lpm_node \<Rightarrow> u32 \<Rightarrow> world \<Rightarrow> (int \<times> lpm_node \<times> world) option" where
  "lpm_delete_sub t prefix prefix_len rid parent offset w =
     (case next_table parent of
        None \<Rightarrow> Some (-1, parent, w)
      | Some (a, tb) \<Rightarrow> do {
          let ix = lpm_index prefix offset 8;
          (ok, tb', w1) \<leftarrow>
            (if prefix_len - offset > 8 then do {
               (ret, nd, w1) \<leftarrow> lpm_delete_sub t prefix prefix_len rid (tb ix) (offset + 8) w;
               Some (\<not> ret < 0, tb(ix := nd), w1) }
             else
               let rng = push_bit (unat (8 - (prefix_len - offset))) 1;
                   ix = ix AND NOT (rng - 1)
               in lpm_delete_loop t rid prefix_len ix (indices rng) tb w);
          (if ok then do { (p, w2) \<leftarrow> lpm_release_empty parent a tb' w1; Some (0, p, w2) }
           else Some (-1, set_next (Some (a, tb')) parent, w1)) })"
  by pat_completeness auto
termination
proof (relation "measure (\<lambda>(t, prefix, prefix_len, rid, parent, offset, w). unat (prefix_len - offset))", goal_cases)
  case 2
  then show ?case using offset_step by (simp add: diff_diff_eq [symmetric])
qed simp

declare lpm_delete_sub.simps [simp del]

definition lpm_delete :: "lpm_table \<Rightarrow> u8 list \<Rightarrow> u32 \<Rightarrow> u32 \<Rightarrow> world \<Rightarrow> (int \<times> lpm_table \<times> world) option" where
  "lpm_delete t prefix prefix_len rid w =
     (let ix = lpm_index prefix 0 16
      in if prefix_len > 16 then do {
           (ret, nd, w') \<leftarrow> lpm_delete_sub t prefix prefix_len rid (node t ix) 16 w;
           Some (if ret < 0 then -1 else 0, t\<lparr>node := (node t)(ix := nd)\<rparr>, w') }
         else do {
           let rng = push_bit (unat (16 - prefix_len)) 1;
           let ix = ix AND NOT (rng - 1);
           (ok, tb, w') \<leftarrow> lpm_delete_loop t rid prefix_len ix (indices rng) (node t) w;
           Some (if ok then 0 else -1, t\<lparr>node := tb\<rparr>, w') })"

function lpm_delete_all_sub :: "lpm_table \<Rightarrow> lpm_node \<Rightarrow> world \<Rightarrow> (lpm_node \<times> world) option" where
  "lpm_delete_all_sub t parent w =
     (case next_table parent of
        None \<Rightarrow> Some (parent, w)
      | Some (a, tb) \<Rightarrow> do {
          w1 \<leftarrow> for_each (\<lambda>i w. do {
              (nd, w') \<leftarrow> lpm_delete_all_sub t (tb i) w;
              (if nhead nd \<noteq> [] then lpm_entry_delete_all t (nhead nd) w' else Some w') })
            (indices TABLE_SIZE_8) w;
          w2 \<leftarrow> wfree w1 a;
          Some (set_next None parent, w2) })"
  by pat_completeness auto
termination
  by (relation "inv_image below (\<lambda>(t, n, w). n)") (auto simp: wf_below below_I)

declare lpm_delete_all_sub.simps [simp del]

definition lpm_delete_all :: "lpm_table \<Rightarrow> world \<Rightarrow> (lpm_table \<times> world) option" where
  "lpm_delete_all t w = do {
     (tb, w') \<leftarrow> for_each (\<lambda>i (tb, w). do {
         (nd, w1) \<leftarrow> lpm_delete_all_sub t (tb i) w;
         (if nhead nd \<noteq> [] then do {
            w2 \<leftarrow> lpm_entry_delete_all t (nhead nd) w1;
            Some (tb(i := set_head [] nd), w2) }
          else Some (tb(i := nd), w1)) })
       (indices TABLE_SIZE_16) (node t, w);
     Some (t\<lparr>node := tb\<rparr>, w') }"

section \<open>Traversal\<close>

text \<open>The chains given to \<open>entry_dump\<close>, in order, and the return value.\<close>

definition lpm_dump_range :: "u32 \<Rightarrow> u32 \<Rightarrow> (u32 \<Rightarrow> lpm_node) \<Rightarrow> lpm_entry list list" where
  "lpm_dump_range ix rng tb = filter (\<lambda>h. h \<noteq> []) (map (\<lambda>i. nhead (tb (ix OR i))) (indices rng))"

function lpm_traverse_sub :: "u8 list \<Rightarrow> u32 \<Rightarrow> lpm_node \<Rightarrow> u32 \<Rightarrow> int \<times> lpm_entry list list" where
  "lpm_traverse_sub prefix prefix_len parent offset =
     (case next_table parent of
        None \<Rightarrow> (-1, [])
      | Some (a, tb) \<Rightarrow>
          let ix = lpm_index prefix offset 8
          in if prefix_len - offset > 8
             then (0, snd (lpm_traverse_sub prefix prefix_len (tb ix) (offset + 8)))
             else let rng = push_bit (unat (8 - (prefix_len - offset))) 1;
                      ix = ix AND NOT (rng - 1)
                  in (0, lpm_dump_range ix rng tb))"
  by pat_completeness auto
termination
proof (relation "measure (\<lambda>(prefix, prefix_len, parent, offset). unat (prefix_len - offset))", goal_cases)
  case 2
  then show ?case using offset_step by (simp add: diff_diff_eq [symmetric])
qed simp

declare lpm_traverse_sub.simps [simp del]

definition lpm_traverse :: "lpm_table \<Rightarrow> u8 list \<Rightarrow> u32 \<Rightarrow> int \<times> lpm_entry list list" where
  "lpm_traverse t prefix prefix_len =
     (let ix = lpm_index prefix 0 16
      in if prefix_len > 16
         then (0, snd (lpm_traverse_sub prefix prefix_len (node t ix) 16))
         else let rng = push_bit (unat (16 - prefix_len)) 1;
                  ix = ix AND NOT (rng - 1)
              in (0, lpm_dump_range ix rng (node t)))"

end
