(* ===== verification/Lpm_Tree.thy ===== *)
theory Lpm_Tree
  imports Lpm "HOL-Library.Multiset"
begin

text \<open>
  The tree of a longest-prefix-match table seen through the paths of its nodes: the chain at a path, the
  paths a prefix covers, and the blocks of memory that the tree owns.
\<close>

section \<open>Paths\<close>

fun ents :: "lpm_node \<Rightarrow> u32 list \<Rightarrow> lpm_entry list" where
  "ents n [] = nhead n"
| "ents n (i # q) = (case next_table n of None \<Rightarrow> [] | Some (a, tb) \<Rightarrow> ents (tb i) q)"

fun tents :: "(u32 \<Rightarrow> lpm_node) \<Rightarrow> u32 list \<Rightarrow> lpm_entry list" where
  "tents tb [] = []"
| "tents tb (i # q) = ents (tb i) q"

text \<open>The nodes \<open>index | i\<close> with \<open>i < 2^k\<close>: those that agree with \<open>x\<close> except for the last \<open>k\<close> bits.\<close>

definition block :: "u32 \<Rightarrow> nat \<Rightarrow> u32 set" where
  "block x k = {j. j AND NOT (mask k) = x AND NOT (mask k)}"

fun tgt_sub :: "u8 list \<Rightarrow> u32 \<Rightarrow> u32 \<Rightarrow> u32 list \<Rightarrow> bool" where
  "tgt_sub pf len off [] \<longleftrightarrow> False"
| "tgt_sub pf len off (j # q) \<longleftrightarrow>
     (if len - off > 8 then j = lpm_index pf off 8 \<and> tgt_sub pf len (off + 8) q
      else q = [] \<and> j \<in> block (lpm_index pf off 8) (unat (8 - (len - off))))"

fun tgt :: "u8 list \<Rightarrow> u32 \<Rightarrow> u32 list \<Rightarrow> bool" where
  "tgt pf len [] \<longleftrightarrow> False"
| "tgt pf len (j # q) \<longleftrightarrow>
     (if len > 16 then j = lpm_index pf 0 16 \<and> tgt_sub pf len 16 q
      else q = [] \<and> j \<in> block (lpm_index pf 0 16) (unat (16 - len)))"

lemma set_head_simps [simp]: "nhead (set_head h n) = h" "next_table (set_head h n) = next_table n"
  "nhead (set_next t n) = nhead n" "next_table (set_next t n) = t"
  by (simp_all add: set_head_def set_next_def)

lemma ents_set_head: "ents (set_head h n) q = (if q = [] then h else ents n q)"
  by (cases q) auto

lemma ents_init [simp]: "ents lpm_init_node q = []"
  by (cases q) (auto simp: lpm_init_node_def)

lemma mask_u32: "push_bit k 1 - 1 = (mask k :: u32)"
  by (simp add: mask_eq_decr_exp push_bit_eq_mult)

lemma set_indices: "set (indices n) = {i. i < n}"
proof -
  have "i \<in> of_nat ` {0..<unat n}" if "i < n" for i :: u32
    using that by (intro image_eqI [of _ _ "unat i"]) (auto simp: word_less_nat_alt)
  moreover have "of_nat m < n" if "m < unat n" for m
  proof -
    have "m < 4294967296" by (rule less_trans [OF that unat_bound_u32])
    then show ?thesis using that by (simp add: word_less_nat_alt unat_of_nat)
  qed
  ultimately show ?thesis by (auto simp: indices_def)
qed

lemma distinct_indices: "distinct (indices n)"
proof -
  have "m mod 4294967296 = m" if "m < unat n" for m
    using less_trans [OF that unat_bound_u32] by simp
  then show ?thesis by (auto simp: indices_def distinct_map inj_on_def word_unat_eq_iff unat_of_nat)
qed

lemma length_indices [simp]: "length (indices n) = unat n"
  by (simp add: indices_def)

lemma unat_push_bit_1:
  assumes "k < 32"
  shows "unat (push_bit k 1 :: u32) = 2 ^ k"
proof -
  have "(2 :: nat) ^ k < 2 ^ LENGTH(32)" using assms by (intro power_strict_increasing) auto
  then have "unat (of_nat (2 ^ k) :: u32) = 2 ^ k" by (simp only: unat_of_nat mod_less)
  then show ?thesis by (simp add: push_bit_eq_mult)
qed

lemma less_push_bit: "k < 32 \<Longrightarrow> i < push_bit k 1 \<longleftrightarrow> (\<forall>m. bit i m \<longrightarrow> m < k)" for i :: u32
proof
  assume k: "k < 32" "i < push_bit k 1"
  then have "unat i < 2 ^ k" by (simp only: word_less_nat_alt unat_push_bit_1)
  then show "\<forall>m. bit i m \<longrightarrow> m < k" using not_bit_if_less [of i k] by (meson not_le)
next
  assume k: "k < 32" "\<forall>m. bit i m \<longrightarrow> m < k"
  then have "take_bit k i = i" by (auto simp: bit_eq_iff bit_take_bit_iff)
  then have "unat i = unat i mod 2 ^ k" by (metis unsigned_take_bit_eq take_bit_eq_mod)
  then have "unat i < 2 ^ k" by (metis mod_less_divisor zero_less_numeral zero_less_power)
  then show "i < push_bit k 1" using k(1) by (simp only: word_less_nat_alt unat_push_bit_1)
qed

lemma block_image:
  assumes "k < 32"
  shows "block x k = (\<lambda>i. (x AND NOT (mask k)) OR i) ` set (indices (push_bit k 1))"
proof (intro set_eqI iffI)
  fix j
  assume j: "j \<in> block x k"
  have "j = (x AND NOT (mask k)) OR (j AND mask k)"
    using j by (auto simp: block_def bit_eq_iff bit_simps)
  moreover have "j AND mask k \<in> set (indices (push_bit k 1))"
    unfolding set_indices using less_push_bit [OF assms] by (simp add: bit_simps)
  ultimately show "j \<in> (\<lambda>i. (x AND NOT (mask k)) OR i) ` set (indices (push_bit k 1))" by blast
next
  fix j
  assume "j \<in> (\<lambda>i. (x AND NOT (mask k)) OR i) ` set (indices (push_bit k 1))"
  then obtain i where i: "j = (x AND NOT (mask k)) OR i" "\<forall>m. bit i m \<longrightarrow> m < k"
    using less_push_bit [OF assms] by (auto simp: set_indices)
  then show "j \<in> block x k" by (auto simp: block_def bit_eq_iff bit_simps)
qed

lemma inj_or_block:
  assumes "k < 32"
  shows "inj_on (\<lambda>i. (x AND NOT (mask k)) OR i) (set (indices (push_bit k 1)))"
proof (rule inj_onI)
  fix i j
  assume "i \<in> set (indices (push_bit k 1))" "j \<in> set (indices (push_bit k 1))"
    and e: "(x AND NOT (mask k)) OR i = (x AND NOT (mask k)) OR j"
  then have "\<forall>m. bit i m \<longrightarrow> m < k" "\<forall>m. bit j m \<longrightarrow> m < k" using less_push_bit [OF assms] by (auto simp: set_indices)
  moreover have "((x AND NOT (mask k)) OR i) AND mask k = ((x AND NOT (mask k)) OR j) AND mask k" using e by simp
  ultimately show "i = j" by (simp add: bit_eq_iff bit_simps) blast
qed

lemma block_disjoint: "block x k \<inter> block y k \<noteq> {} \<Longrightarrow> block x k = block y k"
  by (auto simp: block_def)

section \<open>The blocks of a tree\<close>

function own :: "lpm_node \<Rightarrow> addr multiset" where
  "own n = mset (map laddr (nhead n)) +
     (case next_table n of None \<Rightarrow> {#} | Some (a, tb) \<Rightarrow> add_mset a (\<Sum>i \<in> UNIV. own (tb i)))"
  by pat_completeness auto
termination
  by (relation below) (auto simp: wf_below below_I)

declare own.simps [simp del]

definition town :: "(u32 \<Rightarrow> lpm_node) \<Rightarrow> addr multiset" where
  "town tb = (\<Sum>i \<in> UNIV. own (tb i))"

lemma own_eq: "own n = mset (map laddr (nhead n)) + (case next_table n of None \<Rightarrow> {#} | Some (a, tb) \<Rightarrow> add_mset a (town tb))"
  by (simp add: own.simps [of n] town_def split: option.split)

lemma own_init [simp]: "own lpm_init_node = {#}" "town (\<lambda>_. lpm_init_node) = {#}"
  by (simp_all add: own_eq lpm_init_node_def town_def)

lemma town_split: "town tb = own (tb j) + (\<Sum>i \<in> UNIV - {j}. own (tb i))"
  by (simp add: town_def sum.remove [of UNIV j])

lemma town_upd: "town (tb(j := n)) + own (tb j) = town tb + own n"
proof -
  have "(\<Sum>i \<in> UNIV - {j}. own ((tb(j := n)) i)) = (\<Sum>i \<in> UNIV - {j}. own (tb i))" by (rule sum.cong) auto
  then show ?thesis using town_split [of tb j] town_split [of "tb(j := n)" j] by simp
qed

lemma own_set_head: "own (set_head h n) + mset (map laddr (nhead n)) = own n + mset (map laddr h)"
  by (simp add: own_eq)

text \<open>Beyond the 256 entries of its array a table has nothing.\<close>

function wft :: "lpm_node \<Rightarrow> bool" where
  "wft n \<longleftrightarrow> (case next_table n of None \<Rightarrow> True
     | Some (a, tb) \<Rightarrow> (\<forall>i. wft (tb i)) \<and> (\<forall>i. \<not> i < TABLE_SIZE_8 \<longrightarrow> tb i = lpm_init_node))"
  by pat_completeness auto
termination
  by (relation below) (auto simp: wf_below below_I)

declare wft.simps [simp del]

lemma wft_simps: "next_table n = None \<Longrightarrow> wft n"
  "next_table n = Some (a, tb) \<Longrightarrow> wft n \<longleftrightarrow> (\<forall>i. wft (tb i)) \<and> (\<forall>i. \<not> i < TABLE_SIZE_8 \<longrightarrow> tb i = lpm_init_node)"
  by (simp_all add: wft.simps [of n])

lemma wft_init [simp]: "wft lpm_init_node"
  by (simp add: wft_simps lpm_init_node_def)

lemma wft_cong: "next_table n = next_table n' \<Longrightarrow> wft n = wft n'"
  by (simp add: wft.simps)

lemma nodes_empty_town:
  assumes "\<forall>i. \<not> i < TABLE_SIZE_8 \<longrightarrow> tb i = lpm_init_node" "nodes_empty tb"
  shows "tb = (\<lambda>_. lpm_init_node)"
proof
  fix i
  show "tb i = lpm_init_node"
    using assms by (cases "tb i"; cases "i < TABLE_SIZE_8") (auto simp: nodes_empty_def set_indices lpm_init_node_def)
qed

lemma lpm_index_8: "lpm_index pf off 8 < TABLE_SIZE_8"
proof -
  have "lpm_index pf off 8 AND mask 8 = lpm_index pf off 8"
    by (simp add: lpm_index_def Let_def mask_eq_decr_exp bit_eq_iff bit_simps)
  then have "\<forall>m. bit (lpm_index pf off 8) m \<longrightarrow> m < 8" by (metis bit_and_iff bit_mask_iff)
  then show ?thesis unfolding TABLE_SIZE_8_def by (subst less_push_bit) simp_all
qed

lemma block_8:
  assumes "x < TABLE_SIZE_8" "k \<le> 8" "j \<in> block x k"
  shows "j < TABLE_SIZE_8"
proof -
  have x: "\<forall>m. bit x m \<longrightarrow> m < 8" using assms(1) unfolding TABLE_SIZE_8_def by (subst (asm) less_push_bit) simp_all
  have "bit j m \<longleftrightarrow> bit x m" if "k \<le> m" "m < 32" for m
    using assms(3) that by (auto simp: block_def bit_eq_iff bit_simps)
  moreover have "m < 32" if "bit j m" for m using that by (auto dest: bit_imp_le_length)
  ultimately have "\<forall>m. bit j m \<longrightarrow> m < 8" using x assms(2) by (meson not_le order.trans)
  then show ?thesis unfolding TABLE_SIZE_8_def by (subst less_push_bit) simp_all
qed

text \<open>
  An operation whose only effect on the allocator is that it takes the blocks \<open>S\<close> into the tree.
\<close>

definition grows :: "world \<Rightarrow> addr multiset \<Rightarrow> world \<Rightarrow> addr multiset \<Rightarrow> bool" where
  "grows w M w' M' \<longleftrightarrow> (\<exists>S. finite S \<and> S \<inter> wlive w = {} \<and> wlive w' = wlive w \<union> S \<and> M' = M + mset_set S)"

lemma grows_refl: "wlive w' = wlive w \<Longrightarrow> grows w M w' M"
  unfolding grows_def by (intro exI [of _ "{}"]) simp

lemma grows_one: "a \<notin> wlive w \<Longrightarrow> wlive w' = insert a (wlive w) \<Longrightarrow> M' = add_mset a M \<Longrightarrow> grows w M w' M'"
  unfolding grows_def by (intro exI [of _ "{a}"]) simp

lemma grows_trans:
  assumes "grows w M w1 M1" "grows w1 M1 w2 M2"
  shows "grows w M w2 M2"
proof -
  obtain S where S: "finite S" "S \<inter> wlive w = {}" "wlive w1 = wlive w \<union> S" "M1 = M + mset_set S"
    using assms(1) by (auto simp: grows_def)
  obtain S' where S': "finite S'" "S' \<inter> wlive w1 = {}" "wlive w2 = wlive w1 \<union> S'" "M2 = M1 + mset_set S'"
    using assms(2) by (auto simp: grows_def)
  have "mset_set (S \<union> S') = mset_set S + mset_set S'"
    using S S' by (intro mset_set_Union) auto
  then show ?thesis unfolding grows_def using S S' by (intro exI [of _ "S \<union> S'"]) auto
qed

lemma grows_frame: "grows w M w' M' \<Longrightarrow> grows w (M + N) w' (M' + N)"
  by (auto simp: grows_def)

lemma grows_live: "grows w M w' M' \<Longrightarrow> wlive w \<subseteq> wlive w'"
  by (auto simp: grows_def)

lemma grows_cancel:
  assumes "M1 + N = M + N'" "grows w N w' N'"
  shows "grows w M w' M1"
proof -
  obtain S where S: "finite S" "S \<inter> wlive w = {}" "wlive w' = wlive w \<union> S" "N' = N + mset_set S"
    using assms(2) by (auto simp: grows_def)
  have "M1 + N = (M + mset_set S) + N" using assms(1) S(4) by (simp add: ac_simps)
  then have "M1 = M + mset_set S" by (simp only: add_right_cancel)
  then show ?thesis using S by (auto simp: grows_def)
qed

lemma filter_take_drop:
  assumes "sorted_wrt (\<lambda>x y. P y \<longrightarrow> P x) xs"
  shows "take (length (filter P xs)) xs = filter P xs" "drop (length (filter P xs)) xs = filter (\<lambda>x. \<not> P x) xs"
proof -
  have "filter P xs = [] \<and> filter (\<lambda>x. \<not> P x) xs = xs" if "\<forall>x \<in> set xs. \<not> P x" for xs
    using that by (simp add: filter_id_conv)
  then have "take (length (filter P xs)) xs = filter P xs \<and> drop (length (filter P xs)) xs = filter (\<lambda>x. \<not> P x) xs"
    using assms by (induction xs) auto
  then show "take (length (filter P xs)) xs = filter P xs" "drop (length (filter P xs)) xs = filter (\<lambda>x. \<not> P x) xs" by auto
qed

section \<open>What the table relies on\<close>

text \<open>
  The objects that the entries point to have a key, the identifier and the prefix length, and a count of
  references.  The four functions of the table read the key and change the count, and \<open>entry_put\<close> releases
  the object with the last reference.
\<close>

definition has_ops ::
    "lpm_table \<Rightarrow> (world \<Rightarrow> addr \<Rightarrow> u32 \<Rightarrow> u32 \<Rightarrow> int option) \<Rightarrow> (world \<Rightarrow> addr \<Rightarrow> u32 \<Rightarrow> int option) \<Rightarrow>
     (addr \<Rightarrow> world \<Rightarrow> world option) \<Rightarrow> (addr \<Rightarrow> world \<Rightarrow> world option) \<Rightarrow> bool" where
  "has_ops t idf cmp pull put \<longleftrightarrow>
     entry_identify t = idf \<and> entry_compare t = cmp \<and> entry_pull t = pull \<and> entry_put t = put"

locale lpm_client =
  fixes idf :: "world \<Rightarrow> addr \<Rightarrow> u32 \<Rightarrow> u32 \<Rightarrow> int option"
    and cmp :: "world \<Rightarrow> addr \<Rightarrow> u32 \<Rightarrow> int option"
    and pull :: "addr \<Rightarrow> world \<Rightarrow> world option"
    and put :: "addr \<Rightarrow> world \<Rightarrow> world option"
    and obj :: "world \<Rightarrow> addr \<Rightarrow> 'o option"
    and key :: "'o \<Rightarrow> u32 \<times> u32"
    and refs :: "'o \<Rightarrow> u32"
    and set_refs :: "u32 \<Rightarrow> 'o \<Rightarrow> 'o"
  assumes idf_law: "idf w p i l = map_option (\<lambda>x. if key x = (i, l) then 0 else 1) (obj w p)"
    and cmp_law: "cmp w p l = map_option (\<lambda>x. if l < snd (key x) then 1 else 0) (obj w p)"
    and pull_law: "\<lbrakk>winv w; obj w p = Some x\<rbrakk> \<Longrightarrow> \<exists>w'. pull p w = Some w' \<and> winv w' \<and> wlive w' = wlive w \<and>
      obj w' = (obj w)(p \<mapsto> set_refs (refs x + 1) x)"
    and put_law: "\<lbrakk>winv w; obj w p = Some x\<rbrakk> \<Longrightarrow> \<exists>w'. put p w = Some w' \<and> winv w' \<and>
      (if refs x = 1 then wlive w' = wlive w - {p} \<and> obj w' = (obj w)(p := None)
       else wlive w' = wlive w \<and> obj w' = (obj w)(p \<mapsto> set_refs (refs x - 1) x))"
    and obj_live: "\<lbrakk>winv w; obj w p = Some x\<rbrakk> \<Longrightarrow> p \<in> wlive w"
    and obj_alloc: "walloc w n = Some (res, w') \<Longrightarrow> obj w' = obj w"
    and obj_free: "wfree w a = Some w' \<Longrightarrow> obj w' = (obj w)(a := None)"
    and key_set_refs [simp]: "key (set_refs r x) = key x"
    and refs_set_refs [simp]: "refs (set_refs r x) = r"
    and set_refs_twice [simp]: "set_refs r (set_refs r' x) = set_refs r x"
    and set_refs_same [simp]: "set_refs (refs x) x = x"
begin

definition clen :: "world \<Rightarrow> addr \<Rightarrow> u32" where
  "clen w p = (case obj w p of None \<Rightarrow> 0 | Some x \<Rightarrow> snd (key x))"

text \<open>A chain into which an object with the key \<open>k\<close> can be inserted.\<close>

definition chain_ok :: "world \<Rightarrow> u32 \<times> u32 \<Rightarrow> addr list \<Rightarrow> bool" where
  "chain_ok w k ps \<longleftrightarrow> (\<forall>p \<in> set ps. \<exists>x. obj w p = Some x \<and> key x \<noteq> k) \<and>
     sorted_wrt (\<lambda>p q. clen w q \<le> clen w p) ps"

definition insp :: "world \<Rightarrow> u32 \<Rightarrow> addr \<Rightarrow> addr list \<Rightarrow> addr list" where
  "insp w l p ps = filter (\<lambda>q. l < clen w q) ps @ p # filter (\<lambda>q. \<not> l < clen w q) ps"

lemma chain_cong:
  assumes "\<forall>p \<in> set ps. obj w' p = obj w p"
  shows "chain_ok w' k ps = chain_ok w k ps" "insp w' l p ps = insp w l p ps"
proof -
  have c: "clen w' p = clen w p" if "p \<in> set ps" for p using assms that by (simp add: clen_def)
  then show "insp w' l p ps = insp w l p ps" unfolding insp_def by (auto cong: filter_cong)
  have "sorted_wrt (\<lambda>p q. clen w' q \<le> clen w' p) ps = sorted_wrt (\<lambda>p q. clen w q \<le> clen w p) ps"
    using c by (intro iffI; elim sorted_wrt_mono_rel [rotated]) auto
  then show "chain_ok w' k ps = chain_ok w k ps" using assms by (auto simp: chain_ok_def)
qed

lemma chain_ok_notin: "chain_ok w k ps \<Longrightarrow> obj w p = Some x \<Longrightarrow> key x = k \<Longrightarrow> p \<notin> set ps"
  by (auto simp: chain_ok_def)

lemma insert_scan:
  assumes "has_ops t idf cmp pull put" "chain_ok w (i, l) (map lptr h)"
  shows "lpm_insert_scan t w i l h k prior = Some (Some (
    if filter (\<lambda>e. l < clen w (lptr e)) h = [] then prior else k + length (filter (\<lambda>e. l < clen w (lptr e)) h)))"
  using assms(2)
proof (induction h arbitrary: k prior)
  case (Cons e h)
  obtain x where x: "obj w (lptr e) = Some x" "key x \<noteq> (i, l)" using Cons.prems by (auto simp: chain_ok_def)
  have ok: "chain_ok w (i, l) (map lptr h)" using Cons.prems by (auto simp: chain_ok_def)
  have small: "filter (\<lambda>e. l < clen w (lptr e)) h = []" if "\<not> l < clen w (lptr e)"
    using Cons.prems that by (auto simp: chain_ok_def filter_empty_conv sorted_wrt_map dest: order.strict_trans2)
  have c: "clen w (lptr e) = snd (key x)" using x(1) by (simp add: clen_def)
  show ?case
    using assms(1) x Cons.IH [OF ok] small by (auto simp: has_ops_def idf_law cmp_law c)
qed simp

lemma insert_ok:
  assumes "has_ops t idf cmp pull put" "winv w" "obj w (lptr e) = Some x" "chain_ok w (i, l) (map lptr h)"
  shows "\<exists>h' w'. lpm_entry_insert t h i l e w = Some (0, h', w') \<and> map lptr h' = insp w l (lptr e) (map lptr h) \<and>
    mset (map laddr h') = add_mset (laddr e) (mset (map laddr h)) \<and> winv w' \<and> wlive w' = wlive w \<and>
    obj w' = (obj w)(lptr e \<mapsto> set_refs (refs x + 1) x)"
proof -
  let ?P = "\<lambda>e. l < clen w (lptr e)"
  let ?k = "length (filter ?P h)"
  have "sorted_wrt (\<lambda>x y. ?P y \<longrightarrow> ?P x) h"
    using assms(4) by (auto simp: chain_ok_def sorted_wrt_map elim!: sorted_wrt_mono_rel [rotated])
  from filter_take_drop [OF this] have td: "take ?k h = filter ?P h" "drop ?k h = filter (\<lambda>x. \<not> ?P x) h" .
  obtain w' where w': "pull (lptr e) w = Some w'" "winv w'" "wlive w' = wlive w" "obj w' = (obj w)(lptr e \<mapsto> set_refs (refs x + 1) x)"
    using pull_law [OF assms(2,3)] by blast
  have sc: "lpm_insert_scan t w i l h 0 0 = Some (Some ?k)" using insert_scan [OF assms(1,4), of 0 0] by (simp split: if_splits)
  have "mset (map laddr (take ?k h)) + mset (map laddr (drop ?k h)) = mset (map laddr h)"
    by (metis append_take_drop_id map_append mset_append)
  moreover have "map lptr (take ?k h @ e # drop ?k h) = insp w l (lptr e) (map lptr h)"
    unfolding td insp_def by (simp add: filter_map comp_def)
  moreover have "lpm_entry_insert t h i l e w = Some (0, take ?k h @ e # drop ?k h, w')"
    using assms(1) w'(1) sc by (simp add: lpm_entry_insert_def has_ops_def)
  ultimately show ?thesis using w' by auto
qed

end

end
