(* ===== verification/Lpm_Update.thy ===== *)
theory Lpm_Update
  imports Lpm_Tree
begin

text \<open>
  Insertion into and deletion from a longest-prefix-match table, for any objects that satisfy the contract
  of \<open>lpm_client\<close>: which chains change and how, and which blocks the tree takes and gives back.
\<close>

section \<open>Insertion\<close>

lemma town_insert:
  assumes "mset (map laddr h) = add_mset a (mset (map laddr (nhead (tb j))))"
  shows "town (tb(j := set_head h (tb j))) = add_mset a (town tb)"
proof -
  have "own (set_head h (tb j)) + mset (map laddr (nhead (tb j))) = add_mset a (own (tb j)) + mset (map laddr (nhead (tb j)))"
    using own_set_head [of h "tb j"] assms by simp
  then have "own (set_head h (tb j)) = add_mset a (own (tb j))" by (simp only: add_right_cancel)
  then have "town (tb(j := set_head h (tb j))) + own (tb j) = add_mset a (town tb) + own (tb j)"
    using town_upd [of tb j "set_head h (tb j)"] by simp
  then show ?thesis by (simp only: add_right_cancel)
qed

lemma town_remove:
  assumes "mset (map laddr (nhead (tb j))) = add_mset a (mset (map laddr h))"
  shows "town tb = add_mset a (town (tb(j := set_head h (tb j))))"
  using town_insert [of "nhead (tb j)" a "tb(j := set_head h (tb j))" j] assms
  by (simp add: set_head_def)

lemma lpm_sizes_ok [simp]: "mem_ok_size sizeof_lpm_entry" "mem_ok_size (sizeof_lpm_node * TABLE_SIZE_8)"
  by (simp_all add: mem_ok_size_def sizeof_lpm_entry_def sizeof_lpm_node_def TABLE_SIZE_8_def)

text \<open>The number of nodes at which a prefix is stored.\<close>

function rng_sub :: "u32 \<Rightarrow> u32 \<Rightarrow> u32" where
  "rng_sub l off = (if l - off > 8 then rng_sub l (off + 8) else push_bit (unat (8 - (l - off))) 1)"
  by pat_completeness auto
termination
proof (relation "measure (\<lambda>(l, off). unat (l - off))", goal_cases)
  case 2
  then show ?case using offset_step by (simp add: diff_diff_eq [symmetric])
qed simp

declare rng_sub.simps [simp del]

definition rng_of :: "u32 \<Rightarrow> u32" where
  "rng_of l = (if l > 16 then rng_sub l 16 else push_bit (unat (16 - l)) 1)"

lemma ents_next_cong: "next_table n = next_table n' \<Longrightarrow> q \<noteq> [] \<Longrightarrow> ents n q = ents n' q"
  by (cases q) auto

lemma set_next_twice [simp]: "set_next x (set_next y n) = set_next x n"
  "lpm_release_empty (set_next y n) a tb w = lpm_release_empty n a tb w"
  by (simp_all add: set_next_def lpm_release_empty_def)

lemma wft_set_next:
  "wft (set_next (Some (a, tb)) n) \<longleftrightarrow> (\<forall>i. wft (tb i)) \<and> (\<forall>i. \<not> i < TABLE_SIZE_8 \<longrightarrow> tb i = lpm_init_node)"
  by (rule wft_simps) simp

lemma own_set_next: "own (set_next (Some (a, tb)) n) = mset (map laddr (nhead n)) + add_mset a (town tb)"
  by (simp add: own_eq)

lemma block_loop:
  assumes "k < 32"
  shows "(\<lambda>i. (x AND NOT (push_bit k 1 - 1)) OR i) ` set (indices (push_bit k 1)) = block x k"
    "distinct (map (\<lambda>i. (x AND NOT (push_bit k 1 - 1)) OR i) (indices (push_bit k 1)))"
    "of_nat (length (indices (push_bit k 1))) = (push_bit k 1 :: u32)"
proof -
  show "(\<lambda>i. (x AND NOT (push_bit k 1 - 1)) OR i) ` set (indices (push_bit k 1)) = block x k"
    unfolding mask_u32 by (rule block_image [OF assms, symmetric])
  show "distinct (map (\<lambda>i. (x AND NOT (push_bit k 1 - 1)) OR i) (indices (push_bit k 1)))"
    unfolding mask_u32 distinct_map using inj_or_block [OF assms] distinct_indices by blast
  show "of_nat (length (indices (push_bit k 1))) = (push_bit k 1 :: u32)"
    unfolding length_indices by (rule word_unat_eq_iff [THEN iffD2]) (simp add: unat_of_nat)
qed

lemma small_step: "0 < (d :: u32) \<Longrightarrow> \<not> 8 < d \<Longrightarrow> unat (8 - d) < 8"
proof -
  assume "0 < d" "\<not> 8 < d"
  then have "unat (8 - d) = 8 - unat d" "0 < unat d" by (simp_all add: unat_minus_no_wrap word_less_nat_alt)
  then show ?thesis by simp
qed

lemma deep_step: "8 < (l :: u32) - off \<Longrightarrow> 0 < l - (off + 8)" "8 < l - off \<Longrightarrow> unat (l - (off + 8)) < unat (l - off)"
proof -
  have e: "l - (off + 8) = (l - off) - 8" by (simp add: algebra_simps)
  show "0 < l - (off + 8)" if "8 < l - off"
    using that unfolding e by (simp add: word_less_nat_alt unat_minus_no_wrap)
  show "unat (l - (off + 8)) < unat (l - off)" if "8 < l - off"
    using that offset_step unfolding e by blast
qed

text \<open>Blocks that are in use and owned once.\<close>

definition owned :: "world \<Rightarrow> addr multiset \<Rightarrow> bool" where
  "owned w M \<longleftrightarrow> (\<forall>a. count M a \<le> 1) \<and> set_mset M \<subseteq> wlive w"

lemma owned_mono: "owned w M \<Longrightarrow> N \<subseteq># M \<Longrightarrow> owned w N"
  unfolding owned_def by (meson mset_subset_eq_count order_trans set_mset_mono)

lemma owned_shrink:
  assumes "owned w M" "grows w' M' w M"
  shows "owned w' M'"
proof -
  obtain S where S: "finite S" "S \<inter> wlive w' = {}" "wlive w = wlive w' \<union> S" "M = M' + mset_set S"
    using assms(2) by (auto simp: grows_def)
  have c: "count M' a + count (mset_set S) a \<le> 1" for a using assms(1) S(4) by (auto simp: owned_def)
  then have "count M' a \<le> 1" for a using add_leD1 by blast
  moreover have "a \<in> wlive w'" if "a \<in># M'" for a
  proof -
    have "0 < count M' a" using that by simp
    then have "count (mset_set S) a = 0" using c [of a] by linarith
    then have "a \<notin> S" using S(1) by auto
    then show ?thesis using assms(1) S(3,4) that by (auto simp: owned_def)
  qed
  ultimately show ?thesis by (auto simp: owned_def)
qed

lemma owned_grow:
  assumes "owned w M" "grows w M w' M'"
  shows "owned w' M'"
proof -
  obtain S where S: "finite S" "S \<inter> wlive w = {}" "wlive w' = wlive w \<union> S" "M' = M + mset_set S"
    using assms(2) by (auto simp: grows_def)
  have "count M a + count (mset_set S) a \<le> 1" for a
  proof (cases "a \<in> S")
    case True
    then have "a \<notin># M" using assms(1) S(2) by (auto simp: owned_def)
    then show ?thesis using True S(1) by (simp add: not_in_iff)
  next
    case False
    then show ?thesis using assms(1) S(1) by (simp add: owned_def)
  qed
  then show ?thesis using assms(1) S by (auto simp: owned_def)
qed

lemma indices_pow:
  assumes "k < 32"
  shows "indices (push_bit k 1) \<noteq> []" "length (indices (push_bit k 1)) < 2 ^ 32"
proof -
  have n: "length (indices (push_bit k 1)) = 2 ^ k" unfolding length_indices by (rule unat_push_bit_1 [OF assms])
  have "0 < length (indices (push_bit k 1))" unfolding n by simp
  then show "indices (push_bit k 1) \<noteq> []" unfolding length_greater_0_conv .
  show "length (indices (push_bit k 1)) < 2 ^ 32" unfolding n using assms by (intro power_strict_increasing) auto
qed

lemma own_le_town: "own (tb j) \<subseteq># town tb"
  by (simp add: town_split [of tb j])

lemma own_parent: "next_table n = Some (a, tb) \<Longrightarrow> own n = mset (map laddr (nhead n)) + add_mset a (town tb)"
  by (simp add: own_eq)

lemma block_self: "x \<in> block x k"
  by (simp add: block_def)

lemma tgt_sub_ex: "\<exists>q. tgt_sub pf l off q"
proof (induction "unat (l - off)" arbitrary: off rule: less_induct)
  case less
  show ?case
  proof (cases "l - off > 8")
    case True
    from less.hyps [OF deep_step(2) [OF True]] obtain q where "tgt_sub pf l (off + 8) q" by blast
    then show ?thesis using True by (intro exI [of _ "lpm_index pf off 8 # q"]) simp
  next
    case False
    then show ?thesis using block_self by (intro exI [of _ "[lpm_index pf off 8]"]) simp
  qed
qed

lemma release_empty_ok:
  assumes "winv w" "owned w (mset (map laddr (nhead n)) + add_mset a (town tb))" "\<forall>i. wft (tb i)"
    "\<forall>i. \<not> i < TABLE_SIZE_8 \<longrightarrow> tb i = lpm_init_node"
  shows "\<exists>n' w'. lpm_release_empty n a tb w = Some (n', w') \<and> winv w' \<and>
    grows w' (own n') w (mset (map laddr (nhead n)) + add_mset a (town tb)) \<and>
    (w' = w \<or> wfree w a = Some w') \<and> (\<forall>q. ents n' q = ents (set_next (Some (a, tb)) n) q) \<and> wft n'"
proof (cases "nodes_empty tb")
  case True
  then have tb: "tb = (\<lambda>_. lpm_init_node)" using nodes_empty_town assms(4) by blast
  have a: "a \<in> wlive w" using assms(2) by (simp add: owned_def)
  then obtain w' where w': "wfree w a = Some w'" "winv w'" "wlive w' = wlive w - {a}"
    using wheap.free_law [OF assms(1)] by blast
  have "ents (set_next None n) q = ents (set_next (Some (a, tb)) n) q" for q by (cases q) (simp_all add: tb)
  moreover have "grows w' (own (set_next None n)) w (mset (map laddr (nhead n)) + add_mset a (town tb))"
    using w'(3) a by (intro grows_one) (auto simp: tb own_eq)
  moreover have "wft (set_next None n)" by (simp add: wft_simps)
  moreover have "lpm_release_empty n a tb w = Some (set_next None n, w')"
    using True w'(1) by (simp add: lpm_release_empty_def)
  ultimately show ?thesis using w' by blast
next
  case False
  then show ?thesis using assms by (simp add: lpm_release_empty_def own_set_next grows_refl wft_set_next)
qed

context lpm_client
begin

lemma add_loop_ok:
  assumes "has_ops t idf cmp pull put" "winv w" "obj w p = Some x" "key x = (i, l)"
    "distinct (map (\<lambda>k. ix OR k) ks)" "\<forall>k \<in> set ks. chain_ok w (i, l) (map lptr (nhead (tb (ix OR k))))"
    "lpm_add_loop t i l p ix ks n tb w = Some (True, n', tb', w')"
  shows "winv w' \<and> grows w (town tb) w' (town tb') \<and> obj w' = (obj w)(p \<mapsto> set_refs (refs x + of_nat (length ks)) x) \<and>
    (\<forall>j. next_table (tb' j) = next_table (tb j) \<and> map lptr (nhead (tb' j)) =
       (if j \<in> (\<lambda>k. ix OR k) ` set ks then insp w l p (map lptr (nhead (tb j))) else map lptr (nhead (tb j))))"
  using assms(2-7)
proof (induction ks arbitrary: w x tb n)
  case Nil
  then have "w' = w" "tb' = tb" by simp_all
  moreover have "(obj w)(p \<mapsto> x) = obj w" using Nil.prems(2) by (simp add: fun_upd_idem)
  ultimately show ?case using Nil.prems(1) by (simp add: grows_refl)
next
  case (Cons k ks)
  let ?j = "ix OR k"
  from Cons.prems(1) lpm_sizes_ok(1) show ?case
  proof (cases rule: wheap.alloc_cases)
    case (fail w1)
    then show ?thesis using Cons.prems(6) by simp
  next
    case (ok a w1)
    have o1: "obj w1 = obj w" by (rule obj_alloc [OF ok(1)])
    have c1: "chain_ok w1 (i, l) (map lptr (nhead (tb ?j)))"
      using Cons.prems(5) o1 chain_cong(1) [of _ w1 w] by simp
    obtain h w2 where h: "lpm_entry_insert t (nhead (tb ?j)) i l \<lparr>laddr = a, lptr = p\<rparr> w1 = Some (0, h, w2)"
        "map lptr h = insp w1 l p (map lptr (nhead (tb ?j)))" "mset (map laddr h) = add_mset a (mset (map laddr (nhead (tb ?j))))"
        "winv w2" "wlive w2 = wlive w1" "obj w2 = (obj w)(p \<mapsto> set_refs (refs x + 1) x)"
      using insert_ok [OF assms(1) ok(2) _ c1, of "\<lparr>laddr = a, lptr = p\<rparr>" x] Cons.prems(2) o1 by auto
    let ?tb = "tb(?j := set_head h (tb ?j))"
    have run: "lpm_add_loop t i l p ix ks (n + 1) ?tb w2 = Some (True, n', tb', w')"
      using Cons.prems(6) ok(1) h(1) by simp
    have nk: "?j \<notin> (\<lambda>k. ix OR k) ` set ks" "distinct (map (\<lambda>k. ix OR k) ks)" using Cons.prems(4) by auto
    have same: "\<forall>q \<in> set (map lptr (nhead (tb (ix OR k')))). obj w2 q = obj w q" if "k' \<in> set (k # ks)" for k'
    proof -
      have "chain_ok w (i, l) (map lptr (nhead (tb (ix OR k'))))" using Cons.prems(5) that by blast
      then have "p \<notin> set (map lptr (nhead (tb (ix OR k'))))" using chain_ok_notin Cons.prems(2,3) by blast
      then show ?thesis using h(6) by auto
    qed
    have c2: "\<forall>k' \<in> set ks. chain_ok w2 (i, l) (map lptr (nhead (?tb (ix OR k'))))"
    proof
      fix k' assume k': "k' \<in> set ks"
      then have "?tb (ix OR k') = tb (ix OR k')" using nk(1) by (auto simp: image_iff)
      then show "chain_ok w2 (i, l) (map lptr (nhead (?tb (ix OR k'))))"
        using chain_cong(1) [OF same [of k']] k' Cons.prems(5) by simp
    qed
    have ih: "winv w' \<and> grows w2 (town ?tb) w' (town tb') \<and>
        obj w' = (obj w2)(p \<mapsto> set_refs (refs (set_refs (refs x + 1) x) + of_nat (length ks)) (set_refs (refs x + 1) x)) \<and>
        (\<forall>j. next_table (tb' j) = next_table (?tb j) \<and> map lptr (nhead (tb' j)) =
          (if j \<in> (\<lambda>k. ix OR k) ` set ks then insp w2 l p (map lptr (nhead (?tb j))) else map lptr (nhead (?tb j))))"
      using h(6) Cons.prems(3) by (intro Cons.IH [OF h(4) _ _ nk(2) c2 run]) simp_all
    have g: "grows w (town tb) w2 (town ?tb)"
      using grows_one [OF ok(4)] h(5) ok(5) town_insert [of h a tb ?j, OF h(3)] by simp
    have o: "obj w' = (obj w)(p \<mapsto> set_refs (refs x + of_nat (length (k # ks))) x)"
      using ih h(6) by (simp add: ac_simps)
    have "next_table (tb' j) = next_table (tb j) \<and> map lptr (nhead (tb' j)) =
       (if j \<in> (\<lambda>k. ix OR k) ` set (k # ks) then insp w l p (map lptr (nhead (tb j))) else map lptr (nhead (tb j)))" for j
    proof (cases "j = ?j")
      case True
      then show ?thesis using ih nk(1) h(2) chain_cong(2) [of _ w1 w l p] o1 by simp
    next
      case False
      show ?thesis
      proof (cases "j \<in> (\<lambda>k. ix OR k) ` set ks")
        case True
        then obtain k' where "k' \<in> set ks" "j = ix OR k'" by blast
        then have "insp w2 l p (map lptr (nhead (tb j))) = insp w l p (map lptr (nhead (tb j)))"
          using chain_cong(2) [OF same [of k']] by simp
        then show ?thesis using ih False True by simp
      next
        case False
        then show ?thesis using ih \<open>j \<noteq> ?j\<close> by simp
      qed
    qed
    then show ?thesis using ih o grows_trans [OF g] by blast
  qed
qed

text \<open>The first step of \<open>_lpm_add\<close> makes sure that there is a table below the node.\<close>

lemma add_sub_open:
  assumes "winv w" "lpm_add_sub t pf l i p parent off w = Some (r, nd, w')" "\<not> r < 0"
  obtains a tb w1 where "winv w1" "obj w1 = obj w" "grows w (own parent) w1 (own (set_next (Some (a, tb)) parent))"
    "\<forall>q. ents (set_next (Some (a, tb)) parent) q = ents parent q"
    "lpm_add_sub t pf l i p (set_next (Some (a, tb)) parent) off w1 = Some (r, nd, w')"
    "wft parent \<longrightarrow> wft (set_next (Some (a, tb)) parent)"
proof (cases "next_table parent")
  case (Some nx)
  then have "set_next (Some nx) parent = parent" by (cases parent) (simp add: set_next_def)
  then show thesis using that [of w "fst nx" "snd nx"] assms by (simp add: grows_refl)
next
  case None
  have ents: "ents (set_next (Some (a, \<lambda>_. lpm_init_node)) parent) q = ents parent q" for a q
    using None by (cases q) simp_all
  from assms(1) lpm_sizes_ok(2) show thesis
  proof (cases rule: wheap.alloc_cases)
    case (fail w1)
    then show thesis using assms(2,3) None by (simp add: lpm_add_sub.simps [of _ _ _ _ _ parent])
  next
    case (ok a w1)
    have "own parent = mset (map laddr (nhead parent))" using None by (simp add: own_eq)
    then have "grows w (own parent) w1 (own (set_next (Some (a, \<lambda>_. lpm_init_node)) parent))"
      using grows_one [OF ok(4,5)] by (simp add: own_set_next)
    moreover have "lpm_add_sub t pf l i p (set_next (Some (a, \<lambda>_. lpm_init_node)) parent) off w1 = Some (r, nd, w')"
      using assms(2) None ok(1)
      unfolding lpm_add_sub.simps [of t pf l i p parent off]
        lpm_add_sub.simps [of t pf l i p "set_next (Some (a, \<lambda>_. lpm_init_node)) parent" off] set_next_twice
      by simp
    moreover have "wft (set_next (Some (a, \<lambda>_. lpm_init_node)) parent)"
      by (simp add: wft_set_next)
    ultimately show thesis using that [OF ok(2) obj_alloc [OF ok(1)]] ents by blast
  qed
qed

lemma chain_same:
  assumes "obj w' = obj w"
  shows "chain_ok w' = chain_ok w" "insp w' = insp w"
  using chain_cong [of _ w' w] assms by (auto simp: fun_eq_iff)

lemma add_sub_ok:
  assumes "has_ops t idf cmp pull put" "winv w" "obj w p = Some x" "key x = (i, l)" "0 < l - off"
    "\<forall>q. tgt_sub pf l off q \<longrightarrow> chain_ok w (i, l) (map lptr (ents parent q))"
    "lpm_add_sub t pf l i p parent off w = Some (r, nd, w')" "\<not> r < 0"
  shows "winv w' \<and> grows w (own parent) w' (own nd) \<and> obj w' = (obj w)(p \<mapsto> set_refs (refs x + rng_sub l off) x) \<and>
    (\<forall>q. map lptr (ents nd q) =
       (if tgt_sub pf l off q then insp w l p (map lptr (ents parent q)) else map lptr (ents parent q))) \<and>
    (wft parent \<longrightarrow> wft nd)"
  using assms(2-8)
proof (induction "unat (l - off)" arbitrary: parent off w x r nd w' rule: less_induct)
  case less
  obtain a tb w1 where o: "winv w1" "obj w1 = obj w" "grows w (own parent) w1 (own (set_next (Some (a, tb)) parent))"
      "\<forall>q. ents (set_next (Some (a, tb)) parent) q = ents parent q"
      "lpm_add_sub t pf l i p (set_next (Some (a, tb)) parent) off w1 = Some (r, nd, w')"
      "wft parent \<longrightarrow> wft (set_next (Some (a, tb)) parent)"
    using add_sub_open [OF less.prems(1,6,7)] .
  let ?ix = "lpm_index pf off 8" and ?m = "mset (map laddr (nhead parent))"
  have sub: "ents parent (j # q) = ents (tb j) q" for j q using o(4) [rule_format, of "j # q"] by simp
  show ?case
  proof (cases "l - off > 8")
    case True
    from o(5) True less.prems(7) obtain r1 nd1 where
      rec: "lpm_add_sub t pf l i p (tb ?ix) (off + 8) w1 = Some (r1, nd1, w')" "\<not> r1 < 0"
        "nd = set_next (Some (a, tb(?ix := nd1))) parent"
      by (auto simp: lpm_add_sub.simps [of t pf l i p "set_next (Some (a, tb)) parent" off] Let_def
          split: bind_splits if_splits)
    have c: "\<forall>q. tgt_sub pf l (off + 8) q \<longrightarrow> chain_ok w1 (i, l) (map lptr (ents (tb ?ix) q))"
    proof (intro allI impI)
      fix q assume "tgt_sub pf l (off + 8) q"
      then have "tgt_sub pf l off (?ix # q)" using True by simp
      then show "chain_ok w1 (i, l) (map lptr (ents (tb ?ix) q))"
        using less.prems(5) sub chain_same(1) [OF o(2)] by metis
    qed
    have ih: "winv w' \<and> grows w1 (own (tb ?ix)) w' (own nd1) \<and>
        obj w' = (obj w1)(p \<mapsto> set_refs (refs x + rng_sub l (off + 8)) x) \<and>
        (\<forall>q. map lptr (ents nd1 q) =
          (if tgt_sub pf l (off + 8) q then insp w1 l p (map lptr (ents (tb ?ix) q)) else map lptr (ents (tb ?ix) q))) \<and>
        (wft (tb ?ix) \<longrightarrow> wft nd1)"
      using less.prems(2,3) o(2) deep_step [OF True]
      by (intro less.hyps [OF _ o(1) _ _ _ c rec(1,2)]) simp_all
    have "grows w1 (town tb) w' (town (tb(?ix := nd1)))"
      using grows_cancel [OF town_upd] ih by blast
    from grows_frame [OF this, of "add_mset a ?m"]
    have "grows w1 (own (set_next (Some (a, tb)) parent)) w' (own nd)"
      by (simp add: rec(3) own_set_next ac_simps)
    moreover have "map lptr (ents nd q) =
       (if tgt_sub pf l off q then insp w l p (map lptr (ents parent q)) else map lptr (ents parent q))" for q
    proof (cases q)
      case (Cons j q')
      then show ?thesis using ih True rec(3) sub chain_same(2) [OF o(2)] by simp
    qed (use rec(3) in simp)
    moreover have "wft nd" if "wft parent"
      using o(6) that ih lpm_index_8 [of pf off] rec(3)
      by (auto simp: wft_set_next)
    ultimately show ?thesis
      using ih o(2) grows_trans [OF o(3)] True by (simp add: rng_sub.simps [of l off])
  next
    case False
    let ?k = "unat (8 - (l - off))"
    let ?rng = "push_bit ?k 1 :: u32"
    let ?i0 = "?ix AND NOT (?rng - 1)"
    have k: "?k < 32" using small_step [OF less.prems(4) False] by simp
    from o(5) False less.prems(7) obtain n tb' where
      loop: "lpm_add_loop t i l p ?i0 (indices ?rng) 0 tb w1 = Some (True, n, tb', w')"
        "nd = set_next (Some (a, tb')) parent"
      by (auto simp: lpm_add_sub.simps [of t pf l i p "set_next (Some (a, tb)) parent" off] Let_def
          split: bind_splits if_splits)
    have c: "\<forall>j \<in> set (indices ?rng). chain_ok w1 (i, l) (map lptr (nhead (tb (?i0 OR j))))"
    proof
      fix j assume "j \<in> set (indices ?rng)"
      then have "?i0 OR j \<in> block ?ix ?k" using block_loop(1) [OF k] by blast
      then have "tgt_sub pf l off [?i0 OR j]" using False by simp
      then show "chain_ok w1 (i, l) (map lptr (nhead (tb (?i0 OR j))))"
        using less.prems(5) sub [of _ "[]"] chain_same(1) [OF o(2)] by (metis ents.simps(1))
    qed
    have ih: "winv w' \<and> grows w1 (town tb) w' (town tb') \<and>
        obj w' = (obj w1)(p \<mapsto> set_refs (refs x + of_nat (length (indices ?rng))) x) \<and>
        (\<forall>j. next_table (tb' j) = next_table (tb j) \<and> map lptr (nhead (tb' j)) =
          (if j \<in> (\<lambda>k. ?i0 OR k) ` set (indices ?rng) then insp w1 l p (map lptr (nhead (tb j))) else map lptr (nhead (tb j))))"
      using less.prems(2,3) o(2)
      by (intro add_loop_ok [OF assms(1) o(1) _ _ block_loop(2) [OF k] c loop(1)]) simp_all
    from grows_frame [of w1 "town tb" w' "town tb'" "add_mset a ?m"] ih
    have "grows w1 (own (set_next (Some (a, tb)) parent)) w' (own nd)"
      by (simp add: loop(2) own_set_next ac_simps)
    moreover have "map lptr (ents nd q) =
       (if tgt_sub pf l off q then insp w l p (map lptr (ents parent q)) else map lptr (ents parent q))" for q
    proof (cases q)
      case (Cons j q')
      show ?thesis
      proof (cases q')
        case Nil
        then show ?thesis
          using Cons ih False loop(2) sub [of j "[]"] chain_same(2) [OF o(2)] block_loop(1) [OF k] by simp
      next
        case (Cons j' q'')
        have "ents (tb' j) q' = ents (tb j) q'" using ih Cons by (intro ents_next_cong) auto
        then show ?thesis using \<open>q = j # q'\<close> Cons False loop(2) sub by simp
      qed
    qed (use loop(2) in simp)
    moreover have "wft nd" if "wft parent"
    proof -
      have t: "\<forall>j. wft (tb j)" "\<forall>j. \<not> j < TABLE_SIZE_8 \<longrightarrow> tb j = lpm_init_node"
        using o(6) that by (simp_all add: wft_set_next)
      have "wft (tb' j)" for j using ih t(1) wft_cong [of "tb' j" "tb j"] by simp
      moreover have "tb' j = lpm_init_node" if j: "\<not> j < TABLE_SIZE_8" for j
      proof -
        have "j \<notin> block ?ix ?k" using block_8 [OF lpm_index_8, of ?k] small_step [OF less.prems(4) False] j by auto
        then have "map lptr (nhead (tb' j)) = map lptr (nhead (tb j))" "next_table (tb' j) = next_table (tb j)"
          using ih unfolding block_loop(1) [OF k] by simp_all
        then have "nhead (tb' j) = []" "next_table (tb' j) = None" using t(2) j by (simp_all add: lpm_init_node_def)
        then show ?thesis by (cases "tb' j") (simp add: lpm_init_node_def)
      qed
      ultimately show ?thesis by (simp add: loop(2) wft_set_next)
    qed
    ultimately show ?thesis
      using ih o(2) grows_trans [OF o(3)] False block_loop(3) [OF k] by (simp add: rng_sub.simps [of l off])
  qed
qed

lemma add_ok:
  assumes "has_ops t idf cmp pull put" "winv w" "obj w p = Some x" "key x = (i, l)"
    "\<forall>q. tgt pf l q \<longrightarrow> chain_ok w (i, l) (map lptr (tents (node t) q))"
    "lpm_add t pf l i p w = Some (r, t', w')" "\<not> r < 0"
  shows "winv w' \<and> grows w (town (node t)) w' (town (node t')) \<and> has_ops t' idf cmp pull put \<and>
    obj w' = (obj w)(p \<mapsto> set_refs (refs x + rng_of l) x) \<and>
    (\<forall>q. map lptr (tents (node t') q) =
       (if tgt pf l q then insp w l p (map lptr (tents (node t) q)) else map lptr (tents (node t) q))) \<and>
    ((\<forall>j. wft (node t j)) \<longrightarrow> (\<forall>j. wft (node t' j)))"
proof (cases "l > 16")
  case True
  let ?ix = "lpm_index pf 0 16"
  from assms(6,7) True obtain r1 nd where
    rec: "lpm_add_sub t pf l i p (node t ?ix) 16 w = Some (r1, nd, w')" "\<not> r1 < 0" "t' = t\<lparr>node := (node t)(?ix := nd)\<rparr>"
    by (auto simp: lpm_add_def Let_def split: bind_splits if_splits)
  have pos: "0 < l - 16" using True by (simp add: word_less_nat_alt unat_minus_no_wrap)
  have c: "\<forall>q. tgt_sub pf l 16 q \<longrightarrow> chain_ok w (i, l) (map lptr (ents (node t ?ix) q))"
  proof (intro allI impI)
    fix q assume "tgt_sub pf l 16 q"
    then have "tgt pf l (?ix # q)" using True by simp
    then show "chain_ok w (i, l) (map lptr (ents (node t ?ix) q))" using assms(5) tents.simps(2) by metis
  qed
  note ih = add_sub_ok [OF assms(1-4) pos c rec(1,2)]
  have "grows w (town (node t)) w' (town (node t'))"
    using grows_cancel [OF town_upd] ih rec(3) by simp
  moreover have "map lptr (tents (node t') q) =
       (if tgt pf l q then insp w l p (map lptr (tents (node t) q)) else map lptr (tents (node t) q))" for q
    by (cases q) (use ih rec(3) True in simp_all)
  ultimately show ?thesis using ih rec(3) assms(1) True by (simp add: rng_of_def has_ops_def)
next
  case False
  let ?k = "unat (16 - l)"
  let ?rng = "push_bit ?k 1 :: u32"
  let ?i0 = "lpm_index pf 0 16 AND NOT (?rng - 1)"
  have "unat (16 - l) \<le> 16" using False by (simp add: unat_minus_no_wrap word_less_nat_alt)
  then have k: "?k < 32" by simp
  from assms(6,7) False obtain n tb' where
    loop: "lpm_add_loop t i l p ?i0 (indices ?rng) 0 (node t) w = Some (True, n, tb', w')" "t' = t\<lparr>node := tb'\<rparr>"
    by (auto simp: lpm_add_def Let_def split: bind_splits if_splits)
  have c: "\<forall>j \<in> set (indices ?rng). chain_ok w (i, l) (map lptr (nhead (node t (?i0 OR j))))"
  proof
    fix j assume "j \<in> set (indices ?rng)"
    then have "?i0 OR j \<in> block (lpm_index pf 0 16) ?k" using block_loop(1) [OF k] by blast
    then have "tgt pf l [?i0 OR j]" using False by simp
    then show "chain_ok w (i, l) (map lptr (nhead (node t (?i0 OR j))))"
      using assms(5) tents.simps(2) ents.simps(1) by metis
  qed
  note ih = add_loop_ok [OF assms(1-4) block_loop(2) [OF k] c loop(1)]
  have "map lptr (tents (node t') q) =
       (if tgt pf l q then insp w l p (map lptr (tents (node t) q)) else map lptr (tents (node t) q))" for q
  proof (cases q)
    case (Cons j q')
    show ?thesis
    proof (cases q')
      case Nil
      then show ?thesis using Cons ih False loop(2) block_loop(1) [OF k] by simp
    next
      case (Cons j' q'')
      have "ents (tb' j) q' = ents (node t j) q'" using ih Cons by (intro ents_next_cong) auto
      then show ?thesis using \<open>q = j # q'\<close> Cons False loop(2) by simp
    qed
  qed simp
  moreover have "wft (node t' j) = wft (node t j)" for j using ih loop(2) wft_cong [of "tb' j" "node t j"] by simp
  ultimately show ?thesis using ih loop(2) assms(1) False block_loop(3) [OF k] by (simp add: rng_of_def has_ops_def)
qed

section \<open>Deletion\<close>

text \<open>A chain in which the object \<open>p\<close> is the one with the key \<open>k\<close>.\<close>

definition del_ok :: "world \<Rightarrow> u32 \<times> u32 \<Rightarrow> addr \<Rightarrow> addr list \<Rightarrow> bool" where
  "del_ok w k p ps \<longleftrightarrow> (\<forall>q \<in> set ps. \<exists>x. obj w q = Some x \<and> (key x = k \<longleftrightarrow> q = p)) \<and> p \<in> set ps"

lemma del_ok_cong:
  assumes "\<forall>q \<in> set ps. q \<noteq> p \<longrightarrow> obj w' q = obj w q" "obj w p = Some x" "obj w' p = Some x'" "key x' = key x"
  shows "del_ok w' k p ps = del_ok w k p ps"
  unfolding del_ok_def using assms by (intro conj_cong ball_cong refl) (metis option.inject)

lemma delete_scan:
  assumes "has_ops t idf cmp pull put" "del_ok w (i, l) p (map lptr h)"
  obtains h1 e h2 where "h = h1 @ e # h2" "lptr e = p" "p \<notin> set (map lptr h1)" "lpm_delete_scan t w i l h = Some (Some e)"
  using assms(2)
proof (induction h arbitrary: thesis)
  case Nil
  then show ?case by (simp add: del_ok_def)
next
  case (Cons e h)
  obtain x where x: "obj w (lptr e) = Some x" "key x = (i, l) \<longleftrightarrow> lptr e = p" using Cons.prems(2) by (auto simp: del_ok_def)
  show ?case
  proof (cases "lptr e = p")
    case True
    then show ?thesis using Cons.prems(1) [of "[]" e h] x assms(1) by (simp add: has_ops_def idf_law)
  next
    case False
    then have "del_ok w (i, l) p (map lptr h)" using Cons.prems(2) by (auto simp: del_ok_def)
    from Cons.IH [OF _ this] obtain h1 e' h2 where "h = h1 @ e' # h2" "lptr e' = p" "p \<notin> set (map lptr h1)"
        "lpm_delete_scan t w i l h = Some (Some e')" by blast
    then show ?thesis using Cons.prems(1) [of "e # h1" e' h2] x False assms(1) by (simp add: has_ops_def idf_law)
  qed
qed

text \<open>
  One step of the deletion: the entry leaves the chain and its block is released; the object is released
  with its last reference.
\<close>

lemma delete_step:
  assumes "has_ops t idf cmp pull put" "winv w" "obj w p = Some x" "del_ok w (i, l) p (map lptr (nhead (tb j)))"
    "owned w (town tb)" "\<forall>a \<in># town tb. obj w a = None"
  shows "\<exists>h w'. lpm_entry_delete t (nhead (tb j)) i l w = Some (0, h, w') \<and> winv w' \<and>
    map lptr h = remove1 p (map lptr (nhead (tb j))) \<and>
    (let tb' = tb(j := set_head h (tb j))
     in if refs x = 1 then grows w' (town tb') w (add_mset p (town tb)) \<and> obj w' = (obj w)(p := None)
        else grows w' (town tb') w (town tb) \<and> obj w' = (obj w)(p \<mapsto> set_refs (refs x - 1) x))"
proof -
  obtain h1 e h2 where h: "nhead (tb j) = h1 @ e # h2" "lptr e = p" "p \<notin> set (map lptr h1)"
      "lpm_delete_scan t w i l (nhead (tb j)) = Some (Some e)"
    using delete_scan [OF assms(1,4)] .
  let ?h = "h1 @ h2" and ?a = "laddr e"
  let ?tb = "tb(j := set_head ?h (tb j))"
  have rm: "remove1 e (nhead (tb j)) = ?h" "remove1 p (map lptr (nhead (tb j))) = map lptr ?h"
    using h by (auto simp: remove1_append)
  have town: "town tb = add_mset ?a (town ?tb)"
    by (rule town_remove) (simp add: h(1))
  have a: "?a \<in> wlive w" "obj w ?a = None" using assms(5,6) town by (auto simp: owned_def)
  then have ap: "?a \<noteq> p" using assms(3) by auto
  obtain w1 where w1: "put p w = Some w1" "winv w1"
      "if refs x = 1 then wlive w1 = wlive w - {p} \<and> obj w1 = (obj w)(p := None)
       else wlive w1 = wlive w \<and> obj w1 = (obj w)(p \<mapsto> set_refs (refs x - 1) x)"
    using put_law [OF assms(2,3)] by blast
  have "?a \<in> wlive w1" using w1(3) a(1) ap by (auto split: if_splits)
  then obtain w2 where w2: "wfree w1 ?a = Some w2" "winv w2" "wlive w2 = wlive w1 - {?a}"
    using wheap.free_law [OF w1(2)] by blast
  have o2: "obj w2 = obj w1" using obj_free [OF w2(1)] w1(3) a(2) ap by (auto simp: fun_upd_idem split: if_splits)
  have run: "lpm_entry_delete t (nhead (tb j)) i l w = Some (0, ?h, w2)"
    using assms(1) h(2,4) rm(1) w1(1) w2(1) by (simp add: lpm_entry_delete_def has_ops_def)
  show ?thesis
  proof (cases "refs x = 1")
    case True
    have pl: "p \<in> wlive w" by (rule obj_live [OF assms(2,3)])
    have "grows w2 (town ?tb) w (add_mset p (town tb))"
      unfolding grows_def using w1(3) w2(3) True town a(1) pl ap
      by (intro exI [of _ "{?a, p}"]) auto
    then show ?thesis using run w2(2) rm(2) w1(3) o2 True by auto
  next
    case False
    have "grows w2 (town ?tb) w (town tb)"
      unfolding grows_def using w1(3) w2(3) False town a(1) by (intro exI [of _ "{?a}"]) auto
    then show ?thesis using run w2(2) rm(2) w1(3) o2 False by auto
  qed
qed

lemma delete_loop_ok:
  assumes "has_ops t idf cmp pull put" "winv w" "obj w p = Some x" "key x = (i, l)"
    "refs x = of_nat (length ks)" "ks \<noteq> []" "length ks < 2 ^ 32" "distinct (map (\<lambda>k. ix OR k) ks)"
    "\<forall>k \<in> set ks. del_ok w (i, l) p (map lptr (nhead (tb (ix OR k))))"
    "owned w (town tb)" "\<forall>a \<in># town tb. obj w a = None"
  shows "\<exists>tb' w'. lpm_delete_loop t i l ix ks tb w = Some (True, tb', w') \<and> winv w' \<and>
    grows w' (town tb') w (add_mset p (town tb)) \<and> obj w' = (obj w)(p := None) \<and>
    (\<forall>j. next_table (tb' j) = next_table (tb j) \<and> map lptr (nhead (tb' j)) =
       (if j \<in> (\<lambda>k. ix OR k) ` set ks then remove1 p (map lptr (nhead (tb j))) else map lptr (nhead (tb j))))"
  using assms(2-11)
proof (induction ks arbitrary: w x tb)
  case (Cons k ks)
  let ?j = "ix OR k"
  have dk: "del_ok w (i, l) p (map lptr (nhead (tb ?j)))" using Cons.prems(8) by simp
  obtain h w1 where h: "lpm_entry_delete t (nhead (tb ?j)) i l w = Some (0, h, w1)" "winv w1"
      "map lptr h = remove1 p (map lptr (nhead (tb ?j)))"
      "let tb' = tb(?j := set_head h (tb ?j))
       in if refs x = 1 then grows w1 (town tb') w (add_mset p (town tb)) \<and> obj w1 = (obj w)(p := None)
          else grows w1 (town tb') w (town tb) \<and> obj w1 = (obj w)(p \<mapsto> set_refs (refs x - 1) x)"
    using delete_step [OF assms(1) Cons.prems(1,2) dk Cons.prems(9,10)] by blast
  define tb1 where "tb1 = tb(?j := set_head h (tb ?j))"
  have run: "lpm_delete_loop t i l ix (k # ks) tb w = lpm_delete_loop t i l ix ks tb1 w1" using h(1) by (simp add: tb1_def)
  have h4: "if refs x = 1 then grows w1 (town tb1) w (add_mset p (town tb)) \<and> obj w1 = (obj w)(p := None)
      else grows w1 (town tb1) w (town tb) \<and> obj w1 = (obj w)(p \<mapsto> set_refs (refs x - 1) x)"
    using h(4) by (simp add: tb1_def Let_def)
  have tb1: "tb1 ?j = set_head h (tb ?j)" "\<forall>j. j \<noteq> ?j \<longrightarrow> tb1 j = tb j" by (simp_all add: tb1_def)
  have nk: "?j \<notin> (\<lambda>k. ix OR k) ` set ks" "distinct (map (\<lambda>k. ix OR k) ks)" using Cons.prems(7) by auto
  show ?case
  proof (cases "ks = []")
    case True
    then have "refs x = 1" using Cons.prems(4) by simp
    then have "grows w1 (town tb1) w (add_mset p (town tb))" "obj w1 = (obj w)(p := None)" using h4 by simp_all
    moreover have "next_table (tb1 j) = next_table (tb j) \<and> map lptr (nhead (tb1 j)) =
       (if j \<in> (\<lambda>k. ix OR k) ` set (k # ks) then remove1 p (map lptr (nhead (tb j))) else map lptr (nhead (tb j)))" for j
      using h(3) tb1 True by (cases "j = ?j") auto
    moreover have "lpm_delete_loop t i l ix (k # ks) tb w = Some (True, tb1, w1)" using run True by simp
    ultimately show ?thesis using h(2) by blast
  next
    case False
    let ?x = "set_refs (refs x - 1) x"
    have "of_nat (length (k # ks)) \<noteq> (1 :: u32)"
      using Cons.prems(6) False by (simp add: word_unat_eq_iff unat_of_nat del: of_nat_Suc)
    then have r1: "refs x \<noteq> 1" using Cons.prems(4) by simp
    then have g: "grows w1 (town tb1) w (town tb)" and o: "obj w1 = (obj w)(p \<mapsto> ?x)" using h4 by simp_all
    have rx: "refs ?x = of_nat (length ks)" using Cons.prems(4) by simp
    have dk': "\<forall>k' \<in> set ks. del_ok w1 (i, l) p (map lptr (nhead (tb1 (ix OR k'))))"
    proof
      fix k' assume k': "k' \<in> set ks"
      then have "tb1 (ix OR k') = tb (ix OR k')" using nk(1) tb1(2) by (auto simp: image_iff)
      moreover have "del_ok w1 (i, l) p (map lptr (nhead (tb (ix OR k')))) = del_ok w (i, l) p (map lptr (nhead (tb (ix OR k'))))"
        using o Cons.prems(2) by (intro del_ok_cong [of _ _ _ _ x ?x]) auto
      ultimately show "del_ok w1 (i, l) p (map lptr (nhead (tb1 (ix OR k'))))" using Cons.prems(8) k' by simp
    qed
    have ow: "owned w1 (town tb1)" by (rule owned_shrink [OF Cons.prems(9) g])
    have no: "\<forall>a \<in># town tb1. obj w1 a = None"
    proof
      fix a assume "a \<in># town tb1"
      then have "a \<in># town tb" using g by (auto simp: grows_def)
      then have "obj w a = None" using Cons.prems(10) by blast
      then show "obj w1 a = None" using o Cons.prems(2) by auto
    qed
    have "\<exists>tb' w'. lpm_delete_loop t i l ix ks tb1 w1 = Some (True, tb', w') \<and> winv w' \<and>
        grows w' (town tb') w1 (add_mset p (town tb1)) \<and> obj w' = (obj w1)(p := None) \<and>
        (\<forall>j. next_table (tb' j) = next_table (tb1 j) \<and> map lptr (nhead (tb' j)) =
          (if j \<in> (\<lambda>k. ix OR k) ` set ks then remove1 p (map lptr (nhead (tb1 j))) else map lptr (nhead (tb1 j))))"
      using o Cons.prems(3,6) by (intro Cons.IH [OF h(2) _ _ rx False _ nk(2) dk' ow no]) simp_all
    then obtain tb' w' where ih: "lpm_delete_loop t i l ix ks tb1 w1 = Some (True, tb', w')" "winv w'"
        "grows w' (town tb') w1 (add_mset p (town tb1))" "obj w' = (obj w1)(p := None)"
        "\<forall>j. next_table (tb' j) = next_table (tb1 j) \<and> map lptr (nhead (tb' j)) =
          (if j \<in> (\<lambda>k. ix OR k) ` set ks then remove1 p (map lptr (nhead (tb1 j))) else map lptr (nhead (tb1 j)))"
      by blast
    have "grows w1 (add_mset p (town tb1)) w (add_mset p (town tb))" using grows_frame [OF g, of "{#p#}"] by simp
    then have "grows w' (town tb') w (add_mset p (town tb))" by (rule grows_trans [OF ih(3)])
    moreover have "obj w' = (obj w)(p := None)" using ih(4) o by simp
    moreover have "next_table (tb' j) = next_table (tb j) \<and> map lptr (nhead (tb' j)) =
       (if j \<in> (\<lambda>k. ix OR k) ` set (k # ks) then remove1 p (map lptr (nhead (tb j))) else map lptr (nhead (tb j)))" for j
      using ih(5) nk(1) h(3) tb1 by (cases "j = ?j") auto
    ultimately show ?thesis using ih(1,2) run by metis
  qed
qed simp

lemma delete_sub_ok:
  assumes "has_ops t idf cmp pull put" "winv w" "obj w p = Some x" "key x = (i, l)" "0 < l - off" "refs x = rng_sub l off"
    "\<forall>q. tgt_sub pf l off q \<longrightarrow> del_ok w (i, l) p (map lptr (ents parent q))"
    "owned w (own parent)" "\<forall>a \<in># own parent. obj w a = None" "wft parent"
  shows "\<exists>nd w'. lpm_delete_sub t pf l i parent off w = Some (0, nd, w') \<and> winv w' \<and>
    grows w' (own nd) w (add_mset p (own parent)) \<and> obj w' = (obj w)(p := None) \<and>
    (\<forall>q. map lptr (ents nd q) =
       (if tgt_sub pf l off q then remove1 p (map lptr (ents parent q)) else map lptr (ents parent q))) \<and> wft nd"
  using assms(2-10)
proof (induction "unat (l - off)" arbitrary: parent off w x rule: less_induct)
  case less
  let ?ix = "lpm_index pf off 8" and ?m = "mset (map laddr (nhead parent))"
  obtain q0 where q0: "tgt_sub pf l off q0" using tgt_sub_ex by blast
  have "next_table parent \<noteq> None"
  proof
    assume "next_table parent = None"
    then have "ents parent q0 = []" using q0 by (cases q0) auto
    then show False using less.prems(6) q0 by (auto simp: del_ok_def)
  qed
  then obtain a tb where nx: "next_table parent = Some (a, tb)" by auto
  note op = own_parent [OF nx]
  have sub: "ents parent (j # q) = ents (tb j) q" for j q using nx by simp
  have t: "\<forall>j. wft (tb j)" "\<forall>j. \<not> j < TABLE_SIZE_8 \<longrightarrow> tb j = lpm_init_node"
    using less.prems(9) nx by (simp_all add: wft_simps(2))
  have "\<exists>tb' w1. (if l - off > 8 then do {
               (ret, nd, w1) \<leftarrow> lpm_delete_sub t pf l i (tb ?ix) (off + 8) w;
               Some (\<not> ret < 0, tb(?ix := nd), w1) }
             else
               let rng = push_bit (unat (8 - (l - off))) 1;
                   ix = ?ix AND NOT (rng - 1)
               in lpm_delete_loop t i l ix (indices rng) tb w) = Some (True, tb', w1) \<and>
     winv w1 \<and> grows w1 (town tb') w (add_mset p (town tb)) \<and> obj w1 = (obj w)(p := None) \<and>
     (\<forall>j q. map lptr (ents (tb' j) q) =
       (if tgt_sub pf l off (j # q) then remove1 p (map lptr (ents (tb j) q)) else map lptr (ents (tb j) q))) \<and>
     (\<forall>j. wft (tb' j)) \<and> (\<forall>j. \<not> j < TABLE_SIZE_8 \<longrightarrow> tb' j = lpm_init_node)"
  proof (cases "l - off > 8")
    case True
    have "own (tb ?ix) \<subseteq># own parent" using own_le_town [of tb ?ix] op by (metis mset_subset_eq_add_right subset_mset.order_trans add_mset_add_single mset_subset_eq_add_left)
    then have ow: "owned w (own (tb ?ix))" "\<forall>a \<in># own (tb ?ix). obj w a = None"
      using owned_mono [OF less.prems(7)] less.prems(8) by (auto dest: mset_subset_eqD)
    have c: "\<forall>q. tgt_sub pf l (off + 8) q \<longrightarrow> del_ok w (i, l) p (map lptr (ents (tb ?ix) q))"
    proof (intro allI impI)
      fix q assume "tgt_sub pf l (off + 8) q"
      then have "tgt_sub pf l off (?ix # q)" using True by simp
      then show "del_ok w (i, l) p (map lptr (ents (tb ?ix) q))" using less.prems(6) sub by metis
    qed
    have rx: "refs x = rng_sub l (off + 8)" using less.prems(5) True by (simp add: rng_sub.simps [of l off])
    obtain nd w1 where ih: "lpm_delete_sub t pf l i (tb ?ix) (off + 8) w = Some (0, nd, w1)" "winv w1"
        "grows w1 (own nd) w (add_mset p (own (tb ?ix)))" "obj w1 = (obj w)(p := None)"
        "\<forall>q. map lptr (ents nd q) =
           (if tgt_sub pf l (off + 8) q then remove1 p (map lptr (ents (tb ?ix) q)) else map lptr (ents (tb ?ix) q))" "wft nd"
      using less.hyps [OF deep_step(2) [OF True] less.prems(1-3) deep_step(1) [OF True] rx c ow] t(1) by blast
    have tw: "add_mset p (town tb) + own nd = town (tb(?ix := nd)) + add_mset p (own (tb ?ix))"
      using town_upd [of tb ?ix nd] by simp
    have "grows w1 (town (tb(?ix := nd))) w (add_mset p (town tb))" by (rule grows_cancel [OF tw ih(3)])
    moreover have "map lptr (ents ((tb(?ix := nd)) j) q) =
       (if tgt_sub pf l off (j # q) then remove1 p (map lptr (ents (tb j) q)) else map lptr (ents (tb j) q))" for j q
      using ih(5) True by simp
    moreover have "wft ((tb(?ix := nd)) j)" "\<not> j < TABLE_SIZE_8 \<longrightarrow> (tb(?ix := nd)) j = lpm_init_node" for j
      using ih(6) t lpm_index_8 [of pf off] by auto
    moreover have "do { (ret, nd, w1) \<leftarrow> lpm_delete_sub t pf l i (tb ?ix) (off + 8) w;
        Some (\<not> ret < 0, tb(?ix := nd), w1) } = Some (True, tb(?ix := nd), w1)" using ih(1) by simp
    ultimately show ?thesis using ih(2,4) True by (intro exI [of _ "tb(?ix := nd)"] exI [of _ w1]) (simp only: if_True, blast)
  next
    case False
    let ?k = "unat (8 - (l - off))"
    let ?rng = "push_bit ?k 1 :: u32"
    let ?i0 = "?ix AND NOT (?rng - 1)"
    have k: "?k < 32" "?k \<le> 8" using small_step [OF less.prems(4) False] by simp_all
    have "town tb \<subseteq># own parent" using op by simp
    then have ow: "owned w (town tb)" "\<forall>a \<in># town tb. obj w a = None"
      using owned_mono [OF less.prems(7)] less.prems(8) by (auto dest: mset_subset_eqD)
    have c: "\<forall>j \<in> set (indices ?rng). del_ok w (i, l) p (map lptr (nhead (tb (?i0 OR j))))"
    proof
      fix j assume "j \<in> set (indices ?rng)"
      then have "?i0 OR j \<in> block ?ix ?k" using block_loop(1) [OF k(1)] by blast
      then have "tgt_sub pf l off [?i0 OR j]" using False by simp
      then show "del_ok w (i, l) p (map lptr (nhead (tb (?i0 OR j))))"
        using less.prems(6) sub [of _ "[]"] by (metis ents.simps(1))
    qed
    have rx: "refs x = of_nat (length (indices ?rng))"
      using less.prems(5) False block_loop(3) [OF k(1)] by (simp only: rng_sub.simps [of l off] if_False)
    obtain tb' w1 where ih: "lpm_delete_loop t i l ?i0 (indices ?rng) tb w = Some (True, tb', w1)" "winv w1"
        "grows w1 (town tb') w (add_mset p (town tb))" "obj w1 = (obj w)(p := None)"
        "\<forall>j. next_table (tb' j) = next_table (tb j) \<and> map lptr (nhead (tb' j)) =
          (if j \<in> (\<lambda>k. ?i0 OR k) ` set (indices ?rng) then remove1 p (map lptr (nhead (tb j))) else map lptr (nhead (tb j)))"
      using delete_loop_ok [OF assms(1) less.prems(1-3) rx indices_pow [OF k(1)] block_loop(2) [OF k(1)] c ow] by blast
    have e: "map lptr (ents (tb' j) q) =
       (if tgt_sub pf l off (j # q) then remove1 p (map lptr (ents (tb j) q)) else map lptr (ents (tb j) q))" for j q
    proof (cases q)
      case Nil
      then show ?thesis using ih(5) False block_loop(1) [OF k(1)] by simp
    next
      case (Cons j' q')
      then have "ents (tb' j) q = ents (tb j) q" using ih(5) by (intro ents_next_cong) auto
      then show ?thesis using Cons False by simp
    qed
    have wf: "wft (tb' j)" for j using ih(5) t(1) wft_cong [of "tb' j" "tb j"] by simp
    have out: "tb' j = lpm_init_node" if j: "\<not> j < TABLE_SIZE_8" for j
    proof -
      have "j \<notin> block ?ix ?k" using block_8 [OF lpm_index_8 k(2)] j by blast
      then have "map lptr (nhead (tb' j)) = map lptr (nhead (tb j))" "next_table (tb' j) = next_table (tb j)"
        using ih(5) unfolding block_loop(1) [OF k(1)] by simp_all
      then have "nhead (tb' j) = []" "next_table (tb' j) = None" using t(2) j by (simp_all add: lpm_init_node_def)
      then show ?thesis by (cases "tb' j") (simp add: lpm_init_node_def)
    qed
    show ?thesis using ih(1-4) e wf out False by (intro exI [of _ tb'] exI [of _ w1]) (simp only: if_False Let_def, blast)
  qed
  then obtain tb' w1 where step: "(if l - off > 8 then do {
               (ret, nd, w1) \<leftarrow> lpm_delete_sub t pf l i (tb ?ix) (off + 8) w;
               Some (\<not> ret < 0, tb(?ix := nd), w1) }
             else
               let rng = push_bit (unat (8 - (l - off))) 1;
                   ix = ?ix AND NOT (rng - 1)
               in lpm_delete_loop t i l ix (indices rng) tb w) = Some (True, tb', w1)"
     "winv w1" "grows w1 (town tb') w (add_mset p (town tb))" "obj w1 = (obj w)(p := None)"
     "\<forall>j q. map lptr (ents (tb' j) q) =
       (if tgt_sub pf l off (j # q) then remove1 p (map lptr (ents (tb j) q)) else map lptr (ents (tb j) q))"
     "\<forall>j. wft (tb' j)" "\<forall>j. \<not> j < TABLE_SIZE_8 \<longrightarrow> tb' j = lpm_init_node"
    by blast
  have pl: "p \<notin># own parent" using less.prems(2,8) by auto
  have "owned w (add_mset p (own parent))"
    using less.prems(7) pl obj_live [OF less.prems(1,2)] by (auto simp: owned_def not_in_iff)
  moreover have g: "grows w1 (?m + add_mset a (town tb')) w (add_mset p (own parent))"
    using grows_frame [OF step(3), of "add_mset a ?m"] op by (simp add: ac_simps add_mset_commute)
  ultimately have ow: "owned w1 (?m + add_mset a (town tb'))" by (rule owned_shrink)
  obtain nd w2 where rel: "lpm_release_empty parent a tb' w1 = Some (nd, w2)" "winv w2"
      "grows w2 (own nd) w1 (?m + add_mset a (town tb'))" "w2 = w1 \<or> wfree w1 a = Some w2"
      "\<forall>q. ents nd q = ents (set_next (Some (a, tb')) parent) q" "wft nd"
    using release_empty_ok [OF step(2) ow step(6,7)] by blast
  have "obj w1 a = None" using less.prems(8) op step(4) by simp
  then have "obj w2 = (obj w)(p := None)" using rel(4) obj_free [of w1 a w2] step(4) by (auto simp: fun_upd_idem)
  moreover have "map lptr (ents nd q) =
       (if tgt_sub pf l off q then remove1 p (map lptr (ents parent q)) else map lptr (ents parent q))" for q
  proof (cases q)
    case Nil
    then show ?thesis using rel(5) [rule_format, of "[]"] by simp
  next
    case (Cons j q')
    have "ents nd (j # q') = ents (tb' j) q'" using rel(5) [rule_format, of "j # q'"] by simp
    then show ?thesis unfolding Cons sub using step(5) by presburger
  qed
  moreover have "lpm_delete_sub t pf l i parent off w = Some (0, nd, w2)"
    using step(1) rel(1) nx by (simp add: lpm_delete_sub.simps [of t pf l i parent off] Let_def)
  ultimately show ?case using rel(2,6) grows_trans [OF rel(3) g] by blast
qed

lemma delete_ok:
  assumes "has_ops t idf cmp pull put" "winv w" "obj w p = Some x" "key x = (i, l)" "refs x = rng_of l"
    "\<forall>q. tgt pf l q \<longrightarrow> del_ok w (i, l) p (map lptr (tents (node t) q))"
    "owned w (town (node t))" "\<forall>a \<in># town (node t). obj w a = None" "\<forall>j. wft (node t j)"
  shows "\<exists>t' w'. lpm_delete t pf l i w = Some (0, t', w') \<and> winv w' \<and> has_ops t' idf cmp pull put \<and>
    grows w' (town (node t')) w (add_mset p (town (node t))) \<and> obj w' = (obj w)(p := None) \<and>
    (\<forall>q. map lptr (tents (node t') q) =
       (if tgt pf l q then remove1 p (map lptr (tents (node t) q)) else map lptr (tents (node t) q))) \<and>
    (\<forall>j. wft (node t' j))"
proof (cases "l > 16")
  case True
  let ?ix = "lpm_index pf 0 16"
  have pos: "0 < l - 16" using True by (simp add: word_less_nat_alt unat_minus_no_wrap)
  have c: "\<forall>q. tgt_sub pf l 16 q \<longrightarrow> del_ok w (i, l) p (map lptr (ents (node t ?ix) q))"
  proof (intro allI impI)
    fix q assume "tgt_sub pf l 16 q"
    then have "tgt pf l (?ix # q)" using True by simp
    then show "del_ok w (i, l) p (map lptr (ents (node t ?ix) q))" using assms(6) tents.simps(2) by metis
  qed
  have ow: "owned w (own (node t ?ix))" "\<forall>a \<in># own (node t ?ix). obj w a = None"
    using owned_mono [OF assms(7) own_le_town] assms(8) own_le_town [of "node t" ?ix] by (auto dest: mset_subset_eqD)
  have rx: "refs x = rng_sub l 16" using assms(5) True by (simp add: rng_of_def)
  have wf: "wft (node t ?ix)" using assms(9) by blast
  obtain nd w' where ih: "lpm_delete_sub t pf l i (node t ?ix) 16 w = Some (0, nd, w')" "winv w'"
      "grows w' (own nd) w (add_mset p (own (node t ?ix)))" "obj w' = (obj w)(p := None)"
      "\<forall>q. map lptr (ents nd q) =
         (if tgt_sub pf l 16 q then remove1 p (map lptr (ents (node t ?ix) q)) else map lptr (ents (node t ?ix) q))" "wft nd"
    using delete_sub_ok [OF assms(1-4) pos rx c ow wf] by blast
  let ?t = "t\<lparr>node := (node t)(?ix := nd)\<rparr>"
  have tw: "add_mset p (town (node t)) + own nd = town (node ?t) + add_mset p (own (node t ?ix))"
    using town_upd [of "node t" ?ix nd] by simp
  have "grows w' (town (node ?t)) w (add_mset p (town (node t)))" by (rule grows_cancel [OF tw ih(3)])
  moreover have "map lptr (tents (node ?t) q) =
       (if tgt pf l q then remove1 p (map lptr (tents (node t) q)) else map lptr (tents (node t) q))" for q
    using ih(5) True by (cases q) simp_all
  moreover have "lpm_delete t pf l i w = Some (0, ?t, w')" using ih(1) True by (simp add: lpm_delete_def Let_def)
  moreover have "has_ops ?t idf cmp pull put" "\<forall>j. wft (node ?t j)" using assms(1,9) ih(6) by (simp_all add: has_ops_def)
  ultimately show ?thesis using ih(2,4) by blast
next
  case False
  let ?k = "unat (16 - l)"
  let ?rng = "push_bit ?k 1 :: u32"
  let ?i0 = "lpm_index pf 0 16 AND NOT (?rng - 1)"
  have "unat (16 - l) \<le> 16" using False by (simp add: unat_minus_no_wrap word_less_nat_alt)
  then have k: "?k < 32" by simp
  have c: "\<forall>j \<in> set (indices ?rng). del_ok w (i, l) p (map lptr (nhead (node t (?i0 OR j))))"
  proof
    fix j assume "j \<in> set (indices ?rng)"
    then have "?i0 OR j \<in> block (lpm_index pf 0 16) ?k" using block_loop(1) [OF k] by blast
    then have "tgt pf l [?i0 OR j]" using False by simp
    then show "del_ok w (i, l) p (map lptr (nhead (node t (?i0 OR j))))"
      using assms(6) tents.simps(2) ents.simps(1) by metis
  qed
  have rx: "refs x = of_nat (length (indices ?rng))"
    using assms(5) False block_loop(3) [OF k] by (simp only: rng_of_def if_False)
  obtain tb' w' where ih: "lpm_delete_loop t i l ?i0 (indices ?rng) (node t) w = Some (True, tb', w')" "winv w'"
      "grows w' (town tb') w (add_mset p (town (node t)))" "obj w' = (obj w)(p := None)"
      "\<forall>j. next_table (tb' j) = next_table (node t j) \<and> map lptr (nhead (tb' j)) =
        (if j \<in> (\<lambda>k. ?i0 OR k) ` set (indices ?rng) then remove1 p (map lptr (nhead (node t j))) else map lptr (nhead (node t j)))"
    using delete_loop_ok [OF assms(1-4) rx indices_pow [OF k] block_loop(2) [OF k] c assms(7,8)] by blast
  let ?t = "t\<lparr>node := tb'\<rparr>"
  have "map lptr (tents (node ?t) q) =
       (if tgt pf l q then remove1 p (map lptr (tents (node t) q)) else map lptr (tents (node t) q))" for q
  proof (cases q)
    case (Cons j q')
    show ?thesis
    proof (cases q')
      case Nil
      then show ?thesis using Cons ih(5) False block_loop(1) [OF k] by simp
    next
      case (Cons j' q'')
      have "ents (tb' j) q' = ents (node t j) q'" using ih(5) Cons by (intro ents_next_cong) auto
      then show ?thesis using \<open>q = j # q'\<close> Cons False by simp
    qed
  qed simp
  moreover have "\<forall>j. wft (node ?t j)" using ih(5) assms(9) wft_cong by (metis lpm_table.select_convs(1) lpm_table.surjective lpm_table.update_convs(1))
  moreover have "lpm_delete t pf l i w = Some (0, ?t, w')" using ih(1) False by (simp add: lpm_delete_def Let_def)
  moreover have "has_ops ?t idf cmp pull put" using assms(1) by (simp add: has_ops_def)
  moreover have "node ?t = tb'" by simp
  ultimately show ?thesis using ih(2-4) by metis
qed

section \<open>Absent and existing routes\<close>

lemma delete_scan_none:
  assumes "has_ops t idf cmp pull put" "\<forall>e \<in> set h. \<exists>x. obj w (lptr e) = Some x \<and> key x \<noteq> (i, l)"
  shows "lpm_delete_scan t w i l h = Some None"
  using assms(2) by (induction h) (use assms(1) in \<open>auto simp: has_ops_def idf_law\<close>)

lemma insert_scan_exists:
  assumes "has_ops t idf cmp pull put" "\<forall>e \<in> set h. \<exists>x. obj w (lptr e) = Some x"
    "\<exists>e \<in> set h. \<exists>x. obj w (lptr e) = Some x \<and> key x = (i, l)"
  shows "lpm_insert_scan t w i l h k prior = Some None"
  using assms(2,3)
proof (induction h arbitrary: k prior)
  case (Cons e h)
  obtain x where "obj w (lptr e) = Some x" using Cons.prems(1) by auto
  then show ?case using Cons assms(1) by (auto simp: has_ops_def idf_law cmp_law)
qed simp

lemma set_head_same [simp]: "set_head (nhead n) n = n"
  by (cases n) (simp add: set_head_def)

lemma delete_loop_none:
  assumes "has_ops t idf cmp pull put" "ks \<noteq> []" "\<forall>e \<in> set (nhead (tb (ix OR hd ks))). \<exists>x. obj w (lptr e) = Some x \<and> key x \<noteq> (i, l)"
  shows "lpm_delete_loop t i l ix ks tb w = Some (False, tb, w)"
proof -
  obtain k ks' where "ks = k # ks'" using assms(2) by (cases ks) auto
  then show ?thesis using delete_scan_none [OF assms(1,3)] by (simp add: lpm_entry_delete_def)
qed

text \<open>An entry that exists already: the block allocated for it is released again.\<close>

lemma add_loop_exists:
  assumes "has_ops t idf cmp pull put" "winv w" "ks \<noteq> []" "\<forall>e \<in> set (nhead (tb (ix OR hd ks))). \<exists>x. obj w (lptr e) = Some x"
    "\<exists>e \<in> set (nhead (tb (ix OR hd ks))). \<exists>x. obj w (lptr e) = Some x \<and> key x = (i, l)"
  shows "\<exists>w'. lpm_add_loop t i l p ix ks n tb w = Some (False, n, tb, w') \<and> winv w' \<and> wlive w' = wlive w \<and> obj w' = obj w"
proof -
  obtain k ks' where ks: "ks = k # ks'" using assms(3) by (cases ks) auto
  from assms(2) lpm_sizes_ok(1) show ?thesis
  proof (cases rule: wheap.alloc_cases)
    case (fail w1)
    then show ?thesis using ks obj_alloc [OF fail(1)] by simp
  next
    case (ok a w1)
    have o1: "obj w1 = obj w" by (rule obj_alloc [OF ok(1)])
    have "lpm_insert_scan t w1 i l (nhead (tb (ix OR k))) 0 0 = Some None"
      using assms(4,5) o1 ks by (intro insert_scan_exists [OF assms(1)]) simp_all
    then have ins: "lpm_entry_insert t (nhead (tb (ix OR k))) i l e w1 = Some (-1, nhead (tb (ix OR k)), w1)" for e
      by (simp add: lpm_entry_insert_def)
    obtain w2 where w2: "wfree w1 a = Some w2" "winv w2" "wlive w2 = wlive w1 - {a}"
      using wheap.free_law [OF ok(2), of a] ok(5) by auto
    have "obj w a = None" using obj_live [OF assms(2), of a] ok(4) by (cases "obj w a") auto
    then have "obj w2 = obj w" using obj_free [OF w2(1)] o1 by (simp add: fun_upd_idem)
    then show ?thesis using ks ok ins w2 by simp
  qed
qed

lemma first_index:
  assumes "k < 32"
  shows "hd (indices (push_bit k 1)) = 0" "(x AND NOT (push_bit k 1 - 1)) OR hd (indices (push_bit k 1)) \<in> block x k"
proof -
  have "0 < unat (push_bit k (1 :: u32))" unfolding unat_push_bit_1 [OF assms] by simp
  then show "hd (indices (push_bit k 1)) = 0" by (simp add: indices_def upt_conv_Cons)
  show "(x AND NOT (push_bit k 1 - 1)) OR hd (indices (push_bit k 1)) \<in> block x k"
    using block_loop(1) [OF assms, of x] indices_pow(1) [OF assms] by (metis hd_in_set imageI)
qed

lemma set_next_same: "next_table n = Some x \<Longrightarrow> set_next (Some x) n = n"
  by (cases n) (simp add: set_next_def)

lemma delete_sub_none:
  assumes "has_ops t idf cmp pull put" "0 < l - off"
    "\<forall>q. tgt_sub pf l off q \<longrightarrow> (\<forall>e \<in> set (ents parent q). \<exists>x. obj w (lptr e) = Some x \<and> key x \<noteq> (i, l))"
  shows "lpm_delete_sub t pf l i parent off w = Some (-1, parent, w)"
  using assms(2,3)
proof (induction "unat (l - off)" arbitrary: parent off rule: less_induct)
  case less
  let ?ix = "lpm_index pf off 8"
  show ?case
  proof (cases "next_table parent")
    case None
    then show ?thesis by (simp add: lpm_delete_sub.simps [of t pf l i parent off])
  next
    case (Some nx)
    then obtain a tb where nx: "next_table parent = Some (a, tb)" by (cases nx) auto
    have sub: "ents parent (j # q) = ents (tb j) q" for j q using nx by simp
    show ?thesis
    proof (cases "l - off > 8")
      case True
      have "\<forall>q. tgt_sub pf l (off + 8) q \<longrightarrow> (\<forall>e \<in> set (ents (tb ?ix) q). \<exists>x. obj w (lptr e) = Some x \<and> key x \<noteq> (i, l))"
        using less.prems(2) sub True by (metis tgt_sub.simps(2))
      from less.hyps [OF deep_step(2) [OF True] deep_step(1) [OF True] this] show ?thesis
        using nx True by (simp add: lpm_delete_sub.simps [of t pf l i parent off] set_next_same)
    next
      case False
      let ?k = "unat (8 - (l - off))"
      let ?rng = "push_bit ?k 1 :: u32"
      let ?i0 = "?ix AND NOT (?rng - 1)"
      have k: "?k < 32" using small_step [OF less.prems(1) False] by simp
      have "tgt_sub pf l off [?i0 OR hd (indices ?rng)]" using first_index(2) [OF k] False by simp
      then have "\<forall>e \<in> set (nhead (tb (?i0 OR hd (indices ?rng)))). \<exists>x. obj w (lptr e) = Some x \<and> key x \<noteq> (i, l)"
        using less.prems(2) sub by (metis ents.simps(1))
      from delete_loop_none [where tb = tb and ix = ?i0, OF assms(1) indices_pow(1) [OF k] this] show ?thesis
        using nx False by (simp add: lpm_delete_sub.simps [of t pf l i parent off] Let_def set_next_same)
    qed
  qed
qed

lemma delete_none:
  assumes "has_ops t idf cmp pull put"
    "\<forall>q. tgt pf l q \<longrightarrow> (\<forall>e \<in> set (tents (node t) q). \<exists>x. obj w (lptr e) = Some x \<and> key x \<noteq> (i, l))"
  shows "lpm_delete t pf l i w = Some (-1, t, w)"
proof (cases "l > 16")
  case True
  have pos: "0 < l - 16" using True by (simp add: word_less_nat_alt unat_minus_no_wrap)
  have "\<forall>q. tgt_sub pf l 16 q \<longrightarrow>
      (\<forall>e \<in> set (ents (node t (lpm_index pf 0 16)) q). \<exists>x. obj w (lptr e) = Some x \<and> key x \<noteq> (i, l))"
    using assms(2) True by (metis tgt.simps(2) tents.simps(2))
  from delete_sub_none [OF assms(1) pos this] show ?thesis using True by (simp add: lpm_delete_def Let_def)
next
  case False
  let ?k = "unat (16 - l)"
  let ?rng = "push_bit ?k 1 :: u32"
  let ?i0 = "lpm_index pf 0 16 AND NOT (?rng - 1)"
  have "unat (16 - l) \<le> 16" using False by (simp add: unat_minus_no_wrap word_less_nat_alt)
  then have k: "?k < 32" by simp
  have "tgt pf l [?i0 OR hd (indices ?rng)]" using first_index(2) [OF k] False by simp
  then have "\<forall>e \<in> set (nhead (node t (?i0 OR hd (indices ?rng)))). \<exists>x. obj w (lptr e) = Some x \<and> key x \<noteq> (i, l)"
    using assms(2) by (metis ents.simps(1) tents.simps(2))
  from delete_loop_none [where tb = "node t" and ix = ?i0, OF assms(1) indices_pow(1) [OF k] this] show ?thesis
    using False by (simp add: lpm_delete_def Let_def)
qed

definition has_key :: "world \<Rightarrow> u32 \<times> u32 \<Rightarrow> lpm_entry list \<Rightarrow> bool" where
  "has_key w k h \<longleftrightarrow> (\<forall>e \<in> set h. \<exists>x. obj w (lptr e) = Some x) \<and>
     (\<exists>e \<in> set h. \<exists>x. obj w (lptr e) = Some x \<and> key x = k)"

lemma has_key_nonempty: "has_key w k h \<Longrightarrow> h \<noteq> []"
  by (auto simp: has_key_def)

lemma not_nodes_empty: "j < TABLE_SIZE_8 \<Longrightarrow> next_table (tb j) \<noteq> None \<or> nhead (tb j) \<noteq> [] \<Longrightarrow> \<not> nodes_empty tb"
  by (auto simp: nodes_empty_def set_indices)

lemma ents_nonempty: "ents n q \<noteq> [] \<Longrightarrow> next_table n \<noteq> None \<or> nhead n \<noteq> []"
  by (cases q; cases "next_table n") auto

lemma add_sub_exists:
  assumes "has_ops t idf cmp pull put" "winv w" "0 < l - off" "\<forall>q. tgt_sub pf l off q \<longrightarrow> has_key w (i, l) (ents parent q)"
  shows "\<exists>w'. lpm_add_sub t pf l i p parent off w = Some (-1, parent, w') \<and> winv w' \<and> wlive w' = wlive w \<and> obj w' = obj w"
  using assms(3,4)
proof (induction "unat (l - off)" arbitrary: parent off rule: less_induct)
  case less
  let ?ix = "lpm_index pf off 8"
  obtain q0 where q0: "tgt_sub pf l off q0" using tgt_sub_ex by blast
  then have "ents parent q0 \<noteq> []" "q0 \<noteq> []" using less.prems(2) has_key_nonempty by auto
  then obtain a tb where nx: "next_table parent = Some (a, tb)" by (cases q0) (auto split: option.splits)
  have sub: "ents parent (j # q) = ents (tb j) q" for j q using nx by simp
  obtain j0 r0 where q0': "q0 = j0 # r0" using \<open>q0 \<noteq> []\<close> by (cases q0) auto
  have j0: "j0 < TABLE_SIZE_8"
    using q0 q0' lpm_index_8 [of pf off] block_8 [OF lpm_index_8, of "unat (8 - (l - off))"] small_step [OF less.prems(1)]
    by (auto split: if_splits)
  have "ents (tb j0) r0 \<noteq> []" using \<open>ents parent q0 \<noteq> []\<close> sub q0' by simp
  then have ne: "\<not> nodes_empty tb" using not_nodes_empty [OF j0] ents_nonempty by blast
  then have rel: "lpm_release_empty parent a tb w1 = Some (parent, w1)" for w1
    using nx by (simp add: lpm_release_empty_def set_next_same)
  show ?case
  proof (cases "l - off > 8")
    case True
    have "\<forall>q. tgt_sub pf l (off + 8) q \<longrightarrow> has_key w (i, l) (ents (tb ?ix) q)"
      using less.prems(2) sub True by (metis tgt_sub.simps(2))
    from less.hyps [OF deep_step(2) [OF True] deep_step(1) [OF True] this] obtain w' where
      "lpm_add_sub t pf l i p (tb ?ix) (off + 8) w = Some (-1, tb ?ix, w')" "winv w'" "wlive w' = wlive w" "obj w' = obj w"
      by blast
    then show ?thesis using nx True rel by (simp add: lpm_add_sub.simps [of t pf l i p parent off])
  next
    case False
    let ?k = "unat (8 - (l - off))"
    let ?rng = "push_bit ?k 1 :: u32"
    let ?i0 = "?ix AND NOT (?rng - 1)"
    have k: "?k < 32" using small_step [OF less.prems(1) False] by simp
    have "tgt_sub pf l off [?i0 OR hd (indices ?rng)]" using first_index(2) [OF k] False by simp
    then have "has_key w (i, l) (nhead (tb (?i0 OR hd (indices ?rng))))" using less.prems(2) sub by (metis ents.simps(1))
    then have hk: "\<forall>e \<in> set (nhead (tb (?i0 OR hd (indices ?rng)))). \<exists>x. obj w (lptr e) = Some x"
        "\<exists>e \<in> set (nhead (tb (?i0 OR hd (indices ?rng)))). \<exists>x. obj w (lptr e) = Some x \<and> key x = (i, l)"
      by (simp_all add: has_key_def)
    obtain w' where w': "lpm_add_loop t i l p ?i0 (indices ?rng) 0 tb w = Some (False, 0, tb, w')" "winv w'"
        "wlive w' = wlive w" "obj w' = obj w"
      using add_loop_exists [where tb = tb and ix = ?i0, OF assms(1,2) indices_pow(1) [OF k] hk] by blast
    then show ?thesis
      using nx False rel by (simp add: lpm_add_sub.simps [of t pf l i p parent off] lpm_rollback_def Let_def)
  qed
qed

lemma add_exists:
  assumes "has_ops t idf cmp pull put" "winv w" "\<forall>q. tgt pf l q \<longrightarrow> has_key w (i, l) (tents (node t) q)"
  shows "\<exists>w'. lpm_add t pf l i p w = Some (-1, t, w') \<and> winv w' \<and> wlive w' = wlive w \<and> obj w' = obj w"
proof (cases "l > 16")
  case True
  have pos: "0 < l - 16" using True by (simp add: word_less_nat_alt unat_minus_no_wrap)
  have "\<forall>q. tgt_sub pf l 16 q \<longrightarrow> has_key w (i, l) (ents (node t (lpm_index pf 0 16)) q)"
    using assms(3) True by (metis tgt.simps(2) tents.simps(2))
  from add_sub_exists [OF assms(1,2) pos this, of p] show ?thesis using True by (auto simp: lpm_add_def Let_def)
next
  case False
  let ?k = "unat (16 - l)"
  let ?rng = "push_bit ?k 1 :: u32"
  let ?i0 = "lpm_index pf 0 16 AND NOT (?rng - 1)"
  have "unat (16 - l) \<le> 16" using False by (simp add: unat_minus_no_wrap word_less_nat_alt)
  then have k: "?k < 32" by simp
  have "tgt pf l [?i0 OR hd (indices ?rng)]" using first_index(2) [OF k] False by simp
  then have "has_key w (i, l) (nhead (node t (?i0 OR hd (indices ?rng))))"
    using assms(3) by (metis ents.simps(1) tents.simps(2))
  then have hk: "\<forall>e \<in> set (nhead (node t (?i0 OR hd (indices ?rng)))). \<exists>x. obj w (lptr e) = Some x"
      "\<exists>e \<in> set (nhead (node t (?i0 OR hd (indices ?rng)))). \<exists>x. obj w (lptr e) = Some x \<and> key x = (i, l)"
    by (simp_all add: has_key_def)
  obtain w' where "lpm_add_loop t i l p ?i0 (indices ?rng) 0 (node t) w = Some (False, 0, node t, w')" "winv w'"
      "wlive w' = wlive w" "obj w' = obj w"
    using add_loop_exists [where tb = "node t" and ix = ?i0, OF assms(1,2) indices_pow(1) [OF k] hk] by blast
  then show ?thesis using False by (simp add: lpm_add_def lpm_rollback_def Let_def)
qed

end

end
