(* ===== verification/Lpm_Match.thy ===== *)
theory Lpm_Match
  imports Lpm_Update
begin

text \<open>
  The meaning of a longest-prefix-match table: the nodes that a prefix covers are exactly those on the way
  of the addresses that match it bit by bit, and a lookup returns the first matching route of the list of
  all routes, which is ordered by decreasing prefix length.
\<close>

section \<open>Bits of an address\<close>

definition pbit :: "u8 list \<Rightarrow> nat \<Rightarrow> bool" where
  "pbit p i = bit (p ! (i div 8)) (7 - i mod 8)"

definition matches :: "u8 list \<Rightarrow> u32 \<Rightarrow> u8 list \<Rightarrow> bool" where
  "matches p l d \<longleftrightarrow> (\<forall>i < unat l. pbit p i = pbit d i)"

lemma not_bit_u8: "8 \<le> k \<Longrightarrow> \<not> bit (b :: u8) k"
  by (auto dest: bit_imp_le_length)

lemma byte_split: "n = m + c * 8 \<Longrightarrow> m < 8 \<Longrightarrow> n div 8 = c \<and> n mod 8 = m" for n :: nat
  by simp

lemma byte_cases:
  assumes "n < (32 :: nat)"
  obtains m where "n = m" "m < 8" "n div 8 = 0" "n mod 8 = m" | m where "n = m + 8" "m < 8" "n div 8 = 1" "n mod 8 = m"
  | m where "n = m + 16" "m < 8" "n div 8 = 2" "n mod 8 = m" | m where "n = m + 24" "m < 8" "n div 8 = 3" "n mod 8 = m"
proof -
  consider "n < 8" | "8 \<le> n" "n < 16" | "16 \<le> n" "n < 24" | "24 \<le> n" using assms by linarith
  then show thesis
  proof cases
    case 1
    then show thesis using that(1) by simp
  next
    case 2
    then show thesis using that(2) [of "n - 8"] byte_split [of n "n - 8" 1] by simp
  next
    case 3
    then show thesis using that(3) [of "n - 16"] byte_split [of n "n - 16" 2] by simp
  next
    case 4
    then show thesis using that(4) [of "n - 24"] byte_split [of n "n - 24" 3] assms by simp
  qed
qed

lemma bit_load32:
  assumes "n < 32"
  shows "bit (load32 d a) n \<longleftrightarrow> bit (d ! (a + n div 8)) (n mod 8)"
  using assms
  by (rule byte_cases) (simp_all add: load32_def bit_simps not_bit_u8)

lemma bit_ntohl: "n < 32 \<Longrightarrow> bit (ntohl x) n \<longleftrightarrow> bit x (8 * (3 - n div 8) + n mod 8)"
proof -
  have m: "(0xFF :: u32) = mask 8" "(0xFF00 :: u32) = push_bit 8 (mask 8)" "(0xFF0000 :: u32) = push_bit 16 (mask 8)"
    by (simp_all add: mask_eq_decr_exp push_bit_eq_mult)
  have x: "\<not> bit x k" if "32 \<le> k" for k using that by (auto dest: bit_imp_le_length)
  assume "n < 32"
  then show ?thesis
    by (rule byte_cases) (simp_all add: ntohl_def m bit_simps x add.commute)
qed

lemma bit_ntohl_load32:
  assumes "n < 32"
  shows "bit (ntohl (load32 d a)) n \<longleftrightarrow> bit (d ! (a + (3 - n div 8))) (n mod 8)"
proof -
  have "8 * (3 - n div 8) + n mod 8 < 32" "(8 * (3 - n div 8) + n mod 8) div 8 = 3 - n div 8"
    using assms by auto
  then show ?thesis using assms by (simp add: bit_ntohl bit_load32)
qed

lemma bit_masks: "bit (255 :: int) j \<longleftrightarrow> j < 8" "bit (65535 :: int) j \<longleftrightarrow> j < 16"
proof -
  have "(255 :: int) = mask 8" "(65535 :: int) = mask 16" by (simp_all add: mask_eq_exp_minus_1)
  then show "bit (255 :: int) j \<longleftrightarrow> j < 8" "bit (65535 :: int) j \<longleftrightarrow> j < 16" by (simp_all only: bit_mask_iff) simp_all
qed

lemma bit_lpm_index_8:
  assumes "unat off = 8 * m"
  shows "bit (lpm_index d off 8) j \<longleftrightarrow> j < 8 \<and> bit (d ! m) j"
proof (cases "j < 8")
  case True
  define b where "b = m mod 4"
  have b: "b < 4" "m = 4 * (m div 4) + b" by (simp_all add: b_def)
  have "8 * m mod (8 * 4) = 8 * (m mod 4)" by (rule mult_mod_right [symmetric])
  then have o: "unat (off mod 32) = 8 * b" using assms by (simp add: unat_mod b_def)
  have "unat (off mod 32) \<le> unat (24 :: u32)" using o b(1) by simp
  from unat_minus_no_wrap [OF this] have s: "unat (24 - off mod 32) = 24 - 8 * b" using o by simp
  have w: "unat (drop_bit 5 off) = m div 4"
  proof -
    have "unat (drop_bit 5 off) = unat off div 2 ^ 5" unfolding unat_drop_bit_eq by (rule drop_bit_eq_div)
    then show ?thesis using assms div_mult2_eq [of "8 * m" 8 4] by simp
  qed
  have n: "24 - 8 * b + j < 32" using b(1) True by linarith
  have "24 - 8 * b + j = j + (3 - b) * 8" using b(1) by (simp add: algebra_simps)
  from byte_split [OF this True] have dm: "(24 - 8 * b + j) div 8 = 3 - b" "(24 - 8 * b + j) mod 8 = j" by simp_all
  have "bit (lpm_index d off 8) j \<longleftrightarrow> bit (ntohl (load32 d (4 * (m div 4)))) (24 - 8 * b + j)"
    using True by (simp add: lpm_index_def Let_def s w bit_simps bit_masks)
  also have "\<dots> \<longleftrightarrow> bit (d ! (4 * (m div 4) + b)) j"
    unfolding bit_ntohl_load32 [OF n] dm using b(1) by simp
  finally show ?thesis using b(2) True by simp
next
  case False
  have "\<forall>m. bit (lpm_index d off 8) m \<longrightarrow> m < 8"
    using lpm_index_8 [of d off] unfolding TABLE_SIZE_8_def by (subst (asm) less_push_bit) simp_all
  then show ?thesis using False by auto
qed

lemma bit_lpm_index_16: "bit (lpm_index d 0 16) j \<longleftrightarrow> j < 16 \<and> bit (d ! (1 - j div 8)) (j mod 8)"
proof (cases "j < 16")
  case True
  have "bit (lpm_index d 0 16) j \<longleftrightarrow> bit (ntohl (load32 d 0)) (16 + j)"
    using True by (simp add: lpm_index_def Let_def bit_simps bit_masks)
  also have "\<dots> \<longleftrightarrow> bit (d ! (3 - (16 + j) div 8)) ((16 + j) mod 8)" using True by (simp add: bit_ntohl_load32)
  also have "(16 + j) div 8 = 2 + j div 8" using div_add1_eq [of 16 j 8] by simp
  also have "(16 + j) mod 8 = j mod 8" by (simp add: mod_add_left_eq [of 16 8 j, symmetric])
  finally show ?thesis using True by simp
next
  case False
  then show ?thesis by (simp add: lpm_index_def Let_def bit_simps bit_masks)
qed

lemma bit_pbit:
  assumes "j < 8"
  shows "bit (d ! m) j \<longleftrightarrow> pbit d (8 * m + (7 - j))"
proof -
  define n where "n = 8 * m + (7 - j)"
  have "n div 8 = m \<and> n mod 8 = 7 - j" using assms by (intro byte_split) (simp_all add: n_def)
  then have "pbit d n = bit (d ! m) j" using assms by (simp add: pbit_def)
  then show ?thesis by (simp add: n_def)
qed

lemma pbit_range:
  "(\<forall>j. k \<le> j \<and> j < 8 \<longrightarrow> bit (p ! m) j = bit (d ! m) j) \<longleftrightarrow> (\<forall>i. 8 * m \<le> i \<and> i < 8 * m + (8 - k) \<longrightarrow> pbit p i = pbit d i)"
proof (rule iffI; intro allI impI)
  fix i assume h: "\<forall>j. k \<le> j \<and> j < 8 \<longrightarrow> bit (p ! m) j = bit (d ! m) j" "8 * m \<le> i \<and> i < 8 * m + (8 - k)"
  then have "k \<le> 7 - (i - 8 * m)" "7 - (i - 8 * m) < 8" "i = 8 * m + (7 - (7 - (i - 8 * m)))" by linarith+
  then show "pbit p i = pbit d i" using h(1) bit_pbit [of "7 - (i - 8 * m)"] by metis
next
  fix j assume h: "\<forall>i. 8 * m \<le> i \<and> i < 8 * m + (8 - k) \<longrightarrow> pbit p i = pbit d i" "k \<le> j \<and> j < 8"
  then have "8 * m \<le> 8 * m + (7 - j) \<and> 8 * m + (7 - j) < 8 * m + (8 - k)" by linarith
  then show "bit (p ! m) j = bit (d ! m) j" using h bit_pbit [of j] by blast
qed

lemma block_8_bits:
  assumes "unat off = 8 * m" "k \<le> 8"
  shows "lpm_index d off 8 \<in> block (lpm_index p off 8) k \<longleftrightarrow>
    (\<forall>i. unat off \<le> i \<and> i < unat off + (8 - k) \<longrightarrow> pbit p i = pbit d i)"
proof -
  have "lpm_index d off 8 \<in> block (lpm_index p off 8) k \<longleftrightarrow> (\<forall>j. k \<le> j \<and> j < 8 \<longrightarrow> bit (p ! m) j = bit (d ! m) j)"
  proof -
    have "lpm_index d off 8 \<in> block (lpm_index p off 8) k \<longleftrightarrow>
        (\<forall>j < 32. k \<le> j \<longrightarrow> bit (lpm_index d off 8) j = bit (lpm_index p off 8) j)"
      by (auto simp: block_def bit_eq_iff bit_simps)
    also have "\<dots> \<longleftrightarrow> (\<forall>j < 32. k \<le> j \<longrightarrow> (j < 8 \<and> bit (d ! m) j) = (j < 8 \<and> bit (p ! m) j))"
      by (simp only: bit_lpm_index_8 [OF assms(1)])
    also have "\<dots> \<longleftrightarrow> (\<forall>j. k \<le> j \<and> j < 8 \<longrightarrow> bit (p ! m) j = bit (d ! m) j)"
    proof (rule iffI; intro allI impI)
      fix j assume h: "\<forall>j < 32. k \<le> j \<longrightarrow> (j < 8 \<and> bit (d ! m) j) = (j < 8 \<and> bit (p ! m) j)" "k \<le> j \<and> j < 8"
      then have "j < 32" by simp
      then show "bit (p ! m) j = bit (d ! m) j" using h(1) [rule_format, of j] h(2) by blast
    qed blast
    finally show ?thesis .
  qed
  then show ?thesis using pbit_range [of k p m d] assms(1) by simp
qed

lemma index_8_bits:
  assumes "unat off = 8 * m"
  shows "lpm_index d off 8 = lpm_index p off 8 \<longleftrightarrow> (\<forall>i. unat off \<le> i \<and> i < unat off + 8 \<longrightarrow> pbit p i = pbit d i)"
  using block_8_bits [OF assms, of 0 d p] by (simp add: block_def)

lemma block_16_bits:
  assumes "k \<le> 16"
  shows "lpm_index d 0 16 \<in> block (lpm_index p 0 16) k \<longleftrightarrow> (\<forall>i < 16 - k. pbit p i = pbit d i)"
proof -
  have b: "bit (lpm_index p 0 16) j \<longleftrightarrow> pbit p (15 - j)" if "j < 16" for j p
  proof -
    have "(15 - j) div 8 = 1 - j div 8 \<and> 7 - (15 - j) mod 8 = j mod 8"
    proof (cases "j < 8")
      case True
      then show ?thesis using byte_split [of "15 - j" "7 - j" 1] by simp
    next
      case False
      then have "j div 8 = 1" "j mod 8 = j - 8" using that byte_split [of j "j - 8" 1] by simp_all
      then show ?thesis using that False by simp
    qed
    then show ?thesis using that by (simp add: bit_lpm_index_16 pbit_def)
  qed
  have out: "\<not> bit (lpm_index p 0 16) j" if "\<not> j < 16" for j p using that by (simp add: bit_lpm_index_16)
  have "lpm_index d 0 16 \<in> block (lpm_index p 0 16) k \<longleftrightarrow> (\<forall>j. k \<le> j \<and> j < 16 \<longrightarrow> pbit p (15 - j) = pbit d (15 - j))"
  proof -
    have "lpm_index d 0 16 \<in> block (lpm_index p 0 16) k \<longleftrightarrow>
        (\<forall>j < 32. k \<le> j \<longrightarrow> bit (lpm_index d 0 16) j = bit (lpm_index p 0 16) j)"
      by (auto simp: block_def bit_eq_iff bit_simps)
    also have "\<dots> \<longleftrightarrow> (\<forall>j. k \<le> j \<and> j < 16 \<longrightarrow> pbit p (15 - j) = pbit d (15 - j))"
    proof (rule iffI; intro allI impI)
      fix j assume h: "\<forall>j < 32. k \<le> j \<longrightarrow> bit (lpm_index d 0 16) j = bit (lpm_index p 0 16) j" "k \<le> j \<and> j < 16"
      then show "pbit p (15 - j) = pbit d (15 - j)" using b [of j] h(1) [rule_format, of j] by simp
    next
      fix j assume "\<forall>j. k \<le> j \<and> j < 16 \<longrightarrow> pbit p (15 - j) = pbit d (15 - j)" "j < 32" "k \<le> j"
      then show "bit (lpm_index d 0 16) j = bit (lpm_index p 0 16) j" using b [of j] out [of j] by (cases "j < 16") simp_all
    qed
    finally show ?thesis .
  qed
  also have "\<dots> \<longleftrightarrow> (\<forall>i < 16 - k. pbit p i = pbit d i)"
  proof (rule iffI; intro allI impI)
    fix i assume h: "\<forall>j. k \<le> j \<and> j < 16 \<longrightarrow> pbit p (15 - j) = pbit d (15 - j)" "i < 16 - k"
    then have "k \<le> 15 - i \<and> 15 - i < 16" "15 - (15 - i) = i" by linarith+
    then show "pbit p i = pbit d i" using h(1) by metis
  next
    fix j assume h: "\<forall>i < 16 - k. pbit p i = pbit d i" "k \<le> j \<and> j < 16"
    then have "15 - j < 16 - k" by linarith
    then show "pbit p (15 - j) = pbit d (15 - j)" using h(1) by blast
  qed
  finally show ?thesis .
qed

section \<open>The way of an address through the tree\<close>

fun dpath :: "u8 list \<Rightarrow> u32 \<Rightarrow> nat \<Rightarrow> u32 list" where
  "dpath d off 0 = []"
| "dpath d off (Suc k) = lpm_index d off 8 # dpath d (off + 8) k"

definition tpath :: "u8 list \<Rightarrow> nat \<Rightarrow> u32 list" where
  "tpath d k = lpm_index d 0 16 # dpath d 16 k"

text \<open>The level of the tree at which a prefix is stored.\<close>

definition level :: "u32 \<Rightarrow> nat" where
  "level l = (unat l - 9) div 8"

lemma level_eq: "level l = (if 16 < unat l then (unat l - 16 + 7) div 8 else 0)"
  by (auto simp: level_def)

lemma range_split:
  assumes "a \<le> b" "b \<le> (c :: nat)"
  shows "(\<forall>i. a \<le> i \<and> i < c \<longrightarrow> P i) \<longleftrightarrow> (\<forall>i. a \<le> i \<and> i < b \<longrightarrow> P i) \<and> (\<forall>i. b \<le> i \<and> i < c \<longrightarrow> P i)"
proof
  assume h: "(\<forall>i. a \<le> i \<and> i < b \<longrightarrow> P i) \<and> (\<forall>i. b \<le> i \<and> i < c \<longrightarrow> P i)"
  show "\<forall>i. a \<le> i \<and> i < c \<longrightarrow> P i"
  proof (intro allI impI)
    fix i assume "a \<le> i \<and> i < c"
    then show "P i" using h by (cases "i < b") auto
  qed
qed (use assms in auto)

lemma tgt_sub_dpath:
  assumes "unat off = 8 * m" "unat off < unat l" "unat l \<le> 128"
  shows "tgt_sub p l off (dpath d off k) \<longleftrightarrow> k = (unat l - unat off + 7) div 8 \<and>
    (\<forall>i. unat off \<le> i \<and> i < unat l \<longrightarrow> pbit p i = pbit d i)"
  using assms
proof (induction k arbitrary: off m)
  case 0
  have "0 < (unat l - unat off + 7) div 8" using 0 by (simp add: div_greater_zero_iff)
  then have "0 \<noteq> (unat l - unat off + 7) div 8" by linarith
  then show ?case unfolding dpath.simps tgt_sub.simps by blast
next
  case (Suc k)
  have diff: "unat (l - off) = unat l - unat off" using Suc.prems by (intro unat_minus_no_wrap) simp
  show ?case
  proof (cases "l - off > 8")
    case True
    then have gt: "unat off + 8 < unat l" using diff by (simp add: word_less_nat_alt)
    then have o8: "unat (off + 8) = unat off + 8" using Suc.prems by (subst unat_plus_no_wrap) simp_all
    have ih: "tgt_sub p l (off + 8) (dpath d (off + 8) k) \<longleftrightarrow> k = (unat l - unat (off + 8) + 7) div 8 \<and>
        (\<forall>i. unat (off + 8) \<le> i \<and> i < unat l \<longrightarrow> pbit p i = pbit d i)"
      using Suc.prems gt o8 by (intro Suc.IH [of _ "m + 1"]) simp_all
    have e: "unat l - unat off + 7 = (unat l - (unat off + 8) + 7) + 8" using gt by linarith
    have dv: "(unat l - unat off + 7) div 8 = Suc ((unat l - (unat off + 8) + 7) div 8)"
      unfolding e by (subst div_add_self2) simp_all
    have split: "(\<forall>i. unat off \<le> i \<and> i < unat l \<longrightarrow> pbit p i = pbit d i) \<longleftrightarrow>
        (\<forall>i. unat off \<le> i \<and> i < unat off + 8 \<longrightarrow> pbit p i = pbit d i) \<and>
        (\<forall>i. unat off + 8 \<le> i \<and> i < unat l \<longrightarrow> pbit p i = pbit d i)"
      using gt by (intro range_split) simp_all
    show ?thesis
      using True ih index_8_bits [OF Suc.prems(1), of d p] unfolding o8 split dv by auto
  next
    case False
    then have le: "unat l \<le> unat off + 8" using diff by (simp add: word_less_nat_alt)
    have k8: "unat (8 - (l - off)) = 8 - (unat l - unat off)"
      using False diff by (subst unat_minus_no_wrap) (simp_all add: word_less_nat_alt)
    have "(unat l - unat off + 7) div 8 = 1"
      using le Suc.prems(2) byte_split [of "unat l - unat off + 7" "unat l - unat off - 1" 1] by simp
    moreover have "8 - (8 - (unat l - unat off)) = unat l - unat off" using le by simp
    moreover have "unat off + (unat l - unat off) = unat l" using Suc.prems(2) by simp
    ultimately show ?thesis
      using False block_8_bits [OF Suc.prems(1), of "8 - (unat l - unat off)" d p] by (cases k) (simp_all add: k8)
  qed
qed

lemma tgt_tpath:
  assumes "unat l \<le> 128"
  shows "tgt p l (tpath d k) \<longleftrightarrow> k = level l \<and> matches p l d"
proof (cases "l > 16")
  case True
  then have gt: "16 < unat l" by (simp add: word_less_nat_alt)
  have "lpm_index p 0 16 = lpm_index d 0 16 \<longleftrightarrow> (\<forall>i < 16. pbit p i = pbit d i)"
    using block_16_bits [of 0 d p] by (auto simp: block_def)
  moreover have "tgt_sub p l 16 (dpath d 16 k) \<longleftrightarrow> k = (unat l - 16 + 7) div 8 \<and> (\<forall>i. 16 \<le> i \<and> i < unat l \<longrightarrow> pbit p i = pbit d i)"
    using tgt_sub_dpath [of 16 2 l p d k] gt assms by simp
  moreover have "matches p l d \<longleftrightarrow> (\<forall>i < 16. pbit p i = pbit d i) \<and> (\<forall>i. 16 \<le> i \<and> i < unat l \<longrightarrow> pbit p i = pbit d i)"
    using range_split [of 0 16 "unat l" "\<lambda>i. pbit p i = pbit d i"] gt by (simp add: matches_def)
  ultimately show ?thesis using True gt by (auto simp: tpath_def level_eq)
next
  case False
  then have le: "unat l \<le> 16" by (simp add: word_less_nat_alt)
  then have "unat (16 - l) = 16 - unat l" by (subst unat_minus_no_wrap) simp_all
  moreover have "16 - (16 - unat l) = unat l" using le by simp
  ultimately show ?thesis
    using False le block_16_bits [of "16 - unat l" d p] by (cases k) (auto simp: tpath_def level_eq matches_def)
qed

section \<open>Lookup\<close>

text \<open>All entries on the way of an address, the deepest first.\<close>

function cands :: "u8 list \<Rightarrow> lpm_node \<Rightarrow> u32 \<Rightarrow> lpm_entry list" where
  "cands d n off = (case next_table n of None \<Rightarrow> []
     | Some (a, tb) \<Rightarrow> cands d (tb (lpm_index d off 8)) (off + 8)) @ nhead n"
  by pat_completeness auto
termination
  by (relation "inv_image below (\<lambda>(d, n, off). n)") (auto simp: wf_below below_I)

declare cands.simps [simp del]

lemma lookup_sub_cands:
  "next_table n = Some (a, tb) \<Longrightarrow>
    (case lpm_lookup_sub d n off of
       None \<Rightarrow> cands d (tb (lpm_index d off 8)) (off + 8) = []
     | Some h \<Rightarrow> h \<noteq> [] \<and> (\<exists>r. cands d (tb (lpm_index d off 8)) (off + 8) = h @ r))"
proof (induction d n off arbitrary: a tb rule: lpm_lookup_sub.induct)
  case (1 d n off)
  let ?c = "tb (lpm_index d off 8)"
  show ?case
  proof (cases "next_table ?c")
    case None
    then show ?thesis
      using "1.prems" by (auto simp: lpm_lookup_sub.simps [of d n off] cands.simps [of d ?c] Let_def)
  next
    case (Some nx)
    then obtain a' tb' where nx: "next_table ?c = Some (a', tb')" by (cases nx) auto
    have ih: "case lpm_lookup_sub d ?c (off + 8) of
        None \<Rightarrow> cands d (tb' (lpm_index d (off + 8) 8)) (off + 8 + 8) = []
      | Some h \<Rightarrow> h \<noteq> [] \<and> (\<exists>r. cands d (tb' (lpm_index d (off + 8) 8)) (off + 8 + 8) = h @ r)"
      by (rule "1.IH" [OF "1.prems" refl refl]) (use nx in simp_all)
    show ?thesis
      using "1.prems" nx ih
      by (auto simp: lpm_lookup_sub.simps [of d n off] cands.simps [of d ?c] Let_def split: option.splits)
  qed
qed

lemma lookup_cands:
  "lpm_lookup t d = (case cands d (node t (lpm_index d 0 16)) 16 of [] \<Rightarrow> None | e # _ \<Rightarrow> Some e)"
proof -
  let ?n = "node t (lpm_index d 0 16)"
  show ?thesis
  proof (cases "next_table ?n")
    case None
    then show ?thesis by (simp add: lpm_lookup_def cands.simps [of d ?n] Let_def)
  next
    case (Some nx)
    then obtain a tb where nx: "next_table ?n = Some (a, tb)" by (cases nx) auto
    then have c: "cands d ?n 16 = cands d (tb (lpm_index d 16 8)) (16 + 8) @ nhead ?n" by (simp add: cands.simps [of d ?n])
    show ?thesis
    proof (cases "lpm_lookup_sub d ?n 16")
      case None
      then have "cands d (tb (lpm_index d 16 8)) (16 + 8) = []" using lookup_sub_cands [OF nx, of d 16] by simp
      then show ?thesis unfolding c using None nx by (simp add: lpm_lookup_def Let_def)
    next
      case (Some h)
      then obtain r where "h \<noteq> []" "cands d (tb (lpm_index d 16 8)) (16 + 8) = h @ r"
        using lookup_sub_cands [OF nx, of d 16] by auto
      then show ?thesis unfolding c using Some nx by (cases h) (simp_all add: lpm_lookup_def Let_def)
    qed
  qed
qed

lemma cands_empty: "\<forall>k. ents n (dpath d off k) = [] \<Longrightarrow> cands d n off = []"
proof (induction d n off rule: cands.induct)
  case (1 d n off)
  have "nhead n = []" using "1.prems" [rule_format, of 0] by simp
  moreover have "cands d (tb (lpm_index d off 8)) (off + 8) = []" if nx: "next_table n = Some (a, tb)" for a tb
  proof (rule "1.IH" [OF nx refl])
    show "\<forall>k. ents (tb (lpm_index d off 8)) (dpath d (off + 8) k) = []"
    proof
      fix k
      show "ents (tb (lpm_index d off 8)) (dpath d (off + 8) k) = []" using "1.prems" [rule_format, of "Suc k"] nx by simp
    qed
  qed
  ultimately show ?case by (auto simp: cands.simps [of d n] split: option.splits)
qed

lemma cands_paths:
  "(\<forall>k \<ge> K. ents n (dpath d off k) = []) \<Longrightarrow> cands d n off = concat (map (\<lambda>k. ents n (dpath d off k)) (rev [0..<K]))"
proof (induction K arbitrary: n off)
  case 0
  then show ?case using cands_empty by simp
next
  case (Suc K)
  have up: "[0..<Suc K] = 0 # map Suc [0..<K]" by (simp add: map_Suc_upt upt_conv_Cons del: upt_Suc)
  show ?case
  proof (cases "next_table n")
    case None
    then have "ents n (dpath d off (Suc k)) = []" for k by simp
    then have "concat (map (\<lambda>k. ents n (dpath d off k)) (rev (map Suc [0..<K]))) = []" by (auto simp: rev_map)
    then show ?thesis unfolding up using None by (simp add: cands.simps [of d n])
  next
    case (Some nx)
    then obtain a tb where nx: "next_table n = Some (a, tb)" by (cases nx) auto
    let ?c = "tb (lpm_index d off 8)"
    have "\<forall>k \<ge> K. ents ?c (dpath d (off + 8) k) = []"
    proof (intro allI impI)
      fix k assume "K \<le> k"
      then show "ents ?c (dpath d (off + 8) k) = []" using Suc.prems [rule_format, of "Suc k"] nx by simp
    qed
    from Suc.IH [OF this] have "cands d ?c (off + 8) = concat (map (\<lambda>k. ents n (dpath d off (Suc k))) (rev [0..<K]))"
      using nx by simp
    then show ?thesis unfolding up using nx by (simp add: cands.simps [of d n] rev_map comp_def)
  qed
qed

text \<open>A list ordered by decreasing level is the concatenation of its levels.\<close>

lemma concat_levels:
  assumes "sorted_wrt (\<lambda>x y. g y \<le> (g x :: nat)) xs" "\<forall>x \<in> set xs. g x < K"
  shows "concat (map (\<lambda>k. filter (\<lambda>x. g x = k) xs) (rev [0..<K])) = xs"
  using assms
proof (induction K arbitrary: xs)
  case (Suc K)
  let ?ys = "filter (\<lambda>x. g x < K) xs"
  have s: "sorted_wrt (\<lambda>x y. g y = K \<longrightarrow> g x = K) xs"
    using Suc.prems by (auto simp: sorted_wrt_iff_nth_less) (metis le_antisym less_Suc_eq_le nth_mem order_less_trans)
  have "filter (\<lambda>x. g x = k) xs = filter (\<lambda>x. g x = k) ?ys" if "k < K" for k
    using that by (auto intro: filter_cong)
  then have m: "map (\<lambda>k. filter (\<lambda>x. g x = k) xs) (rev [0..<K]) = map (\<lambda>k. filter (\<lambda>x. g x = k) ?ys) (rev [0..<K])" by auto
  have c: "concat (map (\<lambda>k. filter (\<lambda>x. g x = k) ?ys) (rev [0..<K])) = ?ys"
    using Suc.prems by (intro Suc.IH) (auto intro: sorted_wrt_filter)
  have y: "?ys = filter (\<lambda>x. g x \<noteq> K) xs" using Suc.prems(2) by (auto intro!: filter_cong)
  have "filter (\<lambda>x. g x = K) xs @ filter (\<lambda>x. g x \<noteq> K) xs = xs"
    using filter_take_drop [OF s] by (metis append_take_drop_id)
  moreover have "rev [0..<Suc K] = K # rev [0..<K]" by simp
  ultimately show ?case by (simp only: list.map concat.simps m c) (simp only: y)
qed simp

section \<open>The table as a list of routes\<close>

lemma tgt_sub_same:
  "tgt_sub p l off q \<Longrightarrow> tgt_sub p' l off q \<Longrightarrow> tgt_sub p l off q' = tgt_sub p' l off q'"
proof (induction q arbitrary: q' off)
  case (Cons j q)
  show ?case
  proof (cases "l - off > 8")
    case True
    then have "lpm_index p off 8 = lpm_index p' off 8" "tgt_sub p l (off + 8) q" "tgt_sub p' l (off + 8) q"
      using Cons.prems by simp_all
    then show ?thesis using True Cons.IH by (cases q') auto
  next
    case False
    then have "block (lpm_index p off 8) (unat (8 - (l - off))) = block (lpm_index p' off 8) (unat (8 - (l - off)))"
      using Cons.prems by (intro block_disjoint) auto
    then show ?thesis using False by (cases q') auto
  qed
qed simp

lemma tgt_same: "tgt p l q \<Longrightarrow> tgt p' l q \<Longrightarrow> tgt p l q' = tgt p' l q'"
proof (cases q)
  case (Cons j r)
  assume t: "tgt p l q" "tgt p' l q"
  show ?thesis
  proof (cases "l > 16")
    case True
    then have "lpm_index p 0 16 = lpm_index p' 0 16" "tgt_sub p l 16 r" "tgt_sub p' l 16 r"
      using Cons t by simp_all
    then show ?thesis using True tgt_sub_same [of p l 16 r p'] by (cases q') auto
  next
    case False
    then have "block (lpm_index p 0 16) (unat (16 - l)) = block (lpm_index p' 0 16) (unat (16 - l))"
      using Cons t by (intro block_disjoint) auto
    then show ?thesis using False by (cases q') auto
  qed
qed simp

lemma grows_mem: "grows w M w' M' \<Longrightarrow> a \<in># M \<Longrightarrow> a \<in># M'"
  by (auto simp: grows_def)

lemma tgt_ex: "\<exists>q. tgt p l q"
proof (cases "l > 16")
  case True
  obtain q where "tgt_sub p l 16 q" using tgt_sub_ex by blast
  then show ?thesis using True by (intro exI [of _ "lpm_index p 0 16 # q"]) simp
next
  case False
  then show ?thesis using block_self by (intro exI [of _ "[lpm_index p 0 16]"]) simp
qed

text \<open>
  The objects have a prefix besides their key.  A table represents the list \<open>rts\<close> of its routes, ordered by
  decreasing prefix length and among equal ones by the time of insertion, latest first: the chain of a
  node has the routes whose prefix covers the node, in this order.  Each route is referenced from as
  many nodes as its count says, no two routes have the same prefix, length and identifier, and the tree
  owns its blocks.
\<close>

locale lpm_routes = lpm_client +
  fixes pfx :: "'a \<Rightarrow> u8 list"
  assumes pfx_set_refs [simp]: "pfx (set_refs r x) = pfx x"
begin

definition covers :: "world \<Rightarrow> u32 list \<Rightarrow> addr \<Rightarrow> bool" where
  "covers w q p \<longleftrightarrow> (\<exists>x. obj w p = Some x \<and> tgt (pfx x) (snd (key x)) q)"

definition rep :: "world \<Rightarrow> lpm_table \<Rightarrow> addr list \<Rightarrow> bool" where
  "rep w t rts \<longleftrightarrow> winv w \<and> has_ops t idf cmp pull put \<and>
     (\<forall>q. map lptr (tents (node t) q) = filter (covers w q) rts) \<and>
     (\<forall>p \<in> set rts. \<exists>x. obj w p = Some x \<and> refs x = rng_of (snd (key x)) \<and> unat (snd (key x)) \<le> 128) \<and>
     sorted_wrt (\<lambda>p q. clen w q \<le> clen w p) rts \<and> distinct rts \<and>
     (\<forall>p \<in> set rts. \<forall>p' \<in> set rts. \<forall>q. covers w q p \<and> covers w q p' \<and>
        map_option key (obj w p) = map_option key (obj w p') \<longrightarrow> p = p') \<and>
     owned w (town (node t)) \<and> (\<forall>a \<in># town (node t). obj w a = None) \<and> (\<forall>j. wft (node t j))"

text \<open>The routes that match an address, and the first of them as the result of a lookup.\<close>

definition matching :: "world \<Rightarrow> u8 list \<Rightarrow> addr \<Rightarrow> bool" where
  "matching w d p \<longleftrightarrow> (\<exists>x. obj w p = Some x \<and> matches (pfx x) (snd (key x)) d)"

lemma rep_obj:
  "rep w t rts \<Longrightarrow> p \<in> set rts \<Longrightarrow> \<exists>x. obj w p = Some x \<and> refs x = rng_of (snd (key x)) \<and> unat (snd (key x)) \<le> 128"
  by (simp add: rep_def)

lemma covers_tpath:
  assumes "rep w t rts" "p \<in> set rts"
  shows "covers w (tpath d k) p \<longleftrightarrow> level (clen w p) = k \<and> matching w d p"
proof -
  obtain x where x: "obj w p = Some x" "unat (snd (key x)) \<le> 128" using rep_obj [OF assms] by blast
  then show ?thesis using tgt_tpath [OF x(2), of "pfx x" d k] by (auto simp: covers_def matching_def clen_def)
qed

lemma level_mono: "l \<le> l' \<Longrightarrow> level l \<le> level l'"
  unfolding level_def by (intro div_le_mono diff_le_mono) (simp add: word_le_nat_alt)

lemma rep_cands:
  assumes "rep w t rts"
  shows "map lptr (cands d (node t (lpm_index d 0 16)) 16) = filter (matching w d) rts"
proof -
  let ?n = "node t (lpm_index d 0 16)"
  have e: "map lptr (ents ?n (dpath d 16 k)) = filter (\<lambda>p. level (clen w p) = k) (filter (matching w d) rts)" for k
  proof -
    have "map lptr (ents ?n (dpath d 16 k)) = map lptr (tents (node t) (tpath d k))" by (simp add: tpath_def)
    also have "\<dots> = filter (covers w (tpath d k)) rts" using assms by (simp only: rep_def)
    also have "\<dots> = filter (\<lambda>p. matching w d p \<and> level (clen w p) = k) rts"
      using covers_tpath [OF assms] by (intro filter_cong) auto
    finally show ?thesis by simp
  qed
  have lv: "level (clen w p) < 15" if p: "p \<in> set rts" for p
  proof -
    obtain x where x: "obj w p = Some x" "unat (snd (key x)) \<le> 128" using rep_obj [OF assms p] by blast
    then have "level (clen w p) \<le> (128 - 9) div 8" unfolding level_def clen_def by (intro div_le_mono diff_le_mono) simp
    then show ?thesis by simp
  qed
  have "ents ?n (dpath d 16 k) = []" if "15 \<le> k" for k
  proof -
    have "filter (\<lambda>p. level (clen w p) = k) (filter (matching w d) rts) = []"
      using lv that by (fastforce simp: filter_empty_conv)
    then show ?thesis using e [of k] by simp
  qed
  then have "cands d ?n 16 = concat (map (\<lambda>k. ents ?n (dpath d 16 k)) (rev [0..<15]))" using cands_paths by blast
  then have "map lptr (cands d ?n 16) = concat (map (\<lambda>k. map lptr (ents ?n (dpath d 16 k))) (rev [0..<15]))"
    by (simp only: map_concat map_map comp_def)
  also have "\<dots> = concat (map (\<lambda>k. filter (\<lambda>p. level (clen w p) = k) (filter (matching w d) rts)) (rev [0..<15]))"
    by (simp only: e)
  also have "\<dots> = filter (matching w d) rts"
  proof (rule concat_levels)
    have "sorted_wrt (\<lambda>p q. clen w q \<le> clen w p) rts" using assms by (simp only: rep_def)
    then have "sorted_wrt (\<lambda>p q. level (clen w q) \<le> level (clen w p)) rts"
      by (rule sorted_wrt_mono_rel [rotated]) (simp add: level_mono)
    then show "sorted_wrt (\<lambda>p q. level (clen w q) \<le> level (clen w p)) (filter (matching w d) rts)"
      by (rule sorted_wrt_filter)
    show "\<forall>p \<in> set (filter (matching w d) rts). level (clen w p) < 15" using lv by simp
  qed
  finally show ?thesis .
qed

lemma rep_lookup:
  assumes "rep w t rts"
  shows "map_option lptr (lpm_lookup t d) = (case filter (matching w d) rts of [] \<Rightarrow> None | p # _ \<Rightarrow> Some p)"
  unfolding lookup_cands rep_cands [OF assms, of d, symmetric] by (auto split: list.splits)

text \<open>A route with the key \<open>k\<close> for the prefix \<open>pf\<close> is in the list.\<close>

definition taken :: "world \<Rightarrow> addr list \<Rightarrow> u32 \<times> u32 \<Rightarrow> u8 list \<Rightarrow> addr \<Rightarrow> bool" where
  "taken w rts k pf p \<longleftrightarrow> p \<in> set rts \<and>
     (\<exists>x. obj w p = Some x \<and> key x = k \<and> (\<forall>q. tgt (pfx x) (snd k) q = tgt pf (snd k) q))"

lemma takenI:
  assumes "p \<in> set rts" "obj w p = Some x" "key x = k" "covers w q p" "tgt pf (snd k) q"
  shows "taken w rts k pf p"
proof -
  have "tgt (pfx x) (snd k) q" using assms(2-4) by (simp add: covers_def)
  then have "\<forall>q'. tgt (pfx x) (snd k) q' = tgt pf (snd k) q'" using tgt_same [OF _ assms(5)] by blast
  then show ?thesis unfolding taken_def using assms(1-3) by blast
qed

lemma taken_covers: "taken w rts k pf p \<Longrightarrow> covers w q p = tgt pf (snd k) q"
  unfolding taken_def covers_def by (metis option.inject)

lemma rep_parts:
  assumes "rep w t rts"
  shows "winv w" "has_ops t idf cmp pull put" "\<And>q. map lptr (tents (node t) q) = filter (covers w q) rts"
    "sorted_wrt (\<lambda>p q. clen w q \<le> clen w p) rts" "distinct rts" "owned w (town (node t))"
    "\<forall>a \<in># town (node t). obj w a = None" "\<forall>j. wft (node t j)"
  using assms by (simp_all add: rep_def)

lemma rep_unique:
  assumes "rep w t rts" "p \<in> set rts" "p' \<in> set rts" "covers w q p" "covers w q p'"
    "map_option key (obj w p) = map_option key (obj w p')"
  shows "p = p'"
proof -
  have "\<forall>p \<in> set rts. \<forall>p' \<in> set rts. \<forall>q. covers w q p \<and> covers w q p' \<and>
      map_option key (obj w p) = map_option key (obj w p') \<longrightarrow> p = p'"
    using assms(1) unfolding rep_def by (elim conjE)
  then show ?thesis using assms(2-6) by blast
qed

lemma taken_unique: "rep w t rts \<Longrightarrow> taken w rts k pf p \<Longrightarrow> taken w rts k pf p' \<Longrightarrow> p = p'"
proof -
  assume h: "rep w t rts" "taken w rts k pf p" "taken w rts k pf p'"
  obtain q where "tgt pf (snd k) q" using tgt_ex by blast
  then have "covers w q p" "covers w q p'" using taken_covers h(2,3) by blast+
  moreover have "p \<in> set rts" "p' \<in> set rts" "map_option key (obj w p) = map_option key (obj w p')"
    using h(2,3) by (auto simp: taken_def)
  ultimately show ?thesis using rep_unique [OF h(1)] by blast
qed

lemma rep_cong:
  assumes "rep w t rts" "winv w'" "owned w' (town (node t))" "\<forall>p \<in> set rts. obj w' p = obj w p"
    "\<forall>a \<in># town (node t). obj w' a = None"
  shows "rep w' t rts"
proof -
  note R = rep_parts [OF assms(1)]
  have c: "clen w' p = clen w p" "covers w' q p = covers w q p" "obj w' p = obj w p" if "p \<in> set rts" for p q
    using assms(4) that by (simp_all add: clen_def covers_def)
  have "filter (covers w' q) rts = filter (covers w q) rts" for q using c(2) by (intro filter_cong refl)
  then have "\<forall>q. map lptr (tents (node t) q) = filter (covers w' q) rts" using R(3) by simp
  moreover have "sorted_wrt (\<lambda>p q. clen w' q \<le> clen w' p) rts"
    using R(4) by (rule sorted_wrt_mono_rel [rotated]) (simp add: c)
  moreover have "\<forall>p \<in> set rts. \<exists>x. obj w' p = Some x \<and> refs x = rng_of (snd (key x)) \<and> unat (snd (key x)) \<le> 128"
    using rep_obj [OF assms(1)] c(3) by simp
  moreover have "\<forall>p \<in> set rts. \<forall>p' \<in> set rts. \<forall>q. covers w' q p \<and> covers w' q p' \<and>
      map_option key (obj w' p) = map_option key (obj w' p') \<longrightarrow> p = p'"
    using rep_unique [OF assms(1)] c(2,3) by (metis (full_types))
  ultimately show ?thesis unfolding rep_def using R(2,5,8) assms(2,3,5) by blast
qed

lemma rep_same:
  assumes "rep w t rts" "winv w'" "wlive w' = wlive w" "obj w' = obj w"
  shows "rep w' t rts"
  using rep_cong [OF assms(1,2)] rep_parts(6,7) [OF assms(1)] assms(3,4) by (simp add: owned_def)

lemma rep_delete_none:
  assumes "rep w t rts" "\<nexists>p. taken w rts (i, l) pf p"
  shows "lpm_delete t pf l i w = Some (-1, t, w)"
proof (rule delete_none [OF rep_parts(2) [OF assms(1)]], intro allI impI ballI)
  fix q e
  assume q: "tgt pf l q" "e \<in> set (tents (node t) q)"
  then have "lptr e \<in> set (filter (covers w q) rts)" unfolding rep_parts(3) [OF assms(1), symmetric] by simp
  then have p: "lptr e \<in> set rts" "covers w q (lptr e)" by simp_all
  obtain x where x: "obj w (lptr e) = Some x" using rep_obj [OF assms(1) p(1)] by blast
  have "key x \<noteq> (i, l)" using takenI [OF p(1) x _ p(2), of "(i, l)" pf] q(1) assms(2) by auto
  then show "\<exists>x. obj w (lptr e) = Some x \<and> key x \<noteq> (i, l)" using x by blast
qed

lemma rep_add_exists:
  assumes "rep w t rts" "taken w rts (i, l) pf p'"
  shows "\<exists>w'. lpm_add t pf l i p w = Some (-1, t, w') \<and> rep w' t rts \<and> wlive w' = wlive w \<and> obj w' = obj w"
proof -
  have "\<forall>q. tgt pf l q \<longrightarrow> has_key w (i, l) (tents (node t) q)"
  proof (intro allI impI)
    fix q assume q: "tgt pf l q"
    have m: "lptr ` set (tents (node t) q) = {p \<in> set rts. covers w q p}"
      using arg_cong [OF rep_parts(3) [OF assms(1), of q], of set] by auto
    have "p' \<in> lptr ` set (tents (node t) q)" unfolding m using taken_covers [OF assms(2), of q] q assms(2) by (simp add: taken_def)
    moreover have "\<exists>x. obj w (lptr e) = Some x" if "e \<in> set (tents (node t) q)" for e
    proof -
      have "lptr e \<in> set rts" using m that by blast
      then show ?thesis using rep_obj [OF assms(1)] by blast
    qed
    moreover have "\<exists>x. obj w p' = Some x \<and> key x = (i, l)" using assms(2) by (auto simp: taken_def)
    ultimately show "has_key w (i, l) (tents (node t) q)" unfolding has_key_def by blast
  qed
  from add_exists [OF rep_parts(2,1) [OF assms(1)] this, of p] show ?thesis using rep_same [OF assms(1)] by blast
qed

lemma filter_insp:
  assumes "sorted_wrt (\<lambda>p q. clen w q \<le> clen w p) rts" "\<forall>p' \<in> set rts. C' p' = C p'"
  shows "filter C' (insp w l p rts) = (if C' p then insp w l p (filter C rts) else filter C rts)"
proof -
  let ?A = "\<lambda>q. l < clen w q"
  have c: "filter C' (filter A rts) = filter A (filter C rts)" for A using assms(2) by (auto intro: filter_cong)
  have "sorted_wrt (\<lambda>x y. ?A y \<longrightarrow> ?A x) rts"
    using assms(1) by (rule sorted_wrt_mono_rel [rotated]) auto
  from filter_take_drop [OF sorted_wrt_filter [OF this, of C]]
  have "filter ?A (filter C rts) @ filter (\<lambda>q. \<not> ?A q) (filter C rts) = filter C rts" by (metis append_take_drop_id)
  then show ?thesis unfolding insp_def by (simp only: filter_append filter.simps c) auto
qed

lemma set_insp: "set (insp w l p rts) = insert p (set rts)"
  by (auto simp: insp_def)

lemma distinct_insp: "distinct rts \<Longrightarrow> p \<notin> set rts \<Longrightarrow> distinct (insp w l p rts)"
  by (auto simp: insp_def)

lemma sorted_insp:
  assumes "sorted_wrt (\<lambda>p q. clen w q \<le> clen w p) rts" "clen w p = l"
  shows "sorted_wrt (\<lambda>p q. clen w q \<le> clen w p) (insp w l p rts)"
  using assms by (auto simp: insp_def sorted_wrt_append intro: sorted_wrt_filter)

lemma rep_add:
  assumes "rep w t rts" "obj w p = Some x" "key x = (i, l)" "refs x = 0" "\<forall>q. tgt (pfx x) l q = tgt pf l q"
    "p \<notin> set rts" "unat l \<le> 128" "\<nexists>p'. taken w rts (i, l) pf p'"
    "lpm_add t pf l i p w = Some (r, t', w')" "\<not> r < 0"
  shows "rep w' t' (insp w l p rts) \<and> grows w (town (node t)) w' (town (node t')) \<and>
    obj w' = (obj w)(p \<mapsto> set_refs (rng_of l) x)"
proof -
  note R = rep_parts [OF assms(1)]
  have clean: "key x' \<noteq> (i, l)" if "p' \<in> set rts" "covers w q p'" "obj w p' = Some x'" "tgt pf l q" for p' x' q
    using takenI [OF that(1,3) _ that(2), of "(i, l)" pf] that(4) assms(8) by auto
  have c: "\<forall>q. tgt pf l q \<longrightarrow> chain_ok w (i, l) (map lptr (tents (node t) q))"
  proof (intro allI impI)
    fix q assume q: "tgt pf l q"
    have "\<exists>x. obj w p' = Some x \<and> key x \<noteq> (i, l)" if "p' \<in> set rts" "covers w q p'" for p'
      using rep_obj [OF assms(1) that(1)] clean [OF that _ q] by blast
    then show "chain_ok w (i, l) (map lptr (tents (node t) q))"
      unfolding R(3) chain_ok_def using sorted_wrt_filter [OF R(4)] by auto
  qed
  note A = add_ok [OF R(2,1) assms(2,3) c assms(9,10)]
  then have o: "obj w' = (obj w)(p \<mapsto> set_refs (rng_of l) x)" using assms(4) by simp
  have cl: "clen w' = clen w" using o assms(2) by (auto simp: clen_def fun_eq_iff)
  have cp: "covers w' q p = tgt pf l q" for q using o assms(3,5) by (auto simp: covers_def)
  have cr: "covers w' q p' = covers w q p'" if "p' \<in> set rts" for q p' using o that assms(6) by (auto simp: covers_def)
  have ents: "map lptr (tents (node t') q) = filter (covers w' q) (insp w l p rts)" for q
    using A filter_insp [OF R(4), of "covers w' q" "covers w q" l p] cr cp [of q] R(3) [of q] by simp
  have objs: "\<exists>y. obj w' p' = Some y \<and> refs y = rng_of (snd (key y)) \<and> unat (snd (key y)) \<le> 128"
    if p': "p' \<in> set (insp w l p rts)" for p'
  proof (cases "p' = p")
    case True
    then show ?thesis using o assms(3,7) by simp
  next
    case False
    then have "p' \<in> set rts" using p' by (simp add: set_insp)
    then show ?thesis using rep_obj [OF assms(1)] o False by simp
  qed
  have uniq: "p1 = p2" if h: "p1 \<in> set (insp w l p rts)" "p2 \<in> set (insp w l p rts)" "covers w' q p1" "covers w' q p2"
      "map_option key (obj w' p1) = map_option key (obj w' p2)" for p1 p2 q
  proof -
    have k: "map_option key (obj w' b) = map_option key (obj w b)" for b using o assms(2) by simp
    have new: "False" if "b \<in> set rts" "covers w' q b" "covers w' q p" "map_option key (obj w b) = map_option key (obj w p)" for b
      using clean [OF that(1), of q] cr [OF that(1), of q] cp [of q] that assms(2,3) by auto
    show ?thesis
    proof (cases "p1 = p"; cases "p2 = p")
      assume "p1 \<noteq> p" "p2 \<noteq> p"
      then have "p1 \<in> set rts" "p2 \<in> set rts" using h(1,2) by (simp_all add: set_insp)
      then show ?thesis using rep_unique [OF assms(1)] cr h(3-5) k by metis
    next
      assume "p1 = p" "p2 \<noteq> p"
      then have "p2 \<in> set rts" using h(2) by (simp add: set_insp)
      then show ?thesis using new [of p2] h(3-5) k \<open>p1 = p\<close> by simp
    next
      assume "p1 \<noteq> p" "p2 = p"
      then have "p1 \<in> set rts" using h(1) by (simp add: set_insp)
      then show ?thesis using new [of p1] h(3-5) k \<open>p2 = p\<close> by simp
    qed simp
  qed
  have none: "\<forall>a \<in># town (node t'). obj w' a = None"
  proof
    fix a assume a: "a \<in># town (node t')"
    obtain S where S: "finite S" "S \<inter> wlive w = {}" "town (node t') = town (node t) + mset_set S" using A by (auto simp: grows_def)
    have "obj w a = None"
    proof (cases "a \<in> S")
      case True
      then have "a \<notin> wlive w" using S(2) by blast
      then show ?thesis using obj_live [OF R(1), of a] by (cases "obj w a") auto
    next
      case False
      then have "a \<in># town (node t)" using a S(1,3) by simp
      then show ?thesis using R(7) by blast
    qed
    then show "obj w' a = None" using o assms(2) by auto
  qed
  have "owned w' (town (node t'))" using owned_grow [OF R(6)] A by blast
  moreover have "sorted_wrt (\<lambda>p q. clen w' q \<le> clen w' p) (insp w l p rts)"
    unfolding cl by (rule sorted_insp [OF R(4)]) (use assms(2,3) in \<open>simp add: clen_def\<close>)
  moreover have "distinct (insp w l p rts)" using distinct_insp R(5) assms(6) by blast
  moreover have "winv w'" "has_ops t' idf cmp pull put" "\<forall>j. wft (node t' j)" using A R(8) by blast+
  ultimately have "rep w' t' (insp w l p rts)" unfolding rep_def using ents objs uniq none by blast
  then show ?thesis using A o by blast
qed

lemma rep_delete:
  assumes "rep w t rts" "taken w rts (i, l) pf p"
  shows "\<exists>t' w'. lpm_delete t pf l i w = Some (0, t', w') \<and> rep w' t' (remove1 p rts) \<and>
    grows w' (town (node t')) w (add_mset p (town (node t))) \<and> obj w' = (obj w)(p := None)"
proof -
  note R = rep_parts [OF assms(1)]
  obtain x where x: "obj w p = Some x" "key x = (i, l)" "\<forall>q. tgt (pfx x) l q = tgt pf l q" and p: "p \<in> set rts"
    using assms(2) by (auto simp: taken_def)
  have rx: "refs x = rng_of l" using rep_obj [OF assms(1) p] x by simp
  have d: "\<forall>q. tgt pf l q \<longrightarrow> del_ok w (i, l) p (map lptr (tents (node t) q))"
  proof (intro allI impI)
    fix q assume q: "tgt pf l q"
    have cp: "covers w q p" using taken_covers [OF assms(2), of q] q by simp
    have "\<exists>y. obj w p' = Some y \<and> (key y = (i, l) \<longleftrightarrow> p' = p)" if p': "p' \<in> set rts" "covers w q p'" for p'
    proof -
      obtain y where y: "obj w p' = Some y" using rep_obj [OF assms(1) p'(1)] by blast
      have "p' = p" if "key y = (i, l)"
        using rep_unique [OF assms(1) p'(1) p p'(2) cp] y x that by simp
      then show ?thesis using y x by auto
    qed
    then show "del_ok w (i, l) p (map lptr (tents (node t) q))" unfolding R(3) del_ok_def using p cp by simp
  qed
  obtain t' w' where D: "lpm_delete t pf l i w = Some (0, t', w')" "winv w'" "has_ops t' idf cmp pull put"
      "grows w' (town (node t')) w (add_mset p (town (node t)))" "obj w' = (obj w)(p := None)"
      "\<forall>q. map lptr (tents (node t') q) =
         (if tgt pf l q then remove1 p (map lptr (tents (node t) q)) else map lptr (tents (node t) q))"
      "\<forall>j. wft (node t' j)"
    using delete_ok [OF R(2,1) x(1,2) rx d R(6-8)] by blast
  have np: "p \<notin> set (remove1 p rts)" and sub: "set (remove1 p rts) = set rts - {p}" using R(5) by auto
  have cl: "clen w' p' = clen w p'" "covers w' q p' = covers w q p'" "obj w' p' = obj w p'" if "p' \<noteq> p" for p' q
    using D(5) that by (simp_all add: clen_def covers_def)
  have ents: "map lptr (tents (node t') q) = filter (covers w' q) (remove1 p rts)" for q
  proof -
    have "filter (covers w' q) (remove1 p rts) = filter (covers w q) (remove1 p rts)"
      using cl np by (intro filter_cong refl) (metis (full_types))
    also have "\<dots> = remove1 p (filter (covers w q) rts)" by (rule filter_remove1)
    also have "\<dots> = map lptr (tents (node t') q)"
      using D(6) R(3) [of q] taken_covers [OF assms(2), of q] by (simp add: remove1_idem)
    finally show ?thesis by simp
  qed
  have objs: "\<exists>y. obj w' p' = Some y \<and> refs y = rng_of (snd (key y)) \<and> unat (snd (key y)) \<le> 128"
    if p': "p' \<in> set (remove1 p rts)" for p'
  proof -
    have "p' \<in> set rts" "p' \<noteq> p" using p' sub by auto
    then show ?thesis using rep_obj [OF assms(1), of p'] cl(3) [of p'] by simp
  qed
  have uniq: "p1 = p2" if "p1 \<in> set (remove1 p rts)" "p2 \<in> set (remove1 p rts)" "covers w' q p1" "covers w' q p2"
      "map_option key (obj w' p1) = map_option key (obj w' p2)" for p1 p2 q
    using rep_unique [OF assms(1), of p1 p2 q] that cl(2,3) [of p1] cl(2,3) [of p2] sub by auto
  have pt: "p \<notin># town (node t)" using R(7) x(1) by auto
  have "owned w (add_mset p (town (node t)))"
    using R(6) pt obj_live [OF R(1) x(1)] by (auto simp: owned_def not_in_iff)
  then have "owned w' (town (node t'))" by (rule owned_shrink [OF _ D(4)])
  moreover have "\<forall>a \<in># town (node t'). obj w' a = None"
  proof
    fix a assume a: "a \<in># town (node t')"
    then have "a \<in># add_mset p (town (node t))" by (rule grows_mem [OF D(4)])
    then show "obj w' a = None" using R(7) D(5) by auto
  qed
  moreover have "sorted_wrt (\<lambda>p q. clen w' q \<le> clen w' p) (remove1 p rts)"
  proof -
    have f: "remove1 p rts = filter (\<lambda>y. y \<noteq> p) rts" using R(5) by (simp add: distinct_remove1_removeAll removeAll_filter_not_eq) metis
    have "sorted_wrt (\<lambda>p q. clen w q \<le> clen w p) (remove1 p rts)" unfolding f by (rule sorted_wrt_filter [OF R(4)])
    then show ?thesis using np cl(1)
      by (elim sorted_wrt_mono_rel [rotated]) (metis (full_types))
  qed
  moreover have "distinct (remove1 p rts)" using R(5) by simp
  ultimately have "rep w' t' (remove1 p rts)" unfolding rep_def using D(2,3,7) ents objs uniq by blast
  then show ?thesis using D by blast
qed

end

end
