(* ===== verification/Fib.thy ===== *)
theory Fib
  imports Lpm_Match Neigh
begin

text \<open>
  The routing tables of \<open>src/src/fib.c\<close>: a longest-prefix-match table whose objects are routes in the
  thread's memory, with a count of the nodes of the tree that refer to them.
\<close>

section \<open>The operations\<close>

record fib =
  fself :: addr
  ftable :: lpm_table

text \<open>\<open>sizeof(struct fib)\<close> is \<open>16 * 2^16\<close> bytes of nodes and the five function pointers.\<close>

definition sizeof_fib :: u32 where "sizeof_fib = 1048616"
definition sizeof_fib_entry :: u32 where "sizeof_fib_entry = 52"

definition fib_entry_identify :: "world \<Rightarrow> addr \<Rightarrow> u32 \<Rightarrow> u32 \<Rightarrow> int option" where
  "fib_entry_identify w p rid prefix_len = do {
     entry \<leftarrow> fibs w p;
     Some (if fid entry = rid \<and> fprefix_len entry = prefix_len then 0 else 1) }"

definition fib_entry_compare :: "world \<Rightarrow> addr \<Rightarrow> u32 \<Rightarrow> int option" where
  "fib_entry_compare w p prefix_len = do {
     entry \<leftarrow> fibs w p;
     Some (if fprefix_len entry > prefix_len then 1 else 0) }"

definition fib_entry_pull :: "addr \<Rightarrow> world \<Rightarrow> world option" where
  "fib_entry_pull p w = do {
     entry \<leftarrow> fibs w p;
     Some (w\<lparr>fibs := (fibs w)(p \<mapsto> entry\<lparr>refcount := refcount entry + 1\<rparr>)\<rparr>) }"

definition fib_entry_put :: "addr \<Rightarrow> world \<Rightarrow> world option" where
  "fib_entry_put p w = do {
     entry \<leftarrow> fibs w p;
     let entry = entry\<lparr>refcount := refcount entry - 1\<rparr>;
     let w1 = w\<lparr>fibs := (fibs w)(p \<mapsto> entry)\<rparr>;
     (if refcount entry = 0 then wfree w1 p else Some w1) }"

text \<open>\<open>raw\<close> is what the allocated block holds before it is initialised.\<close>

definition fib_alloc :: "lpm_table \<Rightarrow> world \<Rightarrow> (fib option \<times> world) option" where
  "fib_alloc raw w = do {
     (r, w1) \<leftarrow> walloc w sizeof_fib;
     Some (case r of
        None \<Rightarrow> (None, w1)
      | Some a \<Rightarrow> (Some \<lparr>fself = a, ftable = (lpm_init raw)\<lparr>entry_identify := fib_entry_identify,
           entry_compare := fib_entry_compare, entry_pull := fib_entry_pull, entry_put := fib_entry_put\<rparr>\<rparr>, w1)) }"

definition fib_release :: "world \<Rightarrow> fib \<Rightarrow> world option" where
  "fib_release w fib = do {
     (t, w1) \<leftarrow> lpm_delete_all (ftable fib) w;
     wfree w1 (fself fib) }"

text \<open>The fields that \<open>fib_route_update\<close> writes into a new block, whose bytes were \<open>raw\<close>.\<close>

definition fib_entry_fill ::
    "u8 list \<Rightarrow> int \<Rightarrow> fib_type \<Rightarrow> u8 list \<Rightarrow> u32 \<Rightarrow> u8 list \<Rightarrow> int \<Rightarrow> u32 \<Rightarrow> fib_entry" where
  "fib_entry_fill raw family type prefix prefix_len nexthop port_index rid =
     (let n = (if family = AF_INET then 4 else 16)
      in \<lparr>fprefix = memcpy (take 16 raw) prefix n, fprefix_len = prefix_len,
          fnexthop = memcpy (take 16 (drop 20 raw)) nexthop n, fport_index = port_index,
          ftype = type, fid = rid, refcount = 0\<rparr>)"

definition fib_route_update ::
    "world \<Rightarrow> fib \<Rightarrow> int \<Rightarrow> fib_type \<Rightarrow> u8 list \<Rightarrow> u32 \<Rightarrow> u8 list \<Rightarrow> int \<Rightarrow> u32 \<Rightarrow> (int \<times> fib \<times> world) option" where
  "fib_route_update w fib family type prefix prefix_len nexthop port_index rid = do {
     (r, w1) \<leftarrow> walloc w sizeof_fib_entry;
     (case r of
        None \<Rightarrow> Some (-1, fib, w1)
      | Some entry \<Rightarrow>
          if family = AF_INET \<or> family = AF_INET6 then do {
            let e = fib_entry_fill (junk w1 entry) family type prefix prefix_len nexthop port_index rid;
            let w2 = w1\<lparr>fibs := (fibs w1)(entry \<mapsto> e)\<rparr>;
            (ret, t, w3) \<leftarrow> lpm_add (ftable fib) prefix prefix_len rid entry w2;
            (if ret < 0 then do { w4 \<leftarrow> wfree w3 entry; Some (-1, fib\<lparr>ftable := t\<rparr>, w4) }
             else Some (0, fib\<lparr>ftable := t\<rparr>, w3)) }
          else do { w2 \<leftarrow> wfree w1 entry; Some (-1, fib, w2) }) }"

definition fib_route_delete :: "world \<Rightarrow> fib \<Rightarrow> int \<Rightarrow> u8 list \<Rightarrow> u32 \<Rightarrow> u32 \<Rightarrow> (int \<times> fib \<times> world) option" where
  "fib_route_delete w fib family prefix prefix_len rid = do {
     (ret, t, w1) \<leftarrow> lpm_delete (ftable fib) prefix prefix_len rid w;
     Some (if ret < 0 then -1 else 0, fib\<lparr>ftable := t\<rparr>, w1) }"

definition fib_lookup :: "fib \<Rightarrow> u8 list \<Rightarrow> addr option" where
  "fib_lookup fib destination = map_option lptr (lpm_lookup (ftable fib) destination)"

section \<open>Routes as the objects of the tree\<close>

interpretation fib_lpm: lpm_routes fib_entry_identify fib_entry_compare fib_entry_pull fib_entry_put fibs
  "\<lambda>e. (fid e, fprefix_len e)" refcount "\<lambda>r e. e\<lparr>refcount := r\<rparr>" fprefix
proof unfold_locales
  fix w p i l
  show "fib_entry_identify w p i l = map_option (\<lambda>x. if (fid x, fprefix_len x) = (i, l) then 0 else 1) (fibs w p)"
    by (cases "fibs w p") (simp_all add: fib_entry_identify_def)
  show "fib_entry_compare w p l = map_option (\<lambda>x. if l < snd (fid x, fprefix_len x) then 1 else 0) (fibs w p)"
    by (cases "fibs w p") (simp_all add: fib_entry_compare_def)
next
  fix w p x
  assume w: "winv w" "fibs w p = Some x"
  then have p: "p \<in> wlive w" by (rule winv_live(2))
  show "p \<in> wlive w" by (rule p)
  show "\<exists>w'. fib_entry_pull p w = Some w' \<and> winv w' \<and> wlive w' = wlive w \<and>
      fibs w' = (fibs w)(p \<mapsto> x\<lparr>refcount := refcount x + 1\<rparr>)"
    using w(2) winv_store(2) [OF w(1) p] by (simp add: fib_entry_pull_def)
  let ?w1 = "w\<lparr>fibs := (fibs w)(p \<mapsto> x\<lparr>refcount := refcount x - 1\<rparr>)\<rparr>"
  have w1: "winv ?w1" "p \<in> wlive ?w1" using winv_store(2) [OF w(1) p] p by simp_all
  obtain w2 where w2: "wfree ?w1 p = Some w2" "winv w2" "wlive w2 = wlive ?w1 - {p}" using wheap.free_law [OF w1] by blast
  show "\<exists>w'. fib_entry_put p w = Some w' \<and> winv w' \<and>
      (if refcount x = 1 then wlive w' = wlive w - {p} \<and> fibs w' = (fibs w)(p := None)
       else wlive w' = wlive w \<and> fibs w' = (fibs w)(p \<mapsto> x\<lparr>refcount := refcount x - 1\<rparr>))"
    using w(2) w1 w2 wfree_frame(2) [OF w2(1)] by (cases "refcount x = 1") (simp_all add: fib_entry_put_def)
qed (auto simp: walloc_frame wfree_frame)


section \<open>The table as a list of routes\<close>

definition fib_match :: "world \<Rightarrow> u8 list \<Rightarrow> addr \<Rightarrow> bool" where
  "fib_match w d p = (case fibs w p of None \<Rightarrow> False | Some f \<Rightarrow> matches (fprefix f) (fprefix_len f) d)"

definition fib_plen :: "world \<Rightarrow> addr \<Rightarrow> u32" where
  "fib_plen w p = (case fibs w p of None \<Rightarrow> 0 | Some f \<Rightarrow> fprefix_len f)"

text \<open>The route for the first \<open>l\<close> bits of \<open>pf\<close> with the identifier \<open>i\<close>.\<close>

definition fib_is_route :: "world \<Rightarrow> u32 \<Rightarrow> u32 \<Rightarrow> u8 list \<Rightarrow> addr \<Rightarrow> bool" where
  "fib_is_route w i l pf p = (case fibs w p of None \<Rightarrow> False
     | Some f \<Rightarrow> fid f = i \<and> fprefix_len f = l \<and> matches (fprefix f) l pf)"

text \<open>The blocks of the tree: the tables below the first level and the chain entries.\<close>

definition fib_tree :: "fib \<Rightarrow> addr set" where
  "fib_tree fib = set_mset (town (node (ftable fib)))"

definition fib_inv :: "world \<Rightarrow> fib \<Rightarrow> addr list \<Rightarrow> bool" where
  "fib_inv w fib rts \<longleftrightarrow> fib_lpm.rep w (ftable fib) rts \<and> fself fib \<in> wlive w \<and> fself fib \<notin> fib_tree fib \<and>
     fibs w (fself fib) = None"

lemma fib_match_matching: "fib_match w d = fib_lpm.matching w d"
  by (auto simp: fun_eq_iff fib_match_def fib_lpm.matching_def split: option.splits)

lemma fib_plen_clen: "fib_plen w = fib_lpm.clen w"
  by (auto simp: fun_eq_iff fib_plen_def fib_lpm.clen_def split: option.splits)

lemma find_filter: "find P xs = (case filter P xs of [] \<Rightarrow> None | x # _ \<Rightarrow> Some x)"
  by (induction xs) auto

lemma tgt_matches:
  assumes "unat l \<le> 128"
  shows "(\<forall>q. tgt p l q = tgt pf l q) \<longleftrightarrow> matches p l pf"
proof
  have r: "tgt pf l (tpath pf (level l))" using tgt_tpath [OF assms] by (simp add: matches_def)
  show "matches p l pf" if "\<forall>q. tgt p l q = tgt pf l q" using that r tgt_tpath [OF assms, of p pf "level l"] by simp
  show "\<forall>q. tgt p l q = tgt pf l q" if "matches p l pf"
    using tgt_same [OF _ r, of p] that tgt_tpath [OF assms, of p pf "level l"] by simp
qed

lemma fib_taken:
  assumes "unat l \<le> 128"
  shows "fib_lpm.taken w rts (i, l) pf p \<longleftrightarrow> p \<in> set rts \<and> fib_is_route w i l pf p"
proof (cases "fibs w p")
  case (Some f)
  then show ?thesis unfolding fib_lpm.taken_def fib_is_route_def
    by (auto simp: tgt_matches [OF assms])
qed (simp add: fib_lpm.taken_def fib_is_route_def)

lemma matches_memcpy:
  assumes "unat l \<le> 8 * n" "n \<le> length pf"
  shows "matches (memcpy j pf n) l pf"
  using assms by (auto simp: matches_def pbit_def intro!: arg_cong2 [where f = bit] nth_memcpy)

text \<open>The length of the addresses of a family, in bytes.\<close>

definition fib_klen :: "int \<Rightarrow> nat" where
  "fib_klen family = (if family = AF_INET then 4 else 16)"

lemma fib_entry_size [simp]: "mem_ok_size sizeof_fib_entry"
  by (simp add: mem_ok_size_def sizeof_fib_entry_def)

lemma fib_invD:
  assumes "fib_inv w fib rts"
  shows "fib_lpm.rep w (ftable fib) rts" "winv w" "fib_tree fib \<subseteq> wlive w" "set rts \<subseteq> wlive w"
    "fself fib \<in> wlive w" "fself fib \<notin> fib_tree fib" "fibs w (fself fib) = None" "\<And>a. a \<in> fib_tree fib \<Longrightarrow> fibs w a = None"
proof -
  show r: "fib_lpm.rep w (ftable fib) rts" and "fself fib \<in> wlive w" "fself fib \<notin> fib_tree fib" "fibs w (fself fib) = None"
    using assms by (simp_all add: fib_inv_def)
  show w: "winv w" by (rule fib_lpm.rep_parts(1) [OF r])
  show "fib_tree fib \<subseteq> wlive w" using fib_lpm.rep_parts(6) [OF r] by (simp add: owned_def fib_tree_def)
  show "set rts \<subseteq> wlive w"
  proof
    fix p assume "p \<in> set rts"
    then obtain x where "fibs w p = Some x" using fib_lpm.rep_obj [OF r] by blast
    then show "p \<in> wlive w" by (rule winv_live(2) [OF w])
  qed
  show "fibs w a = None" if "a \<in> fib_tree fib" for a
    using fib_lpm.rep_parts(7) [OF r] that by (simp add: fib_tree_def)
qed

text \<open>Taking and filling a block that the table does not use is invisible to the table.\<close>

lemma fib_inv_frame:
  assumes "fib_inv w fib rts" "winv w'" "wlive w \<subseteq> wlive w'" "\<forall>b \<in> wlive w. fibs w' b = fibs w b"
  shows "fib_inv w' fib rts"
proof -
  note I = fib_invD [OF assms(1)]
  have "owned w' (town (node (ftable fib)))" using fib_lpm.rep_parts(6) [OF I(1)] assms(3) unfolding owned_def by blast
  moreover have "\<forall>p \<in> set rts. fibs w' p = fibs w p" using I(4) assms(4) by blast
  moreover have "\<forall>a \<in># town (node (ftable fib)). fibs w' a = None" using I(3,8) assms(4) unfolding fib_tree_def by (metis subsetD)
  ultimately have "fib_lpm.rep w' (ftable fib) rts" by (rule fib_lpm.rep_cong [OF I(1) assms(2)])
  moreover have "fself fib \<in> wlive w'" "fibs w' (fself fib) = None" using I(5,7) assms(3,4) by auto
  ultimately show ?thesis using I(6) by (simp add: fib_inv_def)
qed


section \<open>Lookups\<close>

lemma fib_lookup_find: "fib_inv w fib rts \<Longrightarrow> fib_lookup fib d = find (fib_match w d) rts"
  by (simp add: fib_lookup_def fib_lpm.rep_lookup [OF fib_invD(1)] fib_match_matching find_filter)

lemma fib_sorted: "fib_inv w fib rts \<Longrightarrow> sorted_wrt (\<lambda>p q. fib_plen w q \<le> fib_plen w p) rts"
  unfolding fib_plen_clen by (rule fib_lpm.rep_parts(4) [OF fib_invD(1)])

lemma sorted_find_max:
  assumes "sorted_wrt (\<lambda>p q. g q \<le> (g p :: u32)) rts" "find M rts = Some p"
  shows "p \<in> set rts \<and> M p \<and> (\<forall>p' \<in> set rts. M p' \<longrightarrow> g p' \<le> g p)"
  using assms by (induction rts) (auto split: if_splits)

lemma find_append: "find M (xs @ ys) = (case find M xs of None \<Rightarrow> find M ys | Some x \<Rightarrow> Some x)"
  by (induction xs) auto

lemma find_SomeD: "find M xs = Some x \<Longrightarrow> x \<in> set xs \<and> M x"
  by (induction xs) (auto split: if_splits)

text \<open>Inserting into a list of routes is taking precedence over the routes that are not longer.\<close>

lemma find_insert:
  assumes "\<forall>q \<in> set xs. l < g q" "\<forall>q \<in> set ys. g q \<le> (l :: u32)" "\<forall>q \<in> set xs \<union> set ys. M' q = M q"
  shows "find M' (xs @ p # ys) =
    (if M' p \<and> (\<forall>q. find M (xs @ ys) = Some q \<longrightarrow> g q \<le> l) then Some p else find M (xs @ ys))"
proof -
  have e: "find M' xs = find M xs" "find M' ys = find M ys" using assms(3) by (auto intro: find_cong)
  have "find M xs = Some q \<Longrightarrow> \<not> g q \<le> l" "find M ys = Some q \<Longrightarrow> g q \<le> l" for q
    using assms(1,2) find_SomeD [of M] by (auto simp: not_le)
  then show ?thesis by (auto simp: find_append e split: option.splits)
qed

section \<open>Insertion\<close>

text \<open>The table after a route has been stored in a new block of the memory.\<close>

lemma fib_store_route:
  assumes "fib_inv w fib rts" "walloc w sizeof_fib_entry = Some (Some a, w1)" "winv w1" "a \<notin> wlive w"
    "wlive w1 = insert a (wlive w)" and w2_def: "w2 = w1\<lparr>fibs := (fibs w1)(a \<mapsto> e)\<rparr>"
  shows "fib_inv w2 fib rts" "wlive w2 = insert a (wlive w)" "fibs w2 = (fibs w)(a \<mapsto> e)"
    "\<And>p. p \<in> set rts \<Longrightarrow> fibs w2 p = fibs w p" "fibs w a = None"
proof -
  note I = fib_invD [OF assms(1)]
  show l: "wlive w2 = insert a (wlive w)" and f: "fibs w2 = (fibs w)(a \<mapsto> e)"
    using assms(5) walloc_frame(2) [OF assms(2)] by (simp_all add: w2_def)
  have "winv w2" using winv_store(2) [OF assms(3), of a e] assms(5) by (simp add: w2_def)
  then show "fib_inv w2 fib rts" by (rule fib_inv_frame [OF assms(1)]) (use l f assms(4) in auto)
  show "fibs w2 p = fibs w p" if "p \<in> set rts" for p using that I(4) assms(4) f by auto
  show "fibs w a = None" by (rule winv_dead(2) [OF I(2) assms(4)])
qed

lemma fib_tree_grows:
  assumes "grows w (town (node (ftable fib))) w' (town (node (ftable fib')))"
  shows "wlive w' = wlive w \<union> (fib_tree fib' - fib_tree fib) \<or> \<not> fib_tree fib \<subseteq> wlive w"
    "\<And>a. a \<in> fib_tree fib' \<Longrightarrow> a \<in> fib_tree fib \<or> a \<notin> wlive w" "wlive w \<subseteq> wlive w'"
  using assms by (auto simp: grows_def fib_tree_def)

lemma fib_split:
  assumes "fib_inv w fib rts" "\<And>p. p \<in> set rts \<Longrightarrow> fibs w2 p = fibs w p"
  shows "\<exists>xs ys. rts = xs @ ys \<and> (\<forall>q \<in> set xs. l < fib_plen w q) \<and> (\<forall>q \<in> set ys. fib_plen w q \<le> l) \<and>
    fib_lpm.insp w2 l p rts = xs @ p # ys"
proof -
  let ?A = "\<lambda>q. l < fib_plen w q"
  have "sorted_wrt (\<lambda>x y. ?A y \<longrightarrow> ?A x) rts"
    using fib_sorted [OF assms(1)] by (rule sorted_wrt_mono_rel [rotated]) auto
  from filter_take_drop [OF this] have r: "rts = filter ?A rts @ filter (\<lambda>q. \<not> ?A q) rts" by (metis append_take_drop_id)
  have c: "fib_lpm.clen w2 q = fib_plen w q" if "q \<in> set rts" for q
    using assms(2) [OF that] by (simp add: fib_plen_def fib_lpm.clen_def split: option.split)
  have "filter (\<lambda>q. l < fib_lpm.clen w2 q) rts = filter ?A rts"
    "filter (\<lambda>q. \<not> l < fib_lpm.clen w2 q) rts = filter (\<lambda>q. \<not> ?A q) rts" by (simp_all add: c cong: filter_cong)
  then have "fib_lpm.insp w2 l p rts = filter ?A rts @ p # filter (\<lambda>q. \<not> ?A q) rts" by (simp add: fib_lpm.insp_def)
  then show ?thesis using r by (intro exI [of _ "filter ?A rts"] exI [of _ "filter (\<lambda>q. \<not> ?A q) rts"]) (auto simp: not_less)
qed



lemma fib_add_existing:
  assumes "fib_inv w fib rts" "p \<in> set rts" "fib_is_route w rid l pf p" "unat l \<le> 128"
  shows "\<exists>w'. lpm_add (ftable fib) pf l rid e w = Some (-1, ftable fib, w') \<and> winv w' \<and> wlive w' = wlive w \<and> fibs w' = fibs w"
proof -
  have "fib_lpm.taken w rts (rid, l) pf p" using fib_taken [OF assms(4)] assms(2,3) by simp
  from fib_lpm.rep_add_exists [OF fib_invD(1) [OF assms(1)] this] show ?thesis using fib_lpm.rep_parts(1) by blast
qed

lemma fib_add_new:
  assumes "fib_inv w fib rts" "\<forall>p \<in> set rts. \<not> fib_is_route w rid l pf p" "fibs w a = Some f" "a \<notin> set rts"
    "fid f = rid" "fprefix_len f = l" "refcount f = 0" "matches (fprefix f) l pf" "unat l \<le> 128"
    "lpm_add (ftable fib) pf l rid a w = Some (r, t, w')" "\<not> r < 0"
  shows "fib_inv w' (fib\<lparr>ftable := t\<rparr>) (fib_lpm.insp w l a rts)" "fibs w' = (fibs w)(a \<mapsto> f\<lparr>refcount := rng_of l\<rparr>)"
    "wlive w' = wlive w \<union> (fib_tree (fib\<lparr>ftable := t\<rparr>) - fib_tree fib)"
proof -
  note I = fib_invD [OF assms(1)]
  have "\<forall>q. tgt (fprefix f) l q = tgt pf l q" using tgt_matches [OF assms(9)] assms(8) by blast
  then have A: "fib_lpm.rep w' t (fib_lpm.insp w l a rts)" "grows w (town (node (ftable fib))) w' (town (node t))"
      "fibs w' = (fibs w)(a \<mapsto> f\<lparr>refcount := rng_of l\<rparr>)"
    using fib_lpm.rep_add [OF I(1) assms(3) _ assms(7) _ assms(4,9) _ assms(10,11)] assms(2,5,6) fib_taken [OF assms(9)] by auto
  show "fibs w' = (fibs w)(a \<mapsto> f\<lparr>refcount := rng_of l\<rparr>)" by (rule A(3))
  note G = fib_tree_grows [where fib' = "fib\<lparr>ftable := t\<rparr>" and fib = fib, simplified, OF A(2)]
  show "wlive w' = wlive w \<union> (fib_tree (fib\<lparr>ftable := t\<rparr>) - fib_tree fib)" using G(1) I(3) by blast
  have "fself fib \<notin> fib_tree (fib\<lparr>ftable := t\<rparr>)" using G(2) I(5,6) by blast
  then show "fib_inv w' (fib\<lparr>ftable := t\<rparr>) (fib_lpm.insp w l a rts)"
    using A(1,3) G(3) I(5,7) assms(3) by (auto simp: fib_inv_def)
qed

text \<open>The three ways \<open>fib_route_update\<close> can go before it inserts into the tree.\<close>

lemma fib_update_cases:
  assumes "fib_inv w fib rts"
  obtains (fail) w1 where "walloc w sizeof_fib_entry = Some (None, w1)" "fib_inv w1 fib rts" "fibs w1 = fibs w" "wlive w1 = wlive w"
  | (family) w1 a where "walloc w sizeof_fib_entry = Some (Some a, w1)" "\<not> (family = AF_INET \<or> family = AF_INET6)"
      "winv w1" "a \<notin> wlive w" "wlive w1 = insert a (wlive w)"
  | (ok) w1 a where "walloc w sizeof_fib_entry = Some (Some a, w1)" "winv w1" "a \<notin> wlive w" "wlive w1 = insert a (wlive w)"
      "family = AF_INET \<or> family = AF_INET6"
  using fib_invD(2) [OF assms] fib_entry_size
proof (cases rule: wheap.alloc_cases)
  case f: (fail w1)
  show thesis using fail [OF f(1) fib_inv_frame [OF assms f(2)]] f(3) walloc_frame(2) [OF f(1)] by simp
next
  case o: (ok a w1)
  then show thesis using family ok by blast
qed

definition fib_stored ::
    "world \<Rightarrow> addr \<Rightarrow> int \<Rightarrow> fib_type \<Rightarrow> u8 list \<Rightarrow> u32 \<Rightarrow> u8 list \<Rightarrow> int \<Rightarrow> u32 \<Rightarrow> world" where
  "fib_stored w a family type prefix prefix_len nexthop port_index rid =
     w\<lparr>fibs := (fibs w)(a \<mapsto> fib_entry_fill (junk w a) family type prefix prefix_len nexthop port_index rid)\<rparr>"

lemma fib_update_eq:
  assumes "walloc w sizeof_fib_entry = Some (Some a, w1)" "family = AF_INET \<or> family = AF_INET6"
  shows "fib_route_update w fib family type prefix prefix_len nexthop port_index rid = do {
    (ret, t, w3) \<leftarrow> lpm_add (ftable fib) prefix prefix_len rid a (fib_stored w1 a family type prefix prefix_len nexthop port_index rid);
    (if ret < 0 then do { w4 \<leftarrow> wfree w3 a; Some (-1, fib\<lparr>ftable := t\<rparr>, w4) } else Some (0, fib\<lparr>ftable := t\<rparr>, w3)) }"
  using assms by (simp add: fib_route_update_def fib_stored_def)

lemma fib_stored:
  assumes "fib_inv w fib rts" "walloc w sizeof_fib_entry = Some (Some a, w1)" "winv w1" "a \<notin> wlive w"
    "wlive w1 = insert a (wlive w)" "w2 = fib_stored w1 a family type prefix prefix_len nexthop port_index rid"
  shows "fib_inv w2 fib rts" "wlive w2 = insert a (wlive w)"
    "fibs w2 = (fibs w)(a \<mapsto> fib_entry_fill (junk w1 a) family type prefix prefix_len nexthop port_index rid)"
    "\<And>p. p \<in> set rts \<Longrightarrow> fibs w2 p = fibs w p" "a \<notin> set rts" "fibs w a = None"
  using fib_store_route [OF assms(1-5) assms(6) [unfolded fib_stored_def]] fib_invD(4) [OF assms(1)] assms(4) by auto

lemma fib_undo:
  assumes "fib_inv w fib rts" "a \<notin> wlive w" "wlive v = insert a (wlive w)" "winv v" "\<forall>b. b \<noteq> a \<longrightarrow> fibs v b = fibs w b"
  shows "\<exists>w'. wfree v a = Some w' \<and> fib_inv w' fib rts \<and> fibs w' = fibs w \<and> wlive w' = wlive w"
proof -
  obtain w' where w': "wfree v a = Some w'" "winv w'" "wlive w' = wlive v - {a}"
    using wheap.free_law [OF assms(4), of a] assms(3) by blast
  have "fibs w' = fibs w"
    using wfree_frame(2) [OF w'(1)] assms(5) winv_dead(2) [OF fib_invD(2) [OF assms(1)] assms(2)] by (auto simp: fun_eq_iff)
  moreover have "wlive w' = wlive w" using w'(3) assms(2,3) by auto
  ultimately show ?thesis using w'(1) fib_inv_frame [OF assms(1) w'(2)] by simp
qed

lemma fib_update_new:
  assumes "fib_inv w fib rts" "family = AF_INET \<or> family = AF_INET6" "fib_klen family \<le> length prefix" "fib_klen family \<le> length nexthop"
    "unat prefix_len \<le> 8 * fib_klen family" "\<forall>p \<in> set rts. \<not> fib_is_route w rid prefix_len prefix p"
    "fib_route_update w fib family type prefix prefix_len nexthop port_index rid = Some (0, fib', w')"
  obtains p f xs ys where "p \<notin> wlive w" "rts = xs @ ys" "fib_inv w' fib' (xs @ p # ys)" "fibs w' = (fibs w)(p \<mapsto> f)"
    "\<forall>q \<in> set xs. prefix_len < fib_plen w q" "\<forall>q \<in> set ys. fib_plen w q \<le> prefix_len" "fid f = rid" "fprefix_len f = prefix_len"
    "matches (fprefix f) prefix_len prefix" "take (fib_klen family) (fnexthop f) = take (fib_klen family) nexthop"
    "fport_index f = port_index" "ftype f = type" "wlive w' = wlive w \<union> {p} \<union> (fib_tree fib' - fib_tree fib)"
  using assms(1)
proof (cases rule: fib_update_cases [where family = family])
  case (ok w1 a)
  define w2 where "w2 = fib_stored w1 a family type prefix prefix_len nexthop port_index rid"
  define f where "f = fib_entry_fill (junk w1 a) family type prefix prefix_len nexthop port_index rid"
  note S = fib_stored [OF assms(1) ok(1-4) w2_def, folded f_def]
  have l: "unat prefix_len \<le> 128" using assms(5) by (simp add: fib_klen_def split: if_splits)
  have m: "matches (fprefix f) prefix_len prefix"
    using matches_memcpy [OF assms(5,3)] by (simp add: f_def fib_entry_fill_def fib_klen_def Let_def)
  have ff: "fid f = rid" "fprefix_len f = prefix_len" "refcount f = 0" "fport_index f = port_index" "ftype f = type"
      "take (fib_klen family) (fnexthop f) = take (fib_klen family) nexthop"
    using assms(4) by (auto simp: f_def fib_entry_fill_def Let_def fib_klen_def memcpy_def)
  obtain r t where r: "lpm_add (ftable fib) prefix prefix_len rid a w2 = Some (r, t, w')" "\<not> r < 0" "fib' = fib\<lparr>ftable := t\<rparr>"
    using assms(7) fib_update_eq [OF ok(1,5), of fib type prefix prefix_len nexthop port_index rid]
    by (auto simp: w2_def [symmetric] split: bind_splits if_splits)
  have "\<forall>p \<in> set rts. \<not> fib_is_route w2 rid prefix_len prefix p" using assms(6) S(4) by (simp add: fib_is_route_def)
  from fib_add_new [OF S(1) this _ S(5) ff(1-3) m l r(1,2)] S(3)
  have N: "fib_inv w' fib' (fib_lpm.insp w2 prefix_len a rts)" "fibs w' = (fibs w2)(a \<mapsto> f\<lparr>refcount := rng_of prefix_len\<rparr>)"
      "wlive w' = wlive w2 \<union> (fib_tree fib' - fib_tree fib)"
    unfolding r(3) by simp_all
  obtain xs ys where X: "rts = xs @ ys" "\<forall>q \<in> set xs. prefix_len < fib_plen w q" "\<forall>q \<in> set ys. fib_plen w q \<le> prefix_len"
      "fib_lpm.insp w2 prefix_len a rts = xs @ a # ys"
    using fib_split [OF assms(1) S(4)] by blast
  show thesis
    by (rule that [OF ok(3) X(1) N(1) [unfolded X(4)] _ X(2,3), where f = "f\<lparr>refcount := rng_of prefix_len\<rparr>"])
      (use N(2,3) S(2,3) ff m in auto)
qed (use assms in \<open>auto simp: fib_route_update_def split: bind_splits\<close>)

section \<open>Deletion\<close>

text \<open>Deletion only takes blocks away from the tree.\<close>

lemma town_upd_mono:
  assumes "own n \<subseteq># own (tb j)"
  shows "town (tb(j := n)) \<subseteq># town tb"
proof (rule mset_subset_eqI)
  fix a
  have "count (town (tb(j := n))) a + count (own (tb j)) a = count (town tb) a + count (own n) a"
    using arg_cong [OF town_upd [of tb j n], of "\<lambda>M. count M a"] by simp
  then show "count (town (tb(j := n))) a \<le> count (town tb) a"
    using mset_subset_eq_count [OF assms, of a] by linarith
qed

lemma entry_delete_sub:
  assumes "lpm_entry_delete t h rid l w = Some (r, h', w')"
  shows "mset h' \<subseteq># mset h"
  using assms by (auto simp: lpm_entry_delete_def diff_subset_eq_self split: bind_splits option.splits)

lemma delete_loop_sub: "lpm_delete_loop t rid l ix ks tb w = Some (ok, tb', w') \<Longrightarrow> town tb' \<subseteq># town tb"
proof (induction ks arbitrary: tb w)
  case (Cons i ks)
  obtain r h w1 where d: "lpm_entry_delete t (nhead (tb (ix OR i))) rid l w = Some (r, h, w1)"
    using Cons.prems by (auto split: bind_splits)
  have "own (set_head h (tb (ix OR i))) \<subseteq># own (tb (ix OR i))"
    using image_mset_subseteq_mono [OF entry_delete_sub [OF d], of laddr] by (simp add: own_eq)
  then have s: "town (tb(ix OR i := set_head h (tb (ix OR i)))) \<subseteq># town tb" by (rule town_upd_mono)
  show ?case
  proof (cases "r < 0")
    case True
    then show ?thesis using Cons.prems d s by (auto simp: Let_def)
  next
    case False
    then have "lpm_delete_loop t rid l ix ks (tb(ix OR i := set_head h (tb (ix OR i)))) w1 = Some (ok, tb', w')"
      using Cons.prems d by (simp add: Let_def)
    from subset_mset.order_trans [OF Cons.IH [OF this] s] show ?thesis .
  qed
qed simp

lemma release_empty_sub:
  assumes "lpm_release_empty n a tb w = Some (n', w')"
  shows "own n' \<subseteq># mset (map laddr (nhead n)) + add_mset a (town tb)"
  using assms by (auto simp: lpm_release_empty_def own_eq split: if_splits bind_splits)

lemma delete_sub_sub: "lpm_delete_sub t pf l rid n off w = Some (r, n', w') \<Longrightarrow> own n' \<subseteq># own n"
proof (induction t pf l rid n off w arbitrary: r n' w' rule: lpm_delete_sub.induct)
  case (1 t pf l rid n off w)
  show ?case
  proof (cases "next_table n")
    case None
    then show ?thesis using "1.prems" by (simp add: lpm_delete_sub.simps [of t pf l rid n])
  next
    case (Some x)
    obtain a tb where x: "x = (a, tb)" by fastforce
    let ?ix = "lpm_index pf off 8"
    have o: "own n = mset (map laddr (nhead n)) + add_mset a (town tb)" using Some x by (simp add: own_eq)
    obtain ok tb' w1 where t: "town tb' \<subseteq># town tb"
      and f: "(if ok then do { (p, w2) \<leftarrow> lpm_release_empty n a tb' w1; Some (0, p, w2) }
           else Some (-1, set_next (Some (a, tb')) n, w1)) = Some (r, n', w')"
    proof (cases "l - off > 8")
      case True
      obtain r1 nd w1 where d: "lpm_delete_sub t pf l rid (tb ?ix) (off + 8) w = Some (r1, nd, w1)"
        using "1.prems" Some x True by (auto simp: lpm_delete_sub.simps [of t pf l rid n] Let_def split: bind_splits)
      have "town (tb(?ix := nd)) \<subseteq># town tb" by (rule town_upd_mono, rule "1.IH" [OF Some x [symmetric] refl True d])
      then show thesis using that [of "tb(?ix := nd)" "\<not> r1 < 0" w1] "1.prems" Some x True d
        by (simp add: lpm_delete_sub.simps [of t pf l rid n] Let_def)
    next
      case False
      obtain ok tb' w1 where d: "lpm_delete_loop t rid l (?ix AND NOT (push_bit (unat (8 - (l - off))) 1 - 1))
          (indices (push_bit (unat (8 - (l - off))) 1)) tb w = Some (ok, tb', w1)"
        using "1.prems" Some x False by (auto simp: lpm_delete_sub.simps [of t pf l rid n] Let_def split: bind_splits)
      then show thesis using that [OF delete_loop_sub [OF d]] "1.prems" Some x False
        by (simp add: lpm_delete_sub.simps [of t pf l rid n] Let_def)
    qed
    have "mset (map laddr (nhead n)) + add_mset a (town tb') \<subseteq># own n" using t by (simp add: o)
    then show ?thesis using f release_empty_sub [of n a tb' w1] subset_mset.order_trans
      by (auto simp: own_set_next split: if_splits bind_splits)
  qed
qed

lemma delete_town_sub: "lpm_delete t pf l rid w = Some (r, t', w') \<Longrightarrow> town (node t') \<subseteq># town (node t)"
  using delete_sub_sub delete_loop_sub
  by (auto simp: lpm_delete_def Let_def split: if_splits bind_splits intro!: town_upd_mono)

section \<open>Properties\<close>

text \<open>
  C20.  \<open>fib_lookup\<close> is the first route in the list of all routes, which is ordered by decreasing prefix
  length, that matches the destination bit by bit: it is a route that matches the destination, no route
  that matches is longer, and there is no result exactly when no route matches.
\<close>

theorem fib_lookup_longest_prefix:
  assumes "fib_inv w fib rts"
  shows "fib_lookup fib d = find (fib_match w d) rts \<and>
    (case fib_lookup fib d of
       None \<Rightarrow> \<forall>p \<in> set rts. \<not> fib_match w d p
     | Some p \<Rightarrow> p \<in> set rts \<and> fib_match w d p \<and> (\<forall>p' \<in> set rts. fib_match w d p' \<longrightarrow> fib_plen w p' \<le> fib_plen w p))"
proof -
  note e = fib_lookup_find [OF assms, of d]
  show ?thesis
  proof (cases "find (fib_match w d) rts")
    case None
    then show ?thesis unfolding e None using None by (simp add: find_None_iff)
  next
    case (Some p)
    then show ?thesis unfolding e using sorted_find_max [OF fib_sorted [OF assms] Some] by simp
  qed
qed

text \<open>
  C23.  \<open>fib_route_update\<close> for a route that the table already has (the same prefix, length and identifier)
  fails and leaves the table, its routes and the memory in use as they were, whether or not the thread's
  memory has room for the new route, as long as no call of libnuma fails.
\<close>

theorem fib_route_update_existing:
  assumes "fib_inv w fib rts" "p \<in> set rts" "fib_is_route w rid prefix_len prefix p" "unat prefix_len \<le> 128"
  shows "\<exists>w'. fib_route_update w fib family type prefix prefix_len nexthop port_index rid = Some (-1, fib, w') \<and>
    fib_inv w' fib rts \<and> fibs w' = fibs w \<and> wlive w' = wlive w"
  using assms(1)
proof (cases rule: fib_update_cases [where family = family])
  case (fail w1)
  then show ?thesis by (simp add: fib_route_update_def)
next
  case (family w1 a)
  obtain w' where "wfree w1 a = Some w'" "fib_inv w' fib rts" "fibs w' = fibs w" "wlive w' = wlive w"
    using fib_undo [OF assms(1) family(4,5,3)] walloc_frame(2) [OF family(1)] by auto
  then show ?thesis using family by (simp add: fib_route_update_def)
next
  case (ok w1 a)
  define w2 where "w2 = fib_stored w1 a family type prefix prefix_len nexthop port_index rid"
  note S = fib_stored [OF assms(1) ok(1-4) w2_def]
  have "fib_is_route w2 rid prefix_len prefix p" using assms(3) S(4) [OF assms(2)] by (simp add: fib_is_route_def)
  then obtain w3 where w3: "lpm_add (ftable fib) prefix prefix_len rid a w2 = Some (-1, ftable fib, w3)" "winv w3"
      "wlive w3 = wlive w2" "fibs w3 = fibs w2"
    using fib_add_existing [OF S(1) assms(2) _ assms(4)] by blast
  obtain w' where "wfree w3 a = Some w'" "fib_inv w' fib rts" "fibs w' = fibs w" "wlive w' = wlive w"
    using fib_undo [OF assms(1) ok(3) _ w3(2)] w3(3,4) S(2,3) by auto
  then show ?thesis using fib_update_eq [OF ok(1,5), of fib type prefix prefix_len nexthop port_index rid] w3(1)
    by (simp add: w2_def [symmetric])
qed

text \<open>
  C21.  When \<open>fib_route_update\<close> succeeds for a new route of at most 32 (128) bits, the table has exactly
  one route more, in a block of its own with the prefix, nexthop, port and type given, and a lookup finds
  the new route exactly for the destinations that match it and had no longer match before; every other
  lookup is as before.  The memory in use grows by the route and the blocks of the tree.  As for the other
  operations on the thread's memory, no call of libnuma fails.
\<close>

theorem fib_route_update_new:
  assumes "fib_inv w fib rts" "family = AF_INET \<or> family = AF_INET6" "fib_klen family \<le> length prefix" "fib_klen family \<le> length nexthop"
    "unat prefix_len \<le> 8 * fib_klen family" "\<forall>p \<in> set rts. \<not> fib_is_route w rid prefix_len prefix p"
    "fib_route_update w fib family type prefix prefix_len nexthop port_index rid = Some (0, fib', w')"
  shows "\<exists>p rts' f. p \<notin> wlive w \<and> fib_inv w' fib' rts' \<and> set rts' = insert p (set rts) \<and> fibs w' = (fibs w)(p \<mapsto> f) \<and>
    fib_is_route w' rid prefix_len prefix p \<and>
    take (fib_klen family) (fnexthop f) = take (fib_klen family) nexthop \<and> fport_index f = port_index \<and> ftype f = type \<and>
    (\<forall>d. fib_lookup fib' d =
       (if matches prefix prefix_len d \<and> (\<forall>q. fib_lookup fib d = Some q \<longrightarrow> fib_plen w q \<le> prefix_len) then Some p
        else fib_lookup fib d)) \<and>
    wlive w' = wlive w \<union> {p} \<union> (fib_tree fib' - fib_tree fib)"
proof -
  obtain p f xs ys where N: "p \<notin> wlive w" "rts = xs @ ys" "fib_inv w' fib' (xs @ p # ys)" "fibs w' = (fibs w)(p \<mapsto> f)"
      "\<forall>q \<in> set xs. prefix_len < fib_plen w q" "\<forall>q \<in> set ys. fib_plen w q \<le> prefix_len" "fid f = rid" "fprefix_len f = prefix_len"
      "matches (fprefix f) prefix_len prefix" "take (fib_klen family) (fnexthop f) = take (fib_klen family) nexthop"
      "fport_index f = port_index" "ftype f = type" "wlive w' = wlive w \<union> {p} \<union> (fib_tree fib' - fib_tree fib)"
    by (rule fib_update_new [OF assms]) iprover
  have M: "fib_match w' d p \<longleftrightarrow> matches prefix prefix_len d" for d
    using N(4,8,9) by (auto simp: fib_match_def matches_def)
  have M': "\<forall>q \<in> set xs \<union> set ys. fib_match w' d q = fib_match w d q" for d
    using N(1,2,4) fib_invD(4) [OF assms(1)] by (auto simp: fib_match_def)
  have "fib_lookup fib' d = (if matches prefix prefix_len d \<and> (\<forall>q. fib_lookup fib d = Some q \<longrightarrow> fib_plen w q \<le> prefix_len)
      then Some p else fib_lookup fib d)" for d
    unfolding fib_lookup_find [OF assms(1)] fib_lookup_find [OF N(3)] N(2)
    by (subst find_insert [OF N(5,6) M']) (simp add: M)
  then show ?thesis
    using N by (intro exI [of _ p] exI [of _ "xs @ p # ys"] exI [of _ f]) (auto simp: fib_is_route_def)
qed

text \<open>
  C22.  \<open>fib_route_delete\<close> always returns.  It removes exactly the route with the prefix, length and
  identifier given, releases the route and the blocks of the tree that are not needed any more, and keeps
  the order of the others; without such a route it fails and changes nothing.
\<close>

theorem fib_route_delete_correct:
  assumes "fib_inv w fib rts" "unat prefix_len \<le> 128"
  shows "if \<exists>p \<in> set rts. fib_is_route w rid prefix_len prefix p
    then \<exists>p fib' w'. p \<in> set rts \<and> fib_is_route w rid prefix_len prefix p \<and>
      fib_route_delete w fib family prefix prefix_len rid = Some (0, fib', w') \<and> fib_inv w' fib' (remove1 p rts) \<and>
      fibs w' = (fibs w)(p := None) \<and> wlive w' = wlive w - insert p (fib_tree fib - fib_tree fib') \<and>
      fib_tree fib' \<subseteq> fib_tree fib
    else fib_route_delete w fib family prefix prefix_len rid = Some (-1, fib, w)"
proof (cases "\<exists>p \<in> set rts. fib_is_route w rid prefix_len prefix p")
  case True
  note I = fib_invD [OF assms(1)]
  obtain p where p: "p \<in> set rts" "fib_is_route w rid prefix_len prefix p" using True by blast
  then have "fib_lpm.taken w rts (rid, prefix_len) prefix p" using fib_taken [OF assms(2)] by simp
  from fib_lpm.rep_delete [OF I(1) this] obtain t w' where D: "lpm_delete (ftable fib) prefix prefix_len rid w = Some (0, t, w')"
      "fib_lpm.rep w' t (remove1 p rts)" "grows w' (town (node t)) w (add_mset p (town (node (ftable fib))))"
      "fibs w' = (fibs w)(p := None)"
    by blast
  let ?fib = "fib\<lparr>ftable := t\<rparr>"
  obtain S where S: "finite S" "S \<inter> wlive w' = {}" "wlive w = wlive w' \<union> S" "add_mset p (town (node (ftable fib))) = town (node t) + mset_set S"
    using D(3) unfolding grows_def by blast
  have t: "insert p (fib_tree fib) = fib_tree ?fib \<union> S"
    using arg_cong [OF S(4), of set_mset] S(1) by (simp add: fib_tree_def)
  have l: "fib_tree ?fib \<subseteq> wlive w'" using fib_lpm.rep_parts(6) [OF D(2)] by (simp add: owned_def fib_tree_def)
  have f: "fibs w p \<noteq> None" using p(2) by (auto simp: fib_is_route_def split: option.splits)
  have a: "p \<notin> fib_tree fib" "fself fib \<noteq> p" using f I(7,8) by auto
  have s: "fib_tree ?fib \<subseteq> fib_tree fib" using set_mset_mono [OF delete_town_sub [OF D(1)]] by (simp add: fib_tree_def)
  have "wlive w' = wlive w - S" using S(2,3) by blast
  moreover have "S = insert p (fib_tree fib - fib_tree ?fib)" using t s a(1) l S(2) by blast
  moreover have "fib_inv w' ?fib (remove1 p rts)"
    using D(2,4) s a I(5-7) \<open>wlive w' = wlive w - S\<close> \<open>S = insert p (fib_tree fib - fib_tree ?fib)\<close> by (auto simp: fib_inv_def)
  ultimately show ?thesis using True p D(1,4) s by (auto simp: fib_route_delete_def)
next
  case False
  then have "\<nexists>p. fib_lpm.taken w rts (rid, prefix_len) prefix p" using fib_taken [OF assms(2)] by blast
  from fib_lpm.rep_delete_none [OF fib_invD(1) [OF assms(1)] this] show ?thesis
    using False by (simp add: fib_route_delete_def)
qed

section \<open>A concrete table\<close>

definition ex_fib :: fib where
  "ex_fib = \<lparr>fself = 4160, ftable = \<lparr>node = \<lambda>_. LNode [] None, entry_identify = fib_entry_identify,
     entry_compare = fib_entry_compare, entry_pull = fib_entry_pull, entry_put = fib_entry_put\<rparr>\<rparr>"

lemma fib_inv_empty:
  assumes "winv w" "a \<in> wlive w" "fibs w a = None"
  shows "fib_inv w (ex_fib\<lparr>fself := a\<rparr>) []"
proof -
  have "tents (node (ftable ex_fib)) q = []" for q
    by (cases q) (simp_all add: ex_fib_def lpm_init_node_def [symmetric])
  moreover have t: "town (node (ftable ex_fib)) = {#}" by (simp add: ex_fib_def town_def own_eq)
  moreover have "has_ops (ftable ex_fib) fib_entry_identify fib_entry_compare fib_entry_pull fib_entry_put"
    by (simp add: has_ops_def ex_fib_def)
  moreover have "wft (node (ftable ex_fib) j)" for j by (simp add: ex_fib_def wft.simps)
  ultimately have "fib_lpm.rep w (ftable ex_fib) []" using assms(1) by (simp add: fib_lpm.rep_def owned_def)
  then show ?thesis using assms t by (simp add: fib_inv_def fib_tree_def)
qed

lemma ex_fib_self: "ex_fib\<lparr>fself := 4160\<rparr> = ex_fib"
  by (simp add: ex_fib_def)

lemma ex_indices: "indices 1 = [0]" "indices 2 = [0, 1]"
  by (simp_all add: indices_def upt_rec)

lemmas fib_eval = walloc_def wfree_def ixmap_mem_alloc_def mem_fuel_def mem_alloc_numeral mem_request_def mem_header_size_def ALIGN_def
  L1_CACHE_BYTES_def mem_split_def ixmap_mnode_alloc_def set_child_def set_allocated_def child_def ixmap_mnode_release_def
  fib_route_update_def fib_entry_fill_def lpm_add_def lpm_index_def load32_def ntohl_def ex_indices sizeof_fib_entry_def
  sizeof_lpm_entry_def lpm_entry_insert_def fib_entry_pull_def AF_INET_def ixmap_mem_free_def

lemma ex_world_fib: "fib_inv ex_world ex_fib []"
  using fib_inv_empty [OF ex_world_inv(1), of 4160] by (simp add: ex_world_inv(2) ex_fib_self) (simp add: ex_world_def)

lemma ex_fib_update:
  "map_option fst (fib_route_update ex_world ex_fib AF_INET FIB_TYPE_FORWARD [10, 1, 0, 0] 16 [10, 0, 0, 1] 0 254) = Some 0"
  by (simp add: ex_world_def ex_fib_def fib_eval)

theorem fib_route_update_new_witness:
  "\<exists>fib' w' p. fib_route_update ex_world ex_fib AF_INET FIB_TYPE_FORWARD [10, 1, 0, 0] 16 [10, 0, 0, 1] 0 254 = Some (0, fib', w') \<and>
     p \<notin> wlive ex_world \<and> (\<forall>d. fib_lookup fib' d = (if matches [10, 1, 0, 0] 16 d then Some p else None))"
proof -
  obtain fib' w' where u: "fib_route_update ex_world ex_fib AF_INET FIB_TYPE_FORWARD [10, 1, 0, 0] 16 [10, 0, 0, 1] 0 254 = Some (0, fib', w')"
    using ex_fib_update by auto
  have "fib_lookup ex_fib d = None" for d using fib_lookup_find [OF ex_world_fib] by simp
  moreover from fib_route_update_new [OF ex_world_fib _ _ _ _ _ u] obtain p where "p \<notin> wlive ex_world"
      "\<forall>d. fib_lookup fib' d = (if matches [10, 1, 0, 0] 16 d \<and>
         (\<forall>q. fib_lookup ex_fib d = Some q \<longrightarrow> fib_plen ex_world q \<le> 16) then Some p else fib_lookup ex_fib d)"
    by (force simp: fib_klen_def)
  ultimately show ?thesis using u by auto
qed

text \<open>The same table with the route inserted.\<close>

definition ex_route_result :: "int \<times> fib \<times> world" where
  "ex_route_result = the (fib_route_update ex_world ex_fib AF_INET FIB_TYPE_FORWARD [10, 1, 0, 0] 16 [10, 0, 0, 1] 0 254)"

definition ex_fib_one :: fib where "ex_fib_one = fst (snd ex_route_result)"
definition ex_world_one :: world where "ex_world_one = snd (snd ex_route_result)"

lemma ex_fib_one:
  obtains p where "fib_inv ex_world_one ex_fib_one [p]" "fib_is_route ex_world_one 254 16 [10, 1, 0, 0] p"
    "p \<noteq> 4160"
proof -
  have u: "fib_route_update ex_world ex_fib AF_INET FIB_TYPE_FORWARD [10, 1, 0, 0] 16 [10, 0, 0, 1] 0 254 = Some (0, ex_fib_one, ex_world_one)"
    using ex_fib_update by (auto simp: ex_fib_one_def ex_world_one_def ex_route_result_def)
  show thesis
    by (rule fib_update_new [OF ex_world_fib _ _ _ _ _ u])
      (use that ex_world_inv(2) in \<open>auto simp: fib_klen_def fib_is_route_def\<close>)
qed

theorem fib_lookup_longest_prefix_witness:
  "\<exists>p. fib_lookup ex_fib_one [10, 1, 7, 7] = Some p \<and> fib_match ex_world_one [10, 1, 7, 7] p \<and>
     fib_lookup ex_fib_one [10, 2, 7, 7] = None"
proof -
  obtain p where p: "fib_inv ex_world_one ex_fib_one [p]" "fib_is_route ex_world_one 254 16 [10, 1, 0, 0] p" "p \<noteq> 4160"
    by (rule ex_fib_one)
  have b: "pbit [10, 1, 0, 0] i = pbit [10, 1, 7, 7] i" if "i < 16" for i
    using that by (cases "i < 8") (auto simp: pbit_def div_nat_eqI [of 1] nth_Cons')
  have n: "pbit [10, 1, 0, 0] 14 \<noteq> pbit [10, 2, 7, 7] 14" by (simp add: pbit_def)
  have "fib_match ex_world_one [10, 1, 7, 7] p" "\<not> fib_match ex_world_one [10, 2, 7, 7] p"
    using p(2) b n by (auto simp: fib_is_route_def fib_match_def matches_def split: option.splits intro!: exI [of _ 14])
  then show ?thesis
    using fib_lookup_longest_prefix [OF p(1), of "[10, 1, 7, 7]"] fib_lookup_longest_prefix [OF p(1), of "[10, 2, 7, 7]"] by auto
qed

theorem fib_route_update_existing_witness:
  "\<exists>w'. fib_route_update ex_world_one ex_fib_one AF_INET FIB_TYPE_LINK [10, 1, 0, 0] 16 [10, 0, 0, 2] 1 254 = Some (-1, ex_fib_one, w')"
proof -
  obtain p where p: "fib_inv ex_world_one ex_fib_one [p]" "fib_is_route ex_world_one 254 16 [10, 1, 0, 0] p" "p \<noteq> 4160"
    by (rule ex_fib_one)
  from fib_route_update_existing [OF p(1) _ p(2), where family = AF_INET and type = FIB_TYPE_LINK and nexthop = "[10, 0, 0, 2]" and port_index = 1]
  show ?thesis by auto
qed

theorem fib_route_delete_correct_witness:
  "(\<exists>fib' w'. fib_route_delete ex_world_one ex_fib_one AF_INET [10, 1, 0, 0] 16 254 = Some (0, fib', w') \<and> fib_inv w' fib' []) \<and>
   fib_route_delete ex_world ex_fib AF_INET [10, 1, 0, 0] 16 254 = Some (-1, ex_fib, ex_world)"
proof -
  obtain p where p: "fib_inv ex_world_one ex_fib_one [p]" "fib_is_route ex_world_one 254 16 [10, 1, 0, 0] p" "p \<noteq> 4160"
    by (rule ex_fib_one)
  then show ?thesis
    using fib_route_delete_correct [OF p(1), of 16 254 "[10, 1, 0, 0]" AF_INET]
      fib_route_delete_correct [OF ex_world_fib, of 16 254 "[10, 1, 0, 0]" AF_INET] by auto
qed

section \<open>Running out of memory\<close>

text \<open>A memory of 512 bytes with room for two small blocks beside the table.\<close>

definition ex_small_world :: world where
  "ex_small_world = \<lparr>
     wmem = \<lparr>root = MNode (Some (MNode None None True 0 256 4096)) (Some (MNode None None False 1 256 4352))
         True 0 512 4096, headers = [4096 \<mapsto> [False]], numa = \<lambda>_. True, numa_calls = 3\<rparr>,
     nents = Map.empty, fibs = Map.empty, junk = \<lambda>_. replicate 64 0\<rparr>"

lemma ex_small_world_bpath:
  "bpath (root (wmem ex_small_world)) path n \<longleftrightarrow> path = [False] \<and> n = MNode None None True 0 256 4096"
proof (cases path)
  case (Cons i p)
  then show ?thesis by (cases i; cases p) (auto simp: ex_small_world_def bpath_def child_def)
qed (auto simp: ex_small_world_def bpath_def)

lemma ex_small_world_inv: "winv ex_small_world" "wlive ex_small_world = {4160}"
proof -
  have "mwf (root (wmem ex_small_world))" by (simp add: ex_small_world_def)
  then have "mem_inv (wmem ex_small_world)"
    unfolding mem_inv_defs ex_small_world_bpath by (auto simp: ex_small_world_def)
  then show "winv ex_small_world" by (auto simp: winv_def ex_small_world_def)
  show "wlive ex_small_world = {4160}" unfolding wlive_def mem_live_def ex_small_world_bpath by auto
qed

text \<open>
  Memory that runs out in the middle of an insertion.  A route of 15 bits needs chain entries for two nodes
  and there is memory for one: taking the first chain entry out again drops the only reference to the route
  and releases it, then \<open>fib_route_update\<close> releases it again on its error path.  The second release
  follows the path of a node that is gone: the call has no result.
\<close>

lemma fib_route_update_double_free:
  "fib_inv ex_small_world ex_fib [] \<and>
   fib_route_update ex_small_world ex_fib AF_INET FIB_TYPE_FORWARD [10, 0, 0, 0] 15 [10, 0, 0, 1] 0 254 = None"
proof
  show "fib_inv ex_small_world ex_fib []"
    using fib_inv_empty [OF ex_small_world_inv(1), of 4160] by (simp add: ex_small_world_inv(2) ex_fib_self) (simp add: ex_small_world_def)
  show "fib_route_update ex_small_world ex_fib AF_INET FIB_TYPE_FORWARD [10, 0, 0, 0] 15 [10, 0, 0, 1] 0 254 = None"
    by (simp add: ex_small_world_def ex_fib_def fib_eval lpm_rollback_def lpm_entry_delete_def fib_entry_put_def fib_entry_identify_def)
qed

end
