(* ===== verification/Forward.thy ===== *)
theory Forward
  imports Slots Neigh Fib Iftap
begin

text \<open>
  The forwarding of packets, \<open>src/src/forward.c\<close>, over the state of one thread (\<open>src/src/thread.h\<close>): the
  rings and slots of the driver, the memory with the routing and neighbour tables, the TAP queues, the
  bytes of the packet memory and the data written to the TAP interfaces, in order.  An access through a
  pointer to a table entry, or with an index into the arrays of tables, ports, descriptors and slots, that
  is not valid has no result.  The packet memory has a byte at every address: reads and writes of frames
  are not checked.
\<close>

section \<open>The thread\<close>

record ixmapfwd_thread =
  th_plane :: ixmap_plane
  th_buf :: ixmap_buf
  th_mem :: world
  neigh_inet :: "neigh_table list"
  neigh_inet6 :: "neigh_table list"
  fib_inet :: fib
  fib_inet6 :: fib
  th_tun :: tun_plane
  th_index :: int
  num_ports :: u32
  pmem :: "addr \<Rightarrow> u8"
  written :: "(int \<times> u8 list) list"

definition ETH_P_IP :: u16 where "ETH_P_IP = 0x0800"
definition ETH_P_ARP :: u16 where "ETH_P_ARP = 0x0806"
definition ETH_P_IPV6 :: u16 where "ETH_P_IPV6 = 0x86DD"
definition sizeof_ethhdr :: nat where "sizeof_ethhdr = 14"

section \<open>Packet memory\<close>

definition bytes :: "(addr \<Rightarrow> u8) \<Rightarrow> addr \<Rightarrow> nat \<Rightarrow> u8 list" where
  "bytes m a n = map m [a..<a + n]"

definition store :: "addr \<Rightarrow> u8 list \<Rightarrow> (addr \<Rightarrow> u8) \<Rightarrow> addr \<Rightarrow> u8" where
  "store a xs m = (\<lambda>x. if a \<le> x \<and> x < a + length xs then xs ! (x - a) else m x)"

definition bytes16 :: "u16 \<Rightarrow> u8 list" where
  "bytes16 v = [ucast v, ucast (drop_bit 8 v)]"

section \<open>Deciding on one packet\<close>

text \<open>\<open>packet_local\<close>: the packet goes to the TAP interface of the port.\<close>

definition forward_local :: "ixmapfwd_thread \<Rightarrow> nat \<Rightarrow> ixmap_packet \<Rightarrow> (int \<times> ixmapfwd_thread) option" where
  "forward_local th pi packet =
     (if pi < length (tun_ports (th_tun th))
      then Some (-1, th\<lparr>written := written th @
             [(tun_fd (tun_ports (th_tun th) ! pi), bytes (pmem th) (slot_buf packet) (unat (slot_size packet)))]\<rparr>)
      else None)"

definition forward_arp_process :: "ixmapfwd_thread \<Rightarrow> nat \<Rightarrow> ixmap_packet \<Rightarrow> (int \<times> ixmapfwd_thread) option" where
  "forward_arp_process th pi packet = forward_local th pi packet"

definition neigh_at :: "neigh_table list \<Rightarrow> int \<Rightarrow> u8 list \<Rightarrow> addr option option" where
  "neigh_at ts i dst = (if 0 \<le> i \<and> nat i < length ts then neigh_lookup (ts ! nat i) dst else None)"

definition next_hop :: "neigh_table list \<Rightarrow> fib_entry \<Rightarrow> u8 list \<Rightarrow> addr option option" where
  "next_hop ts e daddr =
     (case ftype e of
        FIB_TYPE_LOCAL \<Rightarrow> Some None
      | FIB_TYPE_LINK \<Rightarrow> neigh_at ts (fport_index e) daddr
      | FIB_TYPE_FORWARD \<Rightarrow> neigh_at ts (fport_index e) (fnexthop e))"

text \<open>The Ethernet header of a packet that leaves through the port \<open>i\<close>.\<close>

definition rewrite_eth :: "ixmap_plane \<Rightarrow> int \<Rightarrow> neigh_entry \<Rightarrow> addr \<Rightarrow> (addr \<Rightarrow> u8) \<Rightarrow> (addr \<Rightarrow> u8) option" where
  "rewrite_eth p i ne eth m =
     (if 0 \<le> i \<and> nat i < length (ports p)
      then Some (store (eth + 6) (take ETH_ALEN (ixmap_macaddr p (nat i))) (store eth (take ETH_ALEN (dst_mac ne)) m))
      else None)"

definition ip_check_update :: "u16 \<Rightarrow> u16" where
  "ip_check_update c =
     (let check = ucast c + ucast (ntohs 0x0100) :: u32
      in ucast (check + (if check \<ge> 0xFFFF then 1 else 0)))"

definition forward_ip_process :: "ixmapfwd_thread \<Rightarrow> nat \<Rightarrow> ixmap_packet \<Rightarrow> (int \<times> ixmapfwd_thread) option" where
  "forward_ip_process th pi packet =
     (let eth = slot_buf packet; ip = eth + sizeof_ethhdr; daddr = bytes (pmem th) (ip + 16) 16
      in case fib_lookup (fib_inet th) daddr of
           None \<Rightarrow> Some (-1, th)
         | Some p \<Rightarrow> do {
             e \<leftarrow> fibs (th_mem th) p;
             (if fport_index e < 0 then forward_local th pi packet
              else do {
                r \<leftarrow> next_hop (neigh_inet th) e daddr;
                (case r of
                   None \<Rightarrow> forward_local th pi packet
                 | Some q \<Rightarrow>
                     if pmem th (ip + 8) = 1 then forward_local th pi packet
                     else do {
                       let m1 = store (ip + 8) [pmem th (ip + 8) - 1] (pmem th);
                       let m2 = store (ip + 10) (bytes16 (ip_check_update (load16 (bytes m1 (ip + 10) 2) 0))) m1;
                       ne \<leftarrow> nents (th_mem th) q;
                       m3 \<leftarrow> rewrite_eth (th_plane th) (fport_index e) ne eth m2;
                       Some (fport_index e, th\<lparr>pmem := m3\<rparr>) }) }) })"

definition in6_is_addr_linklocal :: "u8 list \<Rightarrow> bool" where
  "in6_is_addr_linklocal d \<longleftrightarrow> ntohl (load32 d 0) AND 0xFFC00000 = 0xFE800000"

definition forward_ip6_process :: "ixmapfwd_thread \<Rightarrow> nat \<Rightarrow> ixmap_packet \<Rightarrow> (int \<times> ixmapfwd_thread) option" where
  "forward_ip6_process th pi packet =
     (let eth = slot_buf packet; ip6 = eth + sizeof_ethhdr; daddr = bytes (pmem th) (ip6 + 24) 16
      in if in6_is_addr_linklocal daddr then forward_local th pi packet
         else case fib_lookup (fib_inet6 th) daddr of
           None \<Rightarrow> Some (-1, th)
         | Some p \<Rightarrow> do {
             e \<leftarrow> fibs (th_mem th) p;
             (if fport_index e < 0 then forward_local th pi packet
              else do {
                r \<leftarrow> next_hop (neigh_inet6 th) e daddr;
                (case r of
                   None \<Rightarrow> forward_local th pi packet
                 | Some q \<Rightarrow>
                     if pmem th (ip6 + 7) = 1 then forward_local th pi packet
                     else do {
                       let m1 = store (ip6 + 7) [pmem th (ip6 + 7) - 1] (pmem th);
                       ne \<leftarrow> nents (th_mem th) q;
                       m2 \<leftarrow> rewrite_eth (th_plane th) (fport_index e) ne eth m1;
                       Some (fport_index e, th\<lparr>pmem := m2\<rparr>) }) }) })"

section \<open>Forwarding\<close>

definition forward_decide :: "ixmapfwd_thread \<Rightarrow> nat \<Rightarrow> ixmap_packet \<Rightarrow> (int \<times> ixmapfwd_thread) option" where
  "forward_decide th pi packet =
     (let proto = ntohs (load16 (bytes (pmem th) (slot_buf packet + 12) 2) 0)
      in if proto = ETH_P_ARP then forward_arp_process th pi packet
         else if proto = ETH_P_IP then forward_ip_process th pi packet
         else if proto = ETH_P_IPV6 then forward_ip6_process th pi packet
         else Some (-1, th))"

text \<open>
  Whether the accesses of \<open>ixmap_tx_assign\<close> to the arrays of ports, descriptors, slot numbers and DMA addresses
  are in range, and that of \<open>ixmap_slot_release\<close> to the array of slots.
\<close>

definition tx_access :: "ixmap_plane \<Rightarrow> int \<Rightarrow> ixmap_buf \<Rightarrow> ixmap_packet \<Rightarrow> bool" where
  "tx_access p i buf packet \<longleftrightarrow> 0 \<le> i \<and> nat i < length (ports p) \<and>
     (let port = get_port p (nat i); ring = tx_ring port
      in ixmap_desc_unused ring (ucast (num_tx_desc port)) = 0 \<or> slot_size packet > IXGBE_MAX_DATA_PER_TXD \<or>
         unat (next_to_use ring) < length (slot_index ring) \<and> unat (next_to_use ring) < length (descs ring) \<and>
         nat i < length (buf_dma buf))"

definition slot_access :: "ixmap_buf \<Rightarrow> int \<Rightarrow> bool" where
  "slot_access buf si \<longleftrightarrow> 0 \<le> si \<and> nat si < length (slots buf)"

definition forward_packet :: "nat \<Rightarrow> ixmap_packet \<Rightarrow> ixmapfwd_thread \<Rightarrow> ixmapfwd_thread option" where
  "forward_packet pi packet th = do {
     (ret, th1) \<leftarrow> forward_decide th pi packet;
     th2 \<leftarrow> (if ret < 0 then Some th1
             else if tx_access (th_plane th1) ret (th_buf th1) packet
             then case ixmap_tx_assign (th_plane th1) (nat ret) (th_buf th1) packet of
                    (p, b) \<Rightarrow> Some (th1\<lparr>th_plane := p, th_buf := b\<rparr>)
             else None);
     (if slot_access (th_buf th2) (pkt_slot packet)
      then Some (th2\<lparr>th_buf := ixmap_slot_release (th_buf th2) (pkt_slot packet)\<rparr>) else None) }"

definition forward_process :: "ixmapfwd_thread \<Rightarrow> nat \<Rightarrow> ixmap_packet list \<Rightarrow> ixmapfwd_thread option" where
  "forward_process th pi packets = for_each (forward_packet pi) packets th"

definition forward_process_tun :: "ixmapfwd_thread \<Rightarrow> nat \<Rightarrow> u8 list \<Rightarrow> u32 \<Rightarrow> ixmapfwd_thread" where
  "forward_process_tun th pi read_buf read_size =
     (if read_size > ixmap_slot_size (th_buf th) then th
      else case ixmap_slot_assign (th_buf th) (get_port (th_plane th) pi) of
        (si, b, port) \<Rightarrow>
          let th1 = th\<lparr>th_buf := b, th_plane := put_port pi port (th_plane th)\<rparr>
          in if si < 0 then th1
             else let a = ixmap_slot_addr_virt b (word_of_int si);
                      packet = \<lparr>slot_buf = a, slot_size = read_size, pkt_slot = si\<rparr>
                  in case ixmap_tx_assign (th_plane th1) pi (th_buf th1) packet of
                       (p, b') \<Rightarrow> th1\<lparr>pmem := store a (take (unat read_size) read_buf) (pmem th), th_plane := p, th_buf := b'\<rparr>)"

section \<open>Memory\<close>

lemma length_bytes [simp]: "length (bytes m a n) = n"
  by (simp add: bytes_def)

lemma nth_bytes [simp]: "i < n \<Longrightarrow> bytes m a n ! i = m (a + i)"
  by (simp add: bytes_def)

lemma load16_bytes: "load16 (bytes m a 2) 0 = ucast (m a) OR push_bit 8 (ucast (m (a + 1)))"
  by (simp add: load16_def)

lemma unat_load16: "unat (ucast x OR push_bit 8 (ucast y) :: u16) = unat (x :: u8) + 256 * unat (y :: u8)"
proof -
  have "(ucast x OR push_bit 8 (ucast y) :: u16) = ucast x + push_bit 8 (ucast y)"
    by (rule disjunctive_add [symmetric]) (auto simp: bit_simps not_bit_u8)
  moreover have p: "unat (push_bit 8 (ucast y) :: u16) = 256 * unat y"
    by (simp add: push_bit_eq_mult unat_word_ariths unat_ucast_widen)
  have "unat (ucast x + push_bit 8 (ucast y) :: u16) = unat (ucast x :: u16) + unat (push_bit 8 (ucast y) :: u16)"
  proof (rule unat_plus_no_wrap)
    have "unat x < 256" "unat y < 256" by simp_all
    then have "unat x + 256 * unat y < 65536" by linarith
    then show "unat (ucast x :: u16) + unat (push_bit 8 (ucast y) :: u16) < 2 ^ LENGTH(16)"
      by (simp add: p unat_ucast_widen)
  qed
  moreover note p
  ultimately show ?thesis by (simp add: unat_ucast_widen)
qed

lemma bytes16_value:
  "unat (bytes16 v ! 0) + 256 * unat (bytes16 v ! 1) = unat v" "length (bytes16 v) = 2"
proof -
  have "unat (ucast v :: u8) = unat v mod 256" "unat (ucast (drop_bit 8 v) :: u8) = unat v div 256"
    using less_mult_imp_div_less [of "unat v" 256 256] unat_bound_u16 [of v]
    by (simp_all add: unat_ucast_mod unat_drop_bit_eq) (simp add: drop_bit_eq_div)
  then show "unat (bytes16 v ! 0) + 256 * unat (bytes16 v ! 1) = unat v" by (simp add: bytes16_def)
qed (simp add: bytes16_def)

section \<open>The header checksum\<close>

text \<open>
  The Internet checksum: the 16-bit words of the header, in network byte order, are added and the carries
  folded back; a header is valid when the result is \<open>0xFFFF\<close>.
\<close>

fun word_sum :: "u8 list \<Rightarrow> nat" where
  "word_sum (a # b # h) = 256 * unat a + unat b + word_sum h"
| "word_sum [a] = 256 * unat a"
| "word_sum [] = 0"

function fold16 :: "nat \<Rightarrow> nat" where
  "fold16 s = (if s < 65536 then s else fold16 (s div 65536 + s mod 65536))"
  by auto
termination
proof (relation "measure id")
  fix s :: nat
  assume "\<not> s < 65536"
  then have "0 < s div 65536" by simp
  moreover have "65536 * (s div 65536) + s mod 65536 = s" by simp
  ultimately show "(s div 65536 + s mod 65536, s) \<in> measure id" unfolding in_measure id_apply by linarith
qed simp

declare fold16.simps [simp del]

definition checksum_ok :: "u8 list \<Rightarrow> bool" where
  "checksum_ok h \<longleftrightarrow> fold16 (word_sum h) = 0xFFFF"

lemma fold16_mod: "fold16 s mod 65535 = s mod 65535 \<and> fold16 s < 65536 \<and> (fold16 s = 0 \<longleftrightarrow> s = 0)"
proof (induction s rule: fold16.induct)
  case (1 s)
  show ?case
  proof (cases "s < 65536")
    case False
    define k r where "k = s div 65536" and "r = s mod 65536"
    have s: "s = (k + r) + 65535 * k" unfolding k_def r_def by simp
    then have "s mod 65535 = (k + r) mod 65535" by (simp only: mod_mult_self2)
    moreover have "k + r = 0 \<longleftrightarrow> s = 0" using s by auto
    moreover have "fold16 s = fold16 (k + r)" unfolding k_def r_def using False by (subst fold16.simps) (simp only: if_False)
    ultimately show ?thesis using 1 [OF False, folded k_def r_def] by metis
  qed (simp add: fold16.simps)
qed

lemma checksum_ok_iff: "checksum_ok h \<longleftrightarrow> 0 < word_sum h \<and> word_sum h mod 65535 = 0"
proof -
  have "fold16 s = 65535 \<longleftrightarrow> 0 < s \<and> s mod 65535 = 0" for s
  proof -
    have "f = 65535 \<longleftrightarrow> 0 < f \<and> f mod 65535 = 0" if "f < 65536" for f :: nat
    proof (cases "f = 65535")
      case False
      then have "f mod 65535 = f" using that by (intro mod_less) linarith
      then show ?thesis using False by auto
    qed simp
    from this [of "fold16 s"] show ?thesis using fold16_mod [of s] by (metis gr0I less_irrefl)
  qed
  then show ?thesis by (simp add: checksum_ok_def)
qed

lemma word_sum_bytes: "word_sum (bytes m a (2 * n)) = (\<Sum>i<n. 256 * unat (m (a + 2 * i)) + unat (m (a + 2 * i + 1)))"
proof (induction n arbitrary: a)
  case (Suc n)
  have "bytes m a (2 * Suc n) = m a # m (a + 1) # bytes m (a + 2) (2 * n)" by (simp add: bytes_def upt_conv_Cons del: upt_Suc)
  then have "word_sum (bytes m a (2 * Suc n)) = 256 * unat (m a) + unat (m (a + 1)) +
      (\<Sum>i<n. 256 * unat (m (a + 2 * Suc i)) + unat (m (a + 2 * Suc i + 1)))" by (simp add: Suc.IH)
  then show ?case unfolding sum.lessThan_Suc_shift by simp
qed (simp add: bytes_def)

text \<open>The update of the checksum: in the byte order of the machine the value grows by one, modulo \<open>0xFFFF\<close>.\<close>

lemma ip_check_update_mod: "unat (ip_check_update c) mod 65535 = (unat c + 1) mod 65535"
proof -
  have n: "ucast (ntohs 0x0100) = (1 :: u32)" by (simp add: ntohs_def)
  have c: "unat c < 65536" by simp
  have k: "unat (ucast c + 1 :: u32) = unat c + 1" "unat (ucast c + 2 :: u32) = unat c + 2"
    using less_trans [OF c, of 4294967294] unat_plus_no_wrap [of "ucast c :: u32" 1] unat_plus_no_wrap [of "ucast c :: u32" 2]
    by (auto simp: unat_ucast_widen)
  have g: "(0xFFFF :: u32) \<le> ucast c + 1 \<longleftrightarrow> 65535 \<le> unat c + 1" by (simp add: word_le_nat_alt k)
  show ?thesis
  proof (cases "65535 \<le> unat c + 1")
    case True
    then have "ip_check_update c = ucast (ucast c + 2 :: u32)" using g by (simp add: ip_check_update_def n add.commute)
    then have u: "unat (ip_check_update c) = (unat c + 2) mod 65536" by (simp add: unat_ucast_mod k)
    consider "unat c = 65534" | "unat c = 65535" using True c by linarith
    then show ?thesis unfolding u by cases simp_all
  next
    case False
    then have "ip_check_update c = ucast (ucast c + 1 :: u32)" using g by (simp add: ip_check_update_def n)
    then have "unat (ip_check_update c) = unat c + 1" using False by (simp add: unat_ucast_mod k)
    then show ?thesis by simp
  qed
qed

lemma swap_mod: "(256 * x + y) mod 65535 = (256 * (x + 256 * y)) mod (65535 :: nat)"
proof -
  have "256 * (x + 256 * y) = (256 * x + y) + 65535 * y" by simp
  then show ?thesis by (simp only: mod_mult_self2)
qed

lemma unat_dec_u8: "x \<noteq> 0 \<Longrightarrow> unat (x - 1 :: u8) + 1 = unat x"
proof -
  assume "x \<noteq> 0"
  then have "0 < unat x" by (simp add: unat_gt_0)
  then show ?thesis using unat_minus_no_wrap [of 1 x] by (simp add: word_le_nat_alt)
qed

text \<open>Decrementing the time to live and updating the checksum keeps a valid header valid.\<close>

lemma checksum_kept:
  assumes "checksum_ok (bytes m a (2 * n))" "6 \<le> n" "m (a + 8) \<noteq> 0" "m (a + 8) \<noteq> 1"
    "m' (a + 8) = m (a + 8) - 1"
    "m' (a + 10) = bytes16 (ip_check_update (load16 (bytes m (a + 10) 2) 0)) ! 0"
    "m' (a + 11) = bytes16 (ip_check_update (load16 (bytes m (a + 10) 2) 0)) ! 1"
    "\<And>i. i < 2 * n \<Longrightarrow> i \<notin> {8, 10, 11} \<Longrightarrow> m' (a + i) = m (a + i)"
  shows "checksum_ok (bytes m' a (2 * n))"
proof -
  define w where "w f i = 256 * unat (f (a + 2 * i)) + unat (f (a + 2 * i + 1))" for f :: "addr \<Rightarrow> u8" and i
  define rest where "rest f = (\<Sum>i \<in> {..<n} - {4, 5}. w f i)" for f
  have S: "word_sum (bytes f a (2 * n)) = w f 4 + w f 5 + rest f" for f
  proof -
    have "(\<Sum>i<n. w f i) = w f 4 + (w f 5 + (\<Sum>i \<in> {..<n} - {4} - {5}. w f i))"
      using assms(2) by (simp add: sum.remove [of "{..<n}" 4] sum.remove [of "{..<n} - {4}" 5])
    moreover have "{..<n} - {4} - {5} = {..<n} - {4, 5}" by blast
    moreover have "word_sum (bytes f a (2 * n)) = (\<Sum>i<n. w f i)" unfolding word_sum_bytes w_def ..
    ultimately show ?thesis by (simp only: rest_def add.assoc)
  qed
  have "w m' i = w m i" if "i \<in> {..<n} - {4, 5}" for i
    using assms(8) [of "2 * i"] assms(8) [of "2 * i + 1"] that by (auto simp: w_def)
  then have R: "rest m' = rest m" unfolding rest_def by (intro sum.cong refl)
  have 9: "m' (a + 9) = m (a + 9)" using assms(2) by (intro assms(8)) auto
  have W: "w f 4 = 256 * unat (f (a + 8)) + unat (f (a + 9))" "w f 5 = 256 * unat (f (a + 10)) + unat (f (a + 11))" for f
    unfolding w_def by (simp_all add: algebra_simps)
  have 4: "w m' 4 + 256 = w m 4" unfolding W assms(5) 9 using unat_dec_u8 [OF assms(3)] by linarith
  have 5: "w m' 5 mod 65535 = (w m 5 + 256) mod 65535"
  proof -
    let ?c = "load16 (bytes m (a + 10) 2) 0"
    have c: "unat ?c = unat (m (a + 10)) + 256 * unat (m (a + 11))" by (simp add: load16_bytes unat_load16 add.commute)
    have c': "unat (m' (a + 10)) + 256 * unat (m' (a + 11)) = unat (ip_check_update ?c)"
      using bytes16_value(1) [of "ip_check_update ?c"] assms(6,7) by simp
    have "w m' 5 mod 65535 = (256 * unat (ip_check_update ?c)) mod 65535"
      unfolding W c' [symmetric] by (rule swap_mod)
    also have "\<dots> = (256 * (unat ?c + 1)) mod 65535" by (rule mod_mult_cong [OF refl ip_check_update_mod])
    also have "\<dots> = (w m 5 + 256) mod 65535"
      unfolding c W distrib_left [of 256 _ 1] mult_1_right by (rule mod_add_cong [OF swap_mod [symmetric] refl])
    finally show ?thesis .
  qed
  have "(w m' 4 + w m' 5 + rest m') mod 65535 = (w m' 4 + (w m 5 + 256) + rest m') mod 65535"
    by (intro mod_add_cong refl 5)
  also have "\<dots> = (w m 4 + w m 5 + rest m) mod 65535" unfolding R 4 [symmetric] by (simp add: ac_simps)
  finally have "word_sum (bytes m' a (2 * n)) mod 65535 = 0" using assms(1) by (simp add: S checksum_ok_iff)
  moreover have "m (a + 8) - 1 \<noteq> 0" using assms(4) by simp
  then have "0 < unat (m' (a + 8))" using assms(5) by (simp add: unat_gt_0)
  then have "0 < word_sum (bytes m' a (2 * n))" unfolding S W by linarith
  ultimately show ?thesis by (simp add: checksum_ok_iff)
qed

section \<open>What is to happen with a packet\<close>

text \<open>
  The decision in terms of the list of routes and of the maps from addresses to link addresses: a packet
  without a route is dropped; it goes to the TAP interface when its route is local or has no port, when
  the link address of the next hop is not known, or when it may not travel further; otherwise it leaves
  through the port of the route.
\<close>

datatype verdict = Drop | To_Tap | Via int "u8 list"

definition verdict :: "int \<Rightarrow> world \<Rightarrow> neigh_table list \<Rightarrow> addr list \<Rightarrow> u8 list \<Rightarrow> u8 \<Rightarrow> verdict" where
  "verdict family w ts rts d hops =
     (case Option.bind (find (fib_match w d) rts) (fibs w) of
        None \<Rightarrow> Drop
      | Some e \<Rightarrow>
          if fport_index e < 0 \<or> ftype e = FIB_TYPE_LOCAL then To_Tap
          else case neigh_map family w (ts ! nat (fport_index e))
                 (neigh_view family (if ftype e = FIB_TYPE_LINK then d else fnexthop e)) of
            None \<Rightarrow> To_Tap
          | Some mac \<Rightarrow> if hops = 1 then To_Tap else Via (fport_index e) mac)"

definition to_tap :: "ixmapfwd_thread \<Rightarrow> nat \<Rightarrow> ixmap_packet \<Rightarrow> ixmapfwd_thread" where
  "to_tap th pi packet = th\<lparr>written := written th @
     [(tun_fd (tun_ports (th_tun th) ! pi), bytes (pmem th) (slot_buf packet) (unat (slot_size packet)))]\<rparr>"

text \<open>The tables of one address family, and the lengths of the link addresses.\<close>

definition fwd_ok :: "int \<Rightarrow> ixmapfwd_thread \<Rightarrow> fib \<Rightarrow> neigh_table list \<Rightarrow> addr list \<Rightarrow> bool" where
  "fwd_ok family th fib ts rts \<longleftrightarrow> fib_inv (th_mem th) fib rts \<and> (\<forall>t \<in> set ts. neigh_inv family (th_mem th) t) \<and>
     (\<forall>p \<in> set rts. \<forall>e. fibs (th_mem th) p = Some e \<and> 0 \<le> fport_index e \<longrightarrow>
        nat (fport_index e) < length ts \<and> nat (fport_index e) < length (ports (th_plane th))) \<and>
     (\<forall>a ne. nents (th_mem th) a = Some ne \<longrightarrow> length (dst_mac ne) = 6) \<and>
     (\<forall>port \<in> set (ports (th_plane th)). length (mac_addr port) = 6)"

lemma forward_local_eq: "pi < length (tun_ports (th_tun th)) \<Longrightarrow> forward_local th pi packet = Some (-1, to_tap th pi packet)"
  by (simp add: forward_local_def to_tap_def)

text \<open>The route and the neighbour entry that the verdict stands for.\<close>

lemma verdict_cases:
  assumes "fwd_ok family th fib ts rts"
  obtains (drop) "fib_lookup fib d = None" "verdict family (th_mem th) ts rts d hops = Drop"
  | (no_port) p e where "fib_lookup fib d = Some p" "fibs (th_mem th) p = Some e" "fport_index e < 0"
      "verdict family (th_mem th) ts rts d hops = To_Tap"
  | (no_neigh) p e where "fib_lookup fib d = Some p" "fibs (th_mem th) p = Some e" "\<not> fport_index e < 0"
      "next_hop ts e d = Some None" "verdict family (th_mem th) ts rts d hops = To_Tap"
  | (neigh) p e q ne where "fib_lookup fib d = Some p" "fibs (th_mem th) p = Some e" "\<not> fport_index e < 0"
      "next_hop ts e d = Some (Some q)" "nents (th_mem th) q = Some ne" "nat (fport_index e) < length (ports (th_plane th))"
      "verdict family (th_mem th) ts rts d hops = (if hops = 1 then To_Tap else Via (fport_index e) (dst_mac ne))"
proof -
  let ?w = "th_mem th"
  have inv: "fib_inv ?w fib rts" using assms by (simp add: fwd_ok_def)
  note l = fib_lookup_find [OF inv, of d]
  show thesis
  proof (cases "find (fib_match ?w d) rts")
    case None
    then show thesis using drop l by (simp add: verdict_def)
  next
    case (Some p)
    then have p: "p \<in> set rts" "fib_match ?w d p" by (auto dest: find_SomeD)
    then obtain e where e: "fibs ?w p = Some e" by (auto simp: fib_match_def split: option.splits)
    have lp: "fib_lookup fib d = Some p" using l Some by simp
    show thesis
    proof (cases "fport_index e < 0")
      case True
      then show thesis using no_port [OF lp e] Some e by (simp add: verdict_def)
    next
      case False
      let ?i = "nat (fport_index e)"
      let ?key = "if ftype e = FIB_TYPE_LINK then d else fnexthop e"
      have i: "?i < length ts" "?i < length (ports (th_plane th))" using assms p(1) e False by (auto simp: fwd_ok_def)
      then have n: "neigh_inv family ?w (ts ! ?i)" using assms by (simp add: fwd_ok_def)
      let ?r = "hmap (neigh_view family) (table (ts ! ?i)) (neigh_view family ?key)"
      have nh: "next_hop ts e d = (if ftype e = FIB_TYPE_LOCAL then Some None else Some ?r)"
        using i(1) False neigh_lookup_hmap [OF n] by (cases "ftype e") (auto simp: next_hop_def neigh_at_def)
      show thesis
      proof (cases "ftype e = FIB_TYPE_LOCAL \<or> ?r = None")
        case True
        then have "next_hop ts e d = Some None" using nh by auto
        then show thesis using no_neigh [OF lp e False] True Some e by (auto simp: verdict_def neigh_map_def)
      next
        case no: False
        then obtain q where q: "?r = Some q" by blast
        from neigh_hit [OF n q] obtain ne where ne: "nents ?w q = Some ne"
            "neigh_map family ?w (ts ! ?i) (neigh_view family ?key) = Some (dst_mac ne)"
          by blast
        have "verdict family ?w ts rts d hops = (if hops = 1 then To_Tap else Via (fport_index e) (dst_mac ne))"
          using Some e False no ne(2) by (simp add: verdict_def)
        then show thesis using neigh [OF lp e False _ ne(1) i(2)] nh q no by simp
      qed
    qed
  qed
qed

text \<open>The memory of a packet that leaves: the addresses of the Ethernet header, and nothing else.\<close>

lemma rewrite_eth_eq:
  assumes "i < length (ports p)" "length (dst_mac ne) = 6" "length (ixmap_macaddr p i) = 6"
  shows "\<exists>m'. rewrite_eth p (int i) ne eth m = Some m' \<and> bytes m' eth 6 = dst_mac ne \<and>
    bytes m' (eth + 6) 6 = ixmap_macaddr p i \<and> (\<forall>x. x \<notin> {eth..<eth + 12} \<longrightarrow> m' x = m x)"
  using assms by (auto simp: rewrite_eth_def store_def ETH_ALEN_def intro!: nth_equalityI)

lemma fwd_macs:
  assumes "fwd_ok family th fib ts rts" "nents (th_mem th) q = Some ne" "i < length (ports (th_plane th))"
  shows "length (dst_mac ne) = 6" "length (ixmap_macaddr (th_plane th) i) = 6"
  using assms by (auto simp: fwd_ok_def ixmap_macaddr_def get_port_def)

text \<open>A packet of version 4 with a route, a neighbour entry and a time to live other than 1 leaves.\<close>

lemma forward_ip_sent:
  fixes th packet
  defines "eth \<equiv> slot_buf packet" and "m \<equiv> pmem th"
  assumes "fwd_ok AF_INET th (fib_inet th) (neigh_inet th) rts" "fib_lookup (fib_inet th) (bytes m (eth + 30) 16) = Some p"
    "fibs (th_mem th) p = Some e" "\<not> fport_index e < 0" "next_hop (neigh_inet th) e (bytes m (eth + 30) 16) = Some (Some q)"
    "nents (th_mem th) q = Some ne" "nat (fport_index e) < length (ports (th_plane th))" "m (eth + 22) \<noteq> 1"
  shows "\<exists>m'. forward_ip_process th pi packet = Some (fport_index e, th\<lparr>pmem := m'\<rparr>) \<and>
    bytes m' eth 6 = dst_mac ne \<and> bytes m' (eth + 6) 6 = ixmap_macaddr (th_plane th) (nat (fport_index e)) \<and>
    m' (eth + 22) = m (eth + 22) - 1 \<and>
    (\<forall>n \<ge> 6. m (eth + 22) \<noteq> 0 \<and> checksum_ok (bytes m (eth + 14) (2 * n)) \<longrightarrow> checksum_ok (bytes m' (eth + 14) (2 * n))) \<and>
    (\<forall>x. x \<notin> {eth..<eth + 12} \<union> {eth + 22, eth + 24, eth + 25} \<longrightarrow> m' x = m x)"
proof -
  note F = forward_ip_process_def [of th pi packet, folded eth_def m_def, unfolded sizeof_ethhdr_def Let_def]
  have a: "eth + 14 + 16 = eth + 30" "eth + 14 + 8 = eth + 22" "eth + 14 + 10 = eth + 24" by simp_all
  define m1 where "m1 = store (eth + 22) [m (eth + 22) - 1] m"
  define c where "c = bytes16 (ip_check_update (load16 (bytes m1 (eth + 24) 2) 0))"
  define m2 where "m2 = store (eth + 24) c m1"
  obtain m3 where m3: "rewrite_eth (th_plane th) (fport_index e) ne eth m2 = Some m3" "bytes m3 eth 6 = dst_mac ne"
      "bytes m3 (eth + 6) 6 = ixmap_macaddr (th_plane th) (nat (fport_index e))" "\<And>x. x \<notin> {eth..<eth + 12} \<Longrightarrow> m3 x = m2 x"
    using rewrite_eth_eq [OF assms(9) fwd_macs [OF assms(3,8,9)], of eth m2] assms(6) by auto
  have lc: "length c = 2" by (simp add: c_def bytes16_value(2))
  have m2: "m2 (eth + 22) = m (eth + 22) - 1" "m2 (eth + 24) = c ! 0" "m2 (eth + 25) = c ! 1"
      "\<And>x. x \<notin> {eth + 22, eth + 24, eth + 25} \<Longrightarrow> m2 x = m x"
    using lc by (auto simp: m2_def m1_def store_def)
  have c: "c = bytes16 (ip_check_update (load16 (bytes m (eth + 14 + 10) 2) 0))"
    unfolding c_def load16_bytes m1_def a by (simp add: store_def)
  have "checksum_ok (bytes m3 (eth + 14) (2 * n))" if "6 \<le> n" "m (eth + 22) \<noteq> 0" "checksum_ok (bytes m (eth + 14) (2 * n))" for n
    using that(3,1)
  proof (rule checksum_kept)
    show "m3 (eth + 14 + i) = m (eth + 14 + i)" if "i \<notin> {8, 10, 11}" for i
      using that m2(4) [of "eth + 14 + i"] m3(4) [of "eth + 14 + i"] by auto
  qed (use that(2) assms(10) m2 m3(4) c in \<open>simp_all add: add.assoc\<close>)
  moreover have "forward_ip_process th pi packet = Some (fport_index e, th\<lparr>pmem := m3\<rparr>)"
    using assms(4-10) m3(1) unfolding F a by (simp add: m1_def [symmetric] c_def [symmetric] m2_def [symmetric])
  ultimately show ?thesis using m2 m3(2-4) by auto
qed

section \<open>Whole batches\<close>

text \<open>What deciding on a packet may change, and the ports it may choose.\<close>

definition fwd_frame :: "ixmapfwd_thread \<Rightarrow> int \<times> ixmapfwd_thread \<Rightarrow> bool" where
  "fwd_frame th r \<longleftrightarrow> (\<exists>m ws. snd r = th\<lparr>pmem := m, written := written th @ ws\<rparr>) \<and>
     (fst r < 0 \<or> nat (fst r) < length (ports (th_plane th)))"

lemma fwd_frameI:
  "th' = th\<lparr>pmem := m, written := written th @ ws\<rparr> \<Longrightarrow> r < 0 \<or> nat r < length (ports (th_plane th)) \<Longrightarrow> fwd_frame th (r, th')"
  unfolding fwd_frame_def by auto

lemma fwd_frame_same: "fwd_frame th (-1, th)" "fwd_frame th (-1, to_tap th pi packet)"
  by (rule fwd_frameI [where m = "pmem th" and ws = "[]"]; simp)
    (rule fwd_frameI [where m = "pmem th" and ws = "[(tun_fd (tun_ports (th_tun th) ! pi),
       bytes (pmem th) (slot_buf packet) (unat (slot_size packet)))]"]; simp add: to_tap_def)

lemma fwd_frame_sent:
  assumes "nat i < length (ports (th_plane th))"
  shows "fwd_frame th (i, th\<lparr>pmem := m\<rparr>)"
  by (rule fwd_frameI [where m = m and ws = "[]"]) (use assms in simp_all)

lemma rewrite_eth_Some: "0 \<le> i \<Longrightarrow> nat i < length (ports p) \<Longrightarrow> \<exists>m'. rewrite_eth p i ne eth m = Some m'"
  by (simp add: rewrite_eth_def)

lemma forward_ip_frame:
  assumes "fwd_ok AF_INET th (fib_inet th) (neigh_inet th) rts" "pi < length (tun_ports (th_tun th))"
  shows "\<exists>r. forward_ip_process th pi packet = Some r \<and> fwd_frame th r"
  using assms(1)
proof (cases rule: verdict_cases [where d = "bytes (pmem th) (slot_buf packet + sizeof_ethhdr + 16) 16" and hops = 0])
  case (neigh p e q ne)
  let ?ip = "slot_buf packet + sizeof_ethhdr"
  let ?m1 = "store (?ip + 8) [pmem th (?ip + 8) - 1] (pmem th)"
  let ?m2 = "store (?ip + 10) (bytes16 (ip_check_update (load16 (bytes ?m1 (?ip + 10) 2) 0))) ?m1"
  obtain m3 where m3: "rewrite_eth (th_plane th) (fport_index e) ne (slot_buf packet) ?m2 = Some m3"
    using rewrite_eth_Some [OF _ neigh(6)] neigh(3) by (meson not_less)
  show ?thesis
    using neigh m3 fwd_frame_sent [OF neigh(6), of m3] forward_local_eq [OF assms(2), of packet] fwd_frame_same(2) [of th pi packet]
    by (auto simp: forward_ip_process_def Let_def)
qed (use forward_local_eq [OF assms(2), of packet] fwd_frame_same [of th] in \<open>auto simp: forward_ip_process_def Let_def\<close>)

lemma forward_ip6_frame:
  assumes "fwd_ok AF_INET6 th (fib_inet6 th) (neigh_inet6 th) rts" "pi < length (tun_ports (th_tun th))"
  shows "\<exists>r. forward_ip6_process th pi packet = Some r \<and> fwd_frame th r"
proof (cases "in6_is_addr_linklocal (bytes (pmem th) (slot_buf packet + sizeof_ethhdr + 24) 16)")
  case True
  then show ?thesis
    using forward_local_eq [OF assms(2), of packet] fwd_frame_same [of th] by (auto simp: forward_ip6_process_def Let_def)
next
  case l: False
  from assms(1) show ?thesis
  proof (cases rule: verdict_cases [where d = "bytes (pmem th) (slot_buf packet + sizeof_ethhdr + 24) 16" and hops = 0])
    case (neigh p e q ne)
    let ?ip = "slot_buf packet + sizeof_ethhdr"
    obtain m2 where m2: "rewrite_eth (th_plane th) (fport_index e) ne (slot_buf packet)
        (store (?ip + 7) [pmem th (?ip + 7) - 1] (pmem th)) = Some m2"
      using rewrite_eth_Some [OF _ neigh(6)] neigh(3) by (meson not_less)
    show ?thesis
      using l neigh m2 fwd_frame_sent [OF neigh(6), of m2] forward_local_eq [OF assms(2), of packet] fwd_frame_same(2) [of th pi packet]
      by (auto simp: forward_ip6_process_def Let_def)
  qed (use l forward_local_eq [OF assms(2), of packet] fwd_frame_same [of th] in \<open>auto simp: forward_ip6_process_def Let_def\<close>)
qed

definition fwd_inv :: "ixmapfwd_thread \<Rightarrow> bool" where
  "fwd_inv th \<longleftrightarrow> (\<exists>rts. fwd_ok AF_INET th (fib_inet th) (neigh_inet th) rts) \<and>
     (\<exists>rts. fwd_ok AF_INET6 th (fib_inet6 th) (neigh_inet6 th) rts)"

lemma forward_decide_frame:
  assumes "fwd_inv th" "pi < length (tun_ports (th_tun th))"
  shows "\<exists>r. forward_decide th pi packet = Some r \<and> fwd_frame th r"
  using assms(1) forward_ip_frame [OF _ assms(2)] forward_ip6_frame [OF _ assms(2)] forward_local_eq [OF assms(2), of packet]
    fwd_frame_same [of th]
  by (auto simp: forward_decide_def forward_arp_process_def fwd_inv_def Let_def)

text \<open>Handing a packet to a transmit ring changes rings and counters, but not what identifies the ports.\<close>

lemma tx_assign_ports:
  assumes "ixmap_tx_assign p i b packet = (p', b')"
  shows "map mac_addr (ports p') = map mac_addr (ports p)"
proof -
  have "map mac_addr (ports (put_port i port p)) = map mac_addr (ports p)" if "i < length (ports p) \<Longrightarrow> mac_addr port = mac_addr (ports p ! i)" for port
    by (rule nth_equalityI; cases "i < length (ports p)") (use that in \<open>auto simp: put_port_def nth_list_update\<close>)
  then show ?thesis using assms by (auto simp: ixmap_tx_assign_def get_port_def Let_def split: if_splits)
qed

lemma fwd_ok_cong:
  assumes "fwd_ok family th fib ts rts" "th_mem th' = th_mem th" "map mac_addr (ports (th_plane th')) = map mac_addr (ports (th_plane th))"
  shows "fwd_ok family th' fib ts rts"
proof -
  have l: "length (ports (th_plane th')) = length (ports (th_plane th))" using assms(3) by (metis length_map)
  have "(\<forall>port \<in> set (ports p). length (mac_addr port) = 6) \<longleftrightarrow> (\<forall>x \<in> set (map mac_addr (ports p)). length x = 6)" for p
    by simp
  from this [of "th_plane th'"] this [of "th_plane th"]
  have "(\<forall>port \<in> set (ports (th_plane th')). length (mac_addr port) = 6) \<longleftrightarrow> (\<forall>port \<in> set (ports (th_plane th)). length (mac_addr port) = 6)"
    unfolding assms(3) by (rule trans [OF _ sym])
  then show ?thesis using assms(1) unfolding fwd_ok_def assms(2) l by blast
qed

text \<open>Well-formed rings, and a DMA address of the buffers for each port.\<close>

definition rings_ok :: "ixmapfwd_thread \<Rightarrow> bool" where
  "rings_ok th \<longleftrightarrow> (\<forall>port \<in> set (ports (th_plane th)). port_wf port) \<and> length (ports (th_plane th)) \<le> length (buf_dma (th_buf th))"

lemma tx_access_ok: "rings_ok th \<Longrightarrow> 0 \<le> i \<Longrightarrow> nat i < length (ports (th_plane th)) \<Longrightarrow> tx_access (th_plane th) i (th_buf th) packet"
  by (auto simp: tx_access_def rings_ok_def port_wf_def ring_wf_def get_port_def Let_def)

lemma slot_release_twice: "ixmap_slot_release (ixmap_slot_release b si) si = ixmap_slot_release b si"
  by (simp add: ixmap_slot_release_def)

lemma tx_assign_rings:
  assumes "rings_ok th" "i < length (ports (th_plane th))" "ixmap_tx_assign (th_plane th) i (th_buf th) packet = (p, b)"
  shows "\<forall>port \<in> set (ports p). port_wf port" "ixmap_slot_release b (pkt_slot packet) = ixmap_slot_release (th_buf th) (pkt_slot packet)"
proof -
  let ?port = "get_port (th_plane th) i"
  have wf: "port_wf ?port" using assms(1,2) by (simp add: rings_ok_def get_port_def)
  then have ring: "ring_wf (unat (num_tx_desc ?port)) (tx_ring ?port)" by (simp add: port_wf_def)
  have put: "\<forall>port \<in> set (ports (put_port i q (th_plane th))). port_wf port" if "port_wf q" for q
    using assms(1) that set_update_subset_insert [of "ports (th_plane th)" i q] by (auto simp: put_port_def rings_ok_def)
  show "\<forall>port \<in> set (ports p). port_wf port"
  proof (cases "length (tx_queue ?port) + 1 < unat (num_tx_desc ?port) \<and> slot_size packet \<le> IXGBE_MAX_DATA_PER_TXD")
    case True
    have e: "p = put_port i (?port\<lparr>tx_ring := ring_push (num_tx_desc ?port) (pkt_slot packet) (tx_desc_of (th_buf th) i packet) (tx_ring ?port),
        tx_suspended := tx_suspended ?port + 1\<rparr>) (th_plane th)"
      using assms(3) unfolding ixmap_tx_assign_eq [OF refl wf] if_P [OF True] prod.inject by (rule conjE) (rule sym)
    show ?thesis unfolding e using ring_push_wf [OF ring] wf by (intro put) (simp add: port_wf_def)
  next
    case False
    have e: "p = put_port i (?port\<lparr>count_tx_xmit_failed := count_tx_xmit_failed ?port + 1\<rparr>) (th_plane th)"
      using assms(3) unfolding ixmap_tx_assign_eq [OF refl wf] if_not_P [OF False] by simp
    show ?thesis unfolding e using wf by (intro put) (simp add: port_wf_def)
  qed
  show "ixmap_slot_release b (pkt_slot packet) = ixmap_slot_release (th_buf th) (pkt_slot packet)"
    using assms(3) unfolding ixmap_tx_assign_eq [OF refl wf] by (auto simp: slot_release_twice split: if_splits)
qed

definition released :: "ixmap_packet list \<Rightarrow> ixmap_buf \<Rightarrow> ixmap_buf" where
  "released packets buf = fold (\<lambda>packet b. ixmap_slot_release b (pkt_slot packet)) packets buf"

lemma forward_packet_ok:
  assumes "fwd_inv th" "rings_ok th" "pi < length (tun_ports (th_tun th))" "slot_access (th_buf th) (pkt_slot packet)"
  shows "\<exists>th'. forward_packet pi packet th = Some th' \<and> fwd_inv th' \<and> rings_ok th' \<and> th_mem th' = th_mem th \<and> th_tun th' = th_tun th \<and>
    fib_inet th' = fib_inet th \<and> fib_inet6 th' = fib_inet6 th \<and> neigh_inet th' = neigh_inet th \<and>
    neigh_inet6 th' = neigh_inet6 th \<and> th_buf th' = ixmap_slot_release (th_buf th) (pkt_slot packet)"
proof -
  obtain r th1 where d: "forward_decide th pi packet = Some (r, th1)" "fwd_frame th (r, th1)"
    using forward_decide_frame [OF assms(1,3), of packet] by force
  then obtain m ws where th1: "th1 = th\<lparr>pmem := m, written := written th @ ws\<rparr>" and r: "r < 0 \<or> nat r < length (ports (th_plane th))"
    by (auto simp: fwd_frame_def)
  obtain p b where t: "ixmap_tx_assign (th_plane th) (nat r) (th_buf th) packet = (p, b)" by fastforce
  define p' where "p' = (if r < 0 then th_plane th else p)"
  define b' where "b' = (if r < 0 then th_buf th else b)"
  let ?th' = "th1\<lparr>th_plane := p', th_buf := ixmap_slot_release b' (pkt_slot packet)\<rparr>"
  have mp: "map mac_addr (ports p') = map mac_addr (ports (th_plane th))" using tx_assign_ports [OF t] by (simp add: p'_def)
  have rel: "ixmap_slot_release b' (pkt_slot packet) = ixmap_slot_release (th_buf th) (pkt_slot packet)"
    using r tx_assign_rings(2) [OF assms(2) _ t] by (auto simp: b'_def)
  then have len: "length (slots b') = length (slots (th_buf th))"
    by (metis length_list_update ixmap_slot_release_def ixmap_buf.select_convs(5) ixmap_buf.surjective ixmap_buf.update_convs(5))
  have f: "forward_packet pi packet th = Some ?th'"
    using d(1) t r assms(4) len tx_access_ok [OF assms(2), of r packet]
    by (cases "r < 0") (simp_all add: forward_packet_def p'_def b'_def slot_access_def th1)
  have e: "th_mem ?th' = th_mem th" "fib_inet ?th' = fib_inet th" "fib_inet6 ?th' = fib_inet6 th" "neigh_inet ?th' = neigh_inet th"
      "neigh_inet6 ?th' = neigh_inet6 th" "map mac_addr (ports (th_plane ?th')) = map mac_addr (ports (th_plane th))"
    using mp by (simp_all add: th1)
  have "fwd_inv ?th'"
    using assms(1) fwd_ok_cong [OF _ e(1,6)] unfolding fwd_inv_def e(2-5) by blast
  moreover have "\<forall>port \<in> set (ports p'). port_wf port"
    using r assms(2) tx_assign_rings(1) [OF assms(2) _ t] by (auto simp: p'_def rings_ok_def)
  then have "rings_ok ?th'"
    using assms(2) arg_cong [OF mp, of length] by (simp add: rings_ok_def rel) (simp add: ixmap_slot_release_def)
  ultimately show ?thesis using f rel by (auto simp: th1)
qed

section \<open>Properties\<close>

text \<open>
  C26.  \<open>forward_ip_process\<close> decides as the longest matching route and the neighbour map say.  A packet
  that leaves gets the link address of the next hop as destination and that of the port as source, its
  time to live is one less (255 for a packet that came with 0), and no other byte of the memory changes
  than these and the checksum.  The checksum is updated so that a valid header stays valid provided that
  the time to live was not 0; nothing is claimed of the checksum of a packet that came with 0.
\<close>

theorem forward_ip_process_correct:
  fixes th packet
  defines "eth \<equiv> slot_buf packet" and "m \<equiv> pmem th"
  assumes "fwd_ok AF_INET th (fib_inet th) (neigh_inet th) rts" "pi < length (tun_ports (th_tun th))"
  shows "case verdict AF_INET (th_mem th) (neigh_inet th) rts (bytes m (eth + 30) 16) (m (eth + 22)) of
      Drop \<Rightarrow> forward_ip_process th pi packet = Some (-1, th)
    | To_Tap \<Rightarrow> forward_ip_process th pi packet = Some (-1, to_tap th pi packet)
    | Via i mac \<Rightarrow> \<exists>m'. forward_ip_process th pi packet = Some (i, th\<lparr>pmem := m'\<rparr>) \<and>
        bytes m' eth 6 = mac \<and> bytes m' (eth + 6) 6 = ixmap_macaddr (th_plane th) (nat i) \<and>
        m' (eth + 22) = m (eth + 22) - 1 \<and>
        (\<forall>n \<ge> 6. m (eth + 22) \<noteq> 0 \<and> checksum_ok (bytes m (eth + 14) (2 * n)) \<longrightarrow>
          checksum_ok (bytes m' (eth + 14) (2 * n))) \<and>
        (\<forall>x. x \<notin> {eth..<eth + 12} \<union> {eth + 22, eth + 24, eth + 25} \<longrightarrow> m' x = m x)"
proof -
  note loc = forward_local_eq [OF assms(4), of packet]
  note F = forward_ip_process_def [of th pi packet, folded eth_def m_def, unfolded sizeof_ethhdr_def Let_def]
  have a: "eth + 14 + 16 = eth + 30" "eth + 14 + 8 = eth + 22" by simp_all
  from assms(3) show ?thesis
  proof (cases rule: verdict_cases [where d = "bytes m (eth + 30) 16" and hops = "m (eth + 22)"])
    case (neigh p e q ne)
    then show ?thesis
      using loc forward_ip_sent [OF assms(3) neigh(1-6) [unfolded eth_def m_def], of pi] unfolding F a
      by (cases "m (eth + 22) = 1") (simp_all add: eth_def m_def)
  qed (use loc in \<open>simp_all add: F a\<close>)
qed

text \<open>
  C27.  The same for \<open>forward_ip6_process\<close>: a packet for a link-local address goes to the TAP interface, any
  other as the longest matching route and the neighbour map say; one that leaves has its hop limit
  decremented and its Ethernet header rewritten, and no other byte changes.
\<close>

theorem forward_ip6_process_correct:
  fixes th packet
  defines "eth \<equiv> slot_buf packet" and "m \<equiv> pmem th"
  assumes "fwd_ok AF_INET6 th (fib_inet6 th) (neigh_inet6 th) rts" "pi < length (tun_ports (th_tun th))"
  shows "case (if in6_is_addr_linklocal (bytes m (eth + 38) 16) then To_Tap
        else verdict AF_INET6 (th_mem th) (neigh_inet6 th) rts (bytes m (eth + 38) 16) (m (eth + 21))) of
      Drop \<Rightarrow> forward_ip6_process th pi packet = Some (-1, th)
    | To_Tap \<Rightarrow> forward_ip6_process th pi packet = Some (-1, to_tap th pi packet)
    | Via i mac \<Rightarrow> \<exists>m'. forward_ip6_process th pi packet = Some (i, th\<lparr>pmem := m'\<rparr>) \<and>
        bytes m' eth 6 = mac \<and> bytes m' (eth + 6) 6 = ixmap_macaddr (th_plane th) (nat i) \<and>
        m' (eth + 21) = m (eth + 21) - 1 \<and> (\<forall>x. x \<notin> {eth..<eth + 12} \<union> {eth + 21} \<longrightarrow> m' x = m x)"
proof (cases "in6_is_addr_linklocal (bytes m (eth + 38) 16)")
  case True
  then show ?thesis
    using forward_local_eq [OF assms(4), of packet] by (simp add: forward_ip6_process_def eth_def m_def sizeof_ethhdr_def Let_def add.commute)
next
  case l: False
  note loc = forward_local_eq [OF assms(4), of packet]
  note F = forward_ip6_process_def [of th pi packet, folded eth_def m_def, unfolded sizeof_ethhdr_def Let_def]
  have a: "eth + 14 + 24 = eth + 38" "eth + 14 + 7 = eth + 21" by simp_all
  from assms(3) show ?thesis
  proof (cases rule: verdict_cases [where d = "bytes m (eth + 38) 16" and hops = "m (eth + 21)"])
    case (neigh p e q ne)
    show ?thesis
    proof (cases "m (eth + 21) = 1")
      case True
      then show ?thesis using l neigh loc unfolding F a by simp
    next
      case False
      define m1 where "m1 = store (eth + 21) [m (eth + 21) - 1] m"
      obtain m2 where m2: "rewrite_eth (th_plane th) (fport_index e) ne eth m1 = Some m2" "bytes m2 eth 6 = dst_mac ne"
          "bytes m2 (eth + 6) 6 = ixmap_macaddr (th_plane th) (nat (fport_index e))" "\<And>x. x \<notin> {eth..<eth + 12} \<Longrightarrow> m2 x = m1 x"
        using rewrite_eth_eq [OF neigh(6) fwd_macs [OF assms(3) neigh(5,6)], of eth m1] neigh(3) by auto
      have m1: "m1 (eth + 21) = m (eth + 21) - 1" "\<And>x. x \<noteq> eth + 21 \<Longrightarrow> m1 x = m x"
        by (auto simp: m1_def store_def)
      have "forward_ip6_process th pi packet = Some (fport_index e, th\<lparr>pmem := m2\<rparr>)"
        using l neigh False m2(1) unfolding F a by (simp add: m1_def [symmetric])
      then show ?thesis using l neigh(7) False m1 m2(2-4) by auto
    qed
  qed (use l loc in \<open>simp_all add: F a\<close>)
qed

text \<open>
  C28.  With well-formed tables and rings, \<open>forward_process\<close> returns for every batch of packets whose slots are
  in range, whatever their bytes: no lookup follows an invalid pointer, every index of a table, of a port
  that a packet leaves through, of a descriptor and of a slot is in range.  The tables and the rings are
  well formed again, the tables, which the packets only consult, are unchanged, and among the slots exactly
  those of the packets are released.
\<close>

theorem forward_process_total:
  assumes "fwd_inv th" "rings_ok th" "pi < length (tun_ports (th_tun th))"
    "\<forall>packet \<in> set packets. slot_access (th_buf th) (pkt_slot packet)"
  shows "\<exists>th'. forward_process th pi packets = Some th' \<and> fwd_inv th' \<and> rings_ok th' \<and> th_mem th' = th_mem th \<and>
    fib_inet th' = fib_inet th \<and> fib_inet6 th' = fib_inet6 th \<and> neigh_inet th' = neigh_inet th \<and> neigh_inet6 th' = neigh_inet6 th \<and>
    th_buf th' = released packets (th_buf th)"
  unfolding forward_process_def using assms
proof (induction packets arbitrary: th)
  case (Cons packet packets)
  obtain th1 where 1: "forward_packet pi packet th = Some th1" "fwd_inv th1" "rings_ok th1" "th_mem th1 = th_mem th" "th_tun th1 = th_tun th"
      "fib_inet th1 = fib_inet th" "fib_inet6 th1 = fib_inet6 th" "neigh_inet th1 = neigh_inet th" "neigh_inet6 th1 = neigh_inet6 th"
      "th_buf th1 = ixmap_slot_release (th_buf th) (pkt_slot packet)"
    using forward_packet_ok [OF Cons.prems(1-3), of packet] Cons.prems(4) by auto
  have "\<forall>packet \<in> set packets. slot_access (th_buf th1) (pkt_slot packet)"
    using Cons.prems(4) by (simp add: 1(10) slot_access_def ixmap_slot_release_def)
  then show ?case using Cons.IH [of th1] 1 Cons.prems(3) by (auto simp: released_def)
qed (auto simp: released_def)

text \<open>
  C29.  A packet that is forwarded has its slot marked free as soon as it is on the transmit ring, before
  the card has sent it: \<open>forward_process\<close> goes on to the label that drops a packet also after
  \<open>ixmap_tx_assign\<close> has taken the slot over.  From then on no assignment of slots to owners satisfies
  the invariant of the driver, so that the slot can be given to a second packet.
\<close>

theorem forward_packet_releases_queued_slot:
  assumes "forward_decide th pi packet = Some (r, th1)" "0 \<le> r" "nat r < length (ports (th_plane th1))"
    "port = get_port (th_plane th1) (nat r)" "port_wf port" "length (tx_queue port) + 1 < unat (num_tx_desc port)"
    "slot_size packet \<le> IXGBE_MAX_DATA_PER_TXD" "0 \<le> pkt_slot packet" "nat (pkt_slot packet) < length (slots (th_buf th1))"
    "nat r < length (buf_dma (th_buf th1))"
  shows "\<exists>th'. forward_packet pi packet th = Some th' \<and>
    pkt_slot packet \<in> fst ` set (tx_queue (get_port (th_plane th') (nat r))) \<and> slot_free (th_buf th') (nat (pkt_slot packet)) \<and>
    (\<forall>h. \<not> drv_inv \<lparr>dplane = th_plane th', dbuf = th_buf th', held = h\<rparr>)"
proof -
  let ?si = "pkt_slot packet"
  let ?ring = "ring_push (num_tx_desc port) ?si (tx_desc_of (th_buf th1) (nat r) packet) (tx_ring port)"
  define p where "p = put_port (nat r) (port\<lparr>tx_ring := ?ring, tx_suspended := tx_suspended port + 1\<rparr>) (th_plane th1)"
  define b where "b = ixmap_slot_release (th_buf th1) ?si"
  have t: "ixmap_tx_assign (th_plane th1) (nat r) (th_buf th1) packet = (p, th_buf th1)"
    using ixmap_tx_assign_eq [OF assms(4,5), of "th_buf th1" packet] assms(6,7) by (simp add: p_def)
  have "tx_access (th_plane th1) r (th_buf th1) packet"
    using assms(2,3,5,10) unfolding assms(4) by (simp add: tx_access_def port_wf_def ring_wf_def Let_def)
  then have f: "forward_packet pi packet th = Some (th1\<lparr>th_plane := p, th_buf := b\<rparr>)"
    using assms(1,2,8,9) t by (simp add: forward_packet_def b_def slot_access_def)
  have q: "?si \<in> fst ` set (tx_queue (get_port p (nat r)))"
    using ring_push_queue [of "num_tx_desc port" "tx_ring port"] assms(3,5,6) by (force simp: p_def port_wf_def)
  have free: "slot_free b (nat ?si)" using assms(9) by (simp add: b_def slot_free_def ixmap_slot_release_def)
  have "\<not> drv_inv \<lparr>dplane = p, dbuf = b, held = h\<rparr>" for h
  proof
    assume "drv_inv \<lparr>dplane = p, dbuf = b, held = h\<rparr>"
    then have o: "rings_ms p + h = image_mset int (mset_set (inflight b))" by (simp add: drv_inv_def Slots.owned_def)
    have "rings_ms p = port_ms (get_port p (nat r)) + (\<Sum>i \<in> {..<length (ports p)} - {nat r}. port_ms (get_port p i))"
      unfolding rings_ms_def using assms(3) by (intro sum.remove) (auto simp: p_def)
    then have "?si \<in># rings_ms p + h" using q by (auto simp: port_ms_def)
    then have "nat ?si \<in> inflight b" unfolding o by auto
    then show False using free by (simp add: inflight_def)
  qed
  then show ?thesis using f q free by auto
qed

end
