(* ===== verification/Forward_Run.thy ===== *)
theory Forward_Run
  imports Forward
begin

text \<open>
  A concrete thread, for the theorems about forwarding: memory of eight megabytes with two routing tables,
  two neighbour tables and one neighbour entry, into which the route 10.1.0.0/16 via 10.0.0.1 is inserted
  by \<open>fib_route_update\<close>.
\<close>

definition ex_key :: "u8 list" where "ex_key = [10, 0, 0, 1, 0, 0, 0, 0, 0, 0, 0, 0, 0, 0, 0, 0]"

definition ex_fw_tree :: mnode where
  "ex_fw_tree =
     MNode
       (Some (MNode (Some (MNode None None True 0 0x200000 0x1000)) (Some (MNode None None True 1 0x200000 0x201000))
          True 0 0x400000 0x1000))
       (Some (MNode
          (Some (MNode (Some (MNode None None True 0 0x100000 0x401000)) (Some (MNode None None True 1 0x100000 0x501000))
             True 0 0x200000 0x401000))
          (Some (MNode (Some (MNode None None True 0 0x100000 0x601000)) (Some (MNode None None False 1 0x100000 0x701000))
             True 1 0x200000 0x601000))
          True 1 0x400000 0x401000))
       True 0 0x800000 0x1000"

definition ex_fw_world :: world where
  "ex_fw_world = \<lparr>
     wmem = \<lparr>root = ex_fw_tree, headers = [0x1000 \<mapsto> [False, False], 0x201000 \<mapsto> [False, True], 0x401000 \<mapsto> [True, False, False],
       0x501000 \<mapsto> [True, False, True], 0x601000 \<mapsto> [True, True, False]], numa = \<lambda>_. True, numa_calls = 13\<rparr>,
     nents = [0x601040 \<mapsto> \<lparr>dst_mac = [2, 0, 0, 0, 0, 9], dst_addr = ex_key\<rparr>], fibs = Map.empty, junk = \<lambda>_. replicate 64 0\<rparr>"

definition ex_neigh_four :: neigh_table where
  "ex_neigh_four = \<lparr>nself = 0x401040, table = \<lparr>head = (\<lambda>_. [])(neigh_key_generate_v4 ex_key HASH_BIT := [\<lparr>eaddr = 0x601040, ekey = ex_key\<rparr>]),
     hash_entry_delete = neigh_entry_delete, hash_key_generate = neigh_key_generate_v4, hash_key_compare = neigh_key_compare_v4\<rparr>\<rparr>"

definition ex_neigh_six :: neigh_table where
  "ex_neigh_six = \<lparr>nself = 0x501040, table = \<lparr>head = \<lambda>_. [],
     hash_entry_delete = neigh_entry_delete, hash_key_generate = neigh_key_generate_v6, hash_key_compare = neigh_key_compare_v6\<rparr>\<rparr>"

lemma ex_fw_bpath:
  "bpath ex_fw_tree path n \<longleftrightarrow> (path, n) \<in> {([False, False], MNode None None True 0 0x200000 0x1000),
     ([False, True], MNode None None True 1 0x200000 0x201000), ([True, False, False], MNode None None True 0 0x100000 0x401000),
     ([True, False, True], MNode None None True 1 0x100000 0x501000), ([True, True, False], MNode None None True 0 0x100000 0x601000)}"
proof -
  consider "path = []" | i where "path = [i]" | i j where "path = [i, j]" | i j k p where "path = i # j # k # p"
    by (metis list.exhaust)
  then show ?thesis
  proof cases
    case (4 i j k p)
    then show ?thesis by (cases i; cases j; cases k; cases p) (auto simp: ex_fw_tree_def bpath_def child_def)
  qed (auto simp: ex_fw_tree_def bpath_def child_def split: if_splits)
qed

lemma ex_fw_winv: "winv ex_fw_world" "wlive ex_fw_world = {0x1040, 0x201040, 0x401040, 0x501040, 0x601040}"
proof -
  have t: "root (wmem ex_fw_world) = ex_fw_tree" by (simp add: ex_fw_world_def)
  have im: "{ptr n + mem_header_size | path n. (path, n) \<in> A} = (\<lambda>x. ptr (snd x) + mem_header_size) ` A" for A :: "(bool list \<times> mnode) set"
    by force
  have "mwf ex_fw_tree" by (simp add: ex_fw_tree_def)
  then have "mem_inv (wmem ex_fw_world)" unfolding mem_inv_defs t ex_fw_bpath by (auto simp: ex_fw_world_def)
  moreover show l: "wlive ex_fw_world = {0x1040, 0x201040, 0x401040, 0x501040, 0x601040}"
    unfolding wlive_def mem_live_def t ex_fw_bpath im by simp
  moreover have "dom (nents ex_fw_world) \<union> dom (fibs ex_fw_world) = {0x601040}" by (simp add: ex_fw_world_def)
  ultimately show "winv ex_fw_world" unfolding winv_def wlive_def by simp
qed

lemma ex_gen: "neigh_key_generate_v4 ex_key HASH_BIT < HASH_SIZE"
  by (simp add: neigh_key_generate_v4_def ex_key_def load32_def GOLDEN_RATIO_PRIME_32_def HASH_BIT_def HASH_SIZE_def)

lemma ex_neigh_four_entries: "entries (table ex_neigh_four) = [\<lparr>eaddr = 0x601040, ekey = ex_key\<rparr>]"
proof -
  define t where "t = (table ex_neigh_four)\<lparr>head := \<lambda>_. []\<rparr>"
  obtain es es' where e: "entries t = es @ head t (neigh_key_generate_v4 ex_key HASH_BIT) @ es'"
      "\<forall>xs. entries (t\<lparr>head := (head t)(neigh_key_generate_v4 ex_key HASH_BIT := xs)\<rparr>) = es @ xs @ es'"
    by (rule entries_upd [OF ex_gen])
  have "entries t = []" by (simp add: entries_def t_def)
  then have "es = []" "es' = []" using e(1) by auto
  then show ?thesis using e(2) by (simp add: t_def ex_neigh_four_def)
qed

lemma ex_neigh_four_inv:
  assumes "winv w" "nents w = nents ex_fw_world" "0x401040 \<in> wlive w"
  shows "neigh_inv AF_INET w ex_neigh_four"
proof -
  have "hash_ok (neigh_gen AF_INET) (neigh_cmp AF_INET) (neigh_view AF_INET) (table ex_neigh_four)"
    by (simp add: hash_ok_def ex_neigh_four_def neigh_gen_def neigh_cmp_def)
  moreover have "nself ex_neigh_four = 0x401040" "hash_entry_delete (table ex_neigh_four) = neigh_entry_delete"
    by (simp_all add: ex_neigh_four_def)
  ultimately show ?thesis using assms by (simp add: neigh_inv_def neigh_owned_def ex_neigh_four_entries) (simp add: ex_fw_world_def)
qed

lemma ex_neigh_six_inv:
  assumes "winv w" "nents w = nents ex_fw_world" "0x501040 \<in> wlive w"
  shows "neigh_inv AF_INET6 w ex_neigh_six"
proof -
  have "hash_ok (neigh_gen AF_INET6) (neigh_cmp AF_INET6) (neigh_view AF_INET6) (table ex_neigh_six)"
    by (simp add: hash_ok_def ex_neigh_six_def neigh_gen_def neigh_cmp_def AF_INET_def AF_INET6_def)
  moreover have "nself ex_neigh_six = 0x501040" "hash_entry_delete (table ex_neigh_six) = neigh_entry_delete"
    by (simp_all add: ex_neigh_six_def)
  moreover have "entries (table ex_neigh_six) = []" by (simp add: entries_def ex_neigh_six_def)
  ultimately show ?thesis using assms by (simp add: neigh_inv_def neigh_owned_def) (simp add: ex_fw_world_def)
qed

text \<open>The routing tables: the first at the block 0x1040, which gets the route, the second at the block 0x201040.\<close>

definition ex_fib_six :: fib where "ex_fib_six = ex_fib\<lparr>fself := 0x201040\<rparr>"

definition ex_fw_result :: "int \<times> fib \<times> world" where
  "ex_fw_result = the (fib_route_update ex_fw_world ex_fib AF_INET FIB_TYPE_FORWARD [10, 1, 0, 0] 16 [10, 0, 0, 1] 0 254)"

lemma ex_fw_update:
  "map_option (\<lambda>(r, fib, w). (r, nents w)) (fib_route_update ex_fw_world ex_fib AF_INET FIB_TYPE_FORWARD [10, 1, 0, 0] 16 [10, 0, 0, 1] 0 254)
     = Some (0, nents ex_fw_world)"
  by (simp add: ex_fw_world_def ex_fw_tree_def ex_fib_def fib_eval)

definition ex_fw_fib :: fib where "ex_fw_fib = fst (snd ex_fw_result)"
definition ex_fw_mem :: world where "ex_fw_mem = snd (snd ex_fw_result)"

lemma ex_fw_route:
  obtains p f where "fib_inv ex_fw_mem ex_fw_fib [p]" "fibs ex_fw_mem = [p \<mapsto> f]" "fprefix_len f = 16"
    "matches (fprefix f) 16 [10, 1, 0, 0]" "take 4 (fnexthop f) = [10, 0, 0, 1]" "fport_index f = 0" "ftype f = FIB_TYPE_FORWARD"
    "nents ex_fw_mem = nents ex_fw_world" "winv ex_fw_mem" "{0x1040, 0x201040, 0x401040, 0x501040, 0x601040} \<subseteq> wlive ex_fw_mem" "p \<noteq> 0x201040"
proof -
  have u: "fib_route_update ex_fw_world ex_fib AF_INET FIB_TYPE_FORWARD [10, 1, 0, 0] 16 [10, 0, 0, 1] 0 254 = Some (0, ex_fw_fib, ex_fw_mem)"
    and n: "nents ex_fw_mem = nents ex_fw_world"
    using ex_fw_update by (auto simp: ex_fw_fib_def ex_fw_mem_def ex_fw_result_def)
  have f0: "fibs ex_fw_world = Map.empty" by (simp add: ex_fw_world_def)
  have i: "fib_inv ex_fw_world ex_fib []"
    using fib_inv_empty [OF ex_fw_winv(1), of 4160] by (simp add: ex_fw_winv(2) ex_fib_self f0)
  show thesis
  proof (rule fib_update_new [OF i _ _ _ _ _ u])
    fix p f xs ys
    assume "p \<notin> wlive ex_fw_world" "[] = xs @ ys" "fib_inv ex_fw_mem ex_fw_fib (xs @ p # ys)" "fibs ex_fw_mem = (fibs ex_fw_world)(p \<mapsto> f)"
      "fprefix_len f = 16" "matches (fprefix f) 16 [10, 1, 0, 0]" "take (fib_klen AF_INET) (fnexthop f) = take (fib_klen AF_INET) [10, 0, 0, 1]"
      "fport_index f = 0" "ftype f = FIB_TYPE_FORWARD" "wlive ex_fw_mem = wlive ex_fw_world \<union> {p} \<union> (fib_tree ex_fw_fib - fib_tree ex_fib)"
    then show thesis using n fib_invD(2) by (intro that [of p f]) (auto simp: fib_klen_def f0 ex_fw_winv(2))
  qed (simp_all add: fib_klen_def)
qed

text \<open>A frame with a UDP packet from 192.168.0.1 to 10.1.7.7, in the first slot.\<close>

definition ex_frame :: "u8 list" where
  "ex_frame = [2, 0, 0, 0, 0, 1, 2, 0, 0, 0, 0, 5, 8, 0, 0x45, 0, 0, 28, 0, 0, 0, 0, 64, 17, 0xA9, 0x20, 192, 168, 0, 1, 10, 1, 7, 7]"

definition ex_thread :: ixmapfwd_thread where
  "ex_thread = \<lparr>th_plane = ex_plane, th_buf = ex_buf, th_mem = ex_fw_mem, neigh_inet = [ex_neigh_four], neigh_inet6 = [ex_neigh_six],
     fib_inet = ex_fw_fib, fib_inet6 = ex_fib_six, th_tun = \<lparr>tunp_self = 1, tunp_ports_self = 2,
       tun_ports = [\<lparr>tun_fd = 7, tun_ifindex_of = 3, tun_mtu_frame = 1522\<rparr>]\<rparr>, th_index = 0, num_ports = 1,
     pmem = store 65536 ex_frame (\<lambda>_. 0), written = []\<rparr>"

lemma ex_fwd_ok:
  obtains p f where "fwd_ok AF_INET ex_thread ex_fw_fib [ex_neigh_four] [p]" "fibs ex_fw_mem p = Some f" "fprefix_len f = 16"
    "matches (fprefix f) 16 [10, 1, 0, 0]" "take 4 (fnexthop f) = [10, 0, 0, 1]" "fport_index f = 0" "ftype f = FIB_TYPE_FORWARD"
    "fwd_ok AF_INET6 ex_thread ex_fib_six [ex_neigh_six] []"
proof -
  obtain p f where r: "fib_inv ex_fw_mem ex_fw_fib [p]" "fibs ex_fw_mem = [p \<mapsto> f]" "fprefix_len f = 16"
    "matches (fprefix f) 16 [10, 1, 0, 0]" "take 4 (fnexthop f) = [10, 0, 0, 1]" "fport_index f = 0" "ftype f = FIB_TYPE_FORWARD"
    "nents ex_fw_mem = nents ex_fw_world" "winv ex_fw_mem" "{0x1040, 0x201040, 0x401040, 0x501040, 0x601040} \<subseteq> wlive ex_fw_mem" "p \<noteq> 0x201040"
    by (rule ex_fw_route)
  have m: "\<And>a ne. nents ex_fw_mem a = Some ne \<Longrightarrow> length (dst_mac ne) = 6" unfolding r(8) by (auto simp: ex_fw_world_def split: if_splits)
  have "fib_inv ex_fw_mem ex_fib_six []" unfolding ex_fib_six_def using r(2,9-11) by (intro fib_inv_empty) auto
  then have "fwd_ok AF_INET6 ex_thread ex_fib_six [ex_neigh_six] []"
    using ex_neigh_six_inv [OF r(9,8)] r(10) m by (simp add: fwd_ok_def ex_thread_def) (simp add: ex_defs)
  moreover have "fwd_ok AF_INET ex_thread ex_fw_fib [ex_neigh_four] [p]"
    using r(1,2,6) ex_neigh_four_inv [OF r(9,8)] r(10) m by (simp add: fwd_ok_def ex_thread_def) (simp add: ex_defs)
  ultimately show thesis using that r(2-7) by simp
qed

lemma ex_fwd_fields:
  "fib_inet ex_thread = ex_fw_fib" "neigh_inet ex_thread = [ex_neigh_four]" "fib_inet6 ex_thread = ex_fib_six"
  "neigh_inet6 ex_thread = [ex_neigh_six]" "length (tun_ports (th_tun ex_thread)) = 1" "th_mem ex_thread = ex_fw_mem"
  "th_plane ex_thread = ex_plane" "slot_buf ex_packet = 65536" "th_buf ex_thread = ex_buf"
  by (simp_all add: ex_thread_def ex_packet_def)

lemma ex_dst: "bytes (pmem ex_thread) (65536 + 30) 16 = [10, 1, 7, 7, 0, 0, 0, 0, 0, 0, 0, 0, 0, 0, 0, 0]"
  by (simp add: bytes_def ex_thread_def store_def ex_frame_def upt_rec)

lemma ex_header: "bytes (pmem ex_thread) (65536 + 14) 20 = [0x45, 0, 0, 28, 0, 0, 0, 0, 64, 17, 0xA9, 0x20, 192, 168, 0, 1, 10, 1, 7, 7]"
  by (simp add: bytes_def ex_thread_def store_def ex_frame_def upt_rec)

lemma ex_checksum: "checksum_ok (bytes (pmem ex_thread) (65536 + 14) 20)"
  unfolding ex_header checksum_ok_iff by simp

lemma ex_neigh_hit:
  assumes "take 4 x = [10, 0, 0, 1]"
  shows "neigh_map AF_INET ex_fw_mem ex_neigh_four (neigh_view AF_INET x) = Some [2, 0, 0, 0, 0, 9]"
    "neigh_at [ex_neigh_four] 0 x = Some (Some 0x601040)" "nents ex_fw_mem 0x601040 = Some \<lparr>dst_mac = [2, 0, 0, 0, 0, 9], dst_addr = ex_key\<rparr>"
proof -
  obtain p f where r: "nents ex_fw_mem = nents ex_fw_world" "winv ex_fw_mem" "0x401040 \<in> wlive ex_fw_mem"
    by (rule ex_fw_route) auto
  have "x ! i = ex_key ! i" if "i < 4" for i
  proof -
    have "take 4 x ! i = take 4 ex_key ! i" unfolding assms by (simp add: ex_key_def)
    then show ?thesis using that by simp
  qed
  then have "x ! 0 = ex_key ! 0" "x ! (0 + 1) = ex_key ! (0 + 1)" "x ! (0 + 2) = ex_key ! (0 + 2)" "x ! (0 + 3) = ex_key ! (0 + 3)"
    by simp_all
  then have "load32 x 0 = load32 ex_key 0" unfolding load32_def by (simp only:)
  then have "neigh_view AF_INET x = neigh_view AF_INET ex_key" by (simp add: neigh_view_def)
  then have h: "hmap (neigh_view AF_INET) (table ex_neigh_four) (neigh_view AF_INET x) = Some 0x601040"
    by (simp add: hmap_def ex_neigh_four_entries)
  show e: "nents ex_fw_mem 0x601040 = Some \<lparr>dst_mac = [2, 0, 0, 0, 0, 9], dst_addr = ex_key\<rparr>" unfolding r(1) by (simp add: ex_fw_world_def)
  show "neigh_map AF_INET ex_fw_mem ex_neigh_four (neigh_view AF_INET x) = Some [2, 0, 0, 0, 0, 9]" using h e by (simp add: neigh_map_def)
  show "neigh_at [ex_neigh_four] 0 x = Some (Some 0x601040)"
    using neigh_lookup_hmap [OF ex_neigh_four_inv [OF r(2,1,3)], of x] h by (simp add: neigh_at_def)
qed

lemma ex_fib_match:
  assumes "fibs ex_fw_mem p = Some f" "fprefix_len f = 16" "matches (fprefix f) 16 [10, 1, 0, 0]"
  shows "fib_match ex_fw_mem [10, 1, 7, 7, 0, 0, 0, 0, 0, 0, 0, 0, 0, 0, 0, 0] p"
proof -
  have "pbit [10, 1, 0, 0] i = pbit [10, 1, 7, 7, 0, 0, 0, 0, 0, 0, 0, 0, 0, 0, 0, 0] i" if "i < 16" for i
    using that by (cases "i < 8") (auto simp: pbit_def div_nat_eqI [of 1] nth_Cons')
  then show ?thesis using assms by (auto simp: fib_match_def matches_def)
qed

section \<open>Witnesses\<close>

theorem forward_ip_process_correct_witness:
  "\<exists>m'. forward_ip_process ex_thread 0 ex_packet = Some (0, ex_thread\<lparr>pmem := m'\<rparr>) \<and>
     bytes m' 65536 6 = [2, 0, 0, 0, 0, 9] \<and> bytes m' 65542 6 = [2, 0, 0, 0, 0, 1] \<and> m' 65558 = 63 \<and> checksum_ok (bytes m' 65550 20)"
proof -
  obtain p f where f: "fwd_ok AF_INET ex_thread ex_fw_fib [ex_neigh_four] [p]" "fibs ex_fw_mem p = Some f" "fprefix_len f = 16"
    "matches (fprefix f) 16 [10, 1, 0, 0]" "take 4 (fnexthop f) = [10, 0, 0, 1]" "fport_index f = 0" "ftype f = FIB_TYPE_FORWARD"
    by (rule ex_fwd_ok)
  have t: "pmem ex_thread (65536 + 22) = 64" by (simp add: ex_thread_def store_def ex_frame_def)
  have mac: "ixmap_macaddr ex_plane 0 = [2, 0, 0, 0, 0, 1]" by (simp add: ixmap_macaddr_def ex_defs)
  have "verdict AF_INET ex_fw_mem [ex_neigh_four] [p] [10, 1, 7, 7, 0, 0, 0, 0, 0, 0, 0, 0, 0, 0, 0, 0] 64 = Via 0 [2, 0, 0, 0, 0, 9]"
    using f(2,6,7) ex_fib_match [OF f(2-4)] ex_neigh_hit(1) [OF f(5)] by (simp add: verdict_def)
  then obtain m' where m': "forward_ip_process ex_thread 0 ex_packet = Some (0, ex_thread\<lparr>pmem := m'\<rparr>)"
      "bytes m' 65536 6 = [2, 0, 0, 0, 0, 9]" "bytes m' 65542 6 = [2, 0, 0, 0, 0, 1]" "m' 65558 = 63"
      "\<forall>n \<ge> 6. checksum_ok (bytes (pmem ex_thread) 65550 (2 * n)) \<longrightarrow> checksum_ok (bytes m' 65550 (2 * n))"
    using forward_ip_process_correct [of ex_thread "[p]" 0 ex_packet, unfolded ex_fwd_fields ex_dst t, OF f(1)] by (auto simp: mac)
  from m'(5) [rule_format, of 10] have "checksum_ok (bytes m' 65550 20)" using ex_checksum by simp
  then show ?thesis using m'(1-4) by blast
qed

theorem forward_ip6_process_correct_witness:
  "forward_ip6_process ex_thread 0 ex_packet = Some (-1, ex_thread)"
proof -
  obtain p f where f: "fwd_ok AF_INET6 ex_thread ex_fib_six [ex_neigh_six] []" by (rule ex_fwd_ok)
  have "bytes (pmem ex_thread) (65536 + 38) 16 = replicate 16 0"
    by (intro nth_equalityI) (simp_all add: ex_thread_def store_def ex_frame_def)
  moreover have "\<not> in6_is_addr_linklocal (replicate 16 0)" by (simp add: in6_is_addr_linklocal_def load32_def ntohl_def)
  ultimately show ?thesis
    using forward_ip6_process_correct [of ex_thread "[]" 0 ex_packet, unfolded ex_fwd_fields, OF f] by (simp add: verdict_def)
qed

lemma ex_rings_ok: "rings_ok ex_thread" "slot_access ex_buf (pkt_slot ex_packet)"
  using ex_wf by (simp_all add: rings_ok_def ex_fwd_fields slot_access_def) (simp_all add: ex_defs ex_packet_def port_wf_def ring_wf_def)

theorem forward_process_total_witness:
  "\<exists>th'. forward_process ex_thread 0 [ex_packet, ex_packet] = Some th' \<and> th_mem th' = ex_fw_mem \<and> slot_free (th_buf th') 0"
proof -
  obtain p f where "fwd_ok AF_INET ex_thread ex_fw_fib [ex_neigh_four] [p]" "fwd_ok AF_INET6 ex_thread ex_fib_six [ex_neigh_six] []"
    by (rule ex_fwd_ok)
  then have "fwd_inv ex_thread" unfolding fwd_inv_def ex_fwd_fields by blast
  from forward_process_total [OF this ex_rings_ok(1), of 0 "[ex_packet, ex_packet]"] ex_rings_ok(2) show ?thesis
    by (auto simp: ex_fwd_fields released_def ixmap_slot_release_def slot_free_def ex_packet_def ex_buf_def)
qed

theorem forward_packet_releases_queued_slot_witness:
  "\<exists>th'. forward_packet 0 ex_packet ex_thread = Some th' \<and> 0 \<in> fst ` set (tx_queue (get_port (th_plane th') 0)) \<and> slot_free (th_buf th') 0"
proof -
  obtain p f where f: "fwd_ok AF_INET ex_thread ex_fw_fib [ex_neigh_four] [p]" "fibs ex_fw_mem p = Some f" "fprefix_len f = 16"
    "matches (fprefix f) 16 [10, 1, 0, 0]" "take 4 (fnexthop f) = [10, 0, 0, 1]" "fport_index f = 0" "ftype f = FIB_TYPE_FORWARD"
    by (rule ex_fwd_ok)
  have t: "pmem ex_thread (65536 + 22) = 64" by (simp add: ex_thread_def store_def ex_frame_def)
  have "fib_lookup ex_fw_fib [10, 1, 7, 7, 0, 0, 0, 0, 0, 0, 0, 0, 0, 0, 0, 0] = Some p"
    using fib_lookup_find [of ex_fw_mem ex_fw_fib "[p]"] f(1) ex_fib_match [OF f(2-4)] by (simp add: fwd_ok_def ex_fwd_fields)
  moreover have "next_hop [ex_neigh_four] f d = Some (Some 0x601040)" for d using ex_neigh_hit(2) [OF f(5)] f(6,7) by (simp add: next_hop_def)
  ultimately obtain m' where m': "forward_ip_process ex_thread 0 ex_packet = Some (0, ex_thread\<lparr>pmem := m'\<rparr>)"
    using forward_ip_sent [where th = ex_thread and rts = "[p]" and packet = ex_packet and p = p and e = f and q = "0x601040" and
        ne = "\<lparr>dst_mac = [2, 0, 0, 0, 0, 9], dst_addr = ex_key\<rparr>" and pi = 0, unfolded ex_fwd_fields ex_dst t] f(1,2,6) ex_neigh_hit(3) [OF f(5)] by auto
  have "ntohs (load16 (bytes (pmem ex_thread) (65536 + 12) 2) 0) = 0x0800"
    by (simp add: load16_bytes ex_thread_def store_def ex_frame_def ntohs_def)
  then have "forward_decide ex_thread 0 ex_packet = forward_ip_process ex_thread 0 ex_packet"
    unfolding forward_decide_def Let_def ex_fwd_fields by (simp only:) (simp add: ETH_P_ARP_def ETH_P_IP_def)
  then have d: "forward_decide ex_thread 0 ex_packet = Some (0, ex_thread\<lparr>pmem := m'\<rparr>)" using m' by simp
  have q: "tx_queue (get_port ex_plane 0) = []" by (simp add: ex_defs ring_queue_def ring_used_def)
  show ?thesis
    using forward_packet_releases_queued_slot [OF d _ _ refl]
    by (simp add: ex_fwd_fields q) (auto simp: ex_defs IXGBE_MAX_DATA_PER_TXD_def)
qed

end
