(* ===== verification/Epoll.thy ===== *)
theory Epoll
  imports Device Forward_Run
begin

text \<open>
  The descriptors a thread waits for, \<open>src/src/epoll.c\<close>, and how a thread registers and releases them,
  \<open>thread_fd_prepare\<close> and \<open>thread_fd_destroy\<close> of \<open>src/src/thread.c\<close>, over the system of the theory \<open>Os\<close>.
  The calls of \<open>epoll_ctl\<close> and \<open>bind\<close> are recorded as requests.
\<close>

section \<open>Descriptors\<close>

datatype epoll_type = EPOLL_IRQ_RX | EPOLL_IRQ_TX | EPOLL_TUN | EPOLL_SIGNAL | EPOLL_NETLINK

record epoll_desc =
  ep_self :: addr
  ep_fd :: int
  ep_type :: epoll_type
  ep_port_index :: nat
  ep_data :: "ixmap_irq_handle option"

datatype epoll_req =
    Epoll_add int addr int
  | Epoll_del int int
  | Bind int

definition sizeof_epoll_desc :: u64 where "sizeof_epoll_desc = 40"

definition epoll_add :: "int \<Rightarrow> epoll_desc \<Rightarrow> epoll_req os \<Rightarrow> int \<times> epoll_req os" where
  "epoll_add fd_ep d s =
     (case os_ioctl (Epoll_add fd_ep (ep_self d) (ep_fd d)) s of (ret, s1) \<Rightarrow> (if ret < 0 then -1 else 0, s1))"

definition epoll_del :: "int \<Rightarrow> int \<Rightarrow> epoll_req os \<Rightarrow> int \<times> epoll_req os" where
  "epoll_del fd_ep fd s =
     (case os_ioctl (Epoll_del fd_ep fd) s of (ret, s1) \<Rightarrow> (if ret < 0 then -1 else 0, s1))"

definition epoll_desc_alloc_irq ::
    "ixmap_plane \<Rightarrow> nat \<Rightarrow> ixmap_irq_type \<Rightarrow> epoll_req os \<Rightarrow> (epoll_desc option \<times> epoll_req os) option" where
  "epoll_desc_alloc_irq plane pi type s =
     (case os_numa sizeof_epoll_desc s of
        (None, s1) \<Rightarrow> Some (None, s1)
      | (Some p, s1) \<Rightarrow>
          let ty = (case type of IXMAP_IRQ_RX \<Rightarrow> EPOLL_IRQ_RX | IXMAP_IRQ_TX \<Rightarrow> EPOLL_IRQ_TX)
          in Some (Some \<lparr>ep_self = p, ep_fd = ixmap_irq_fd plane pi type, ep_type = ty, ep_port_index = pi,
                         ep_data = Some (ixmap_irq_handle_of plane pi type)\<rparr>, s1))"

definition epoll_desc_release_irq :: "epoll_desc \<Rightarrow> epoll_req os \<Rightarrow> epoll_req os option" where
  "epoll_desc_release_irq d s = os_numa_free (ep_self d) sizeof_epoll_desc s"

definition epoll_desc_alloc_signalfd :: "epoll_req os \<Rightarrow> (epoll_desc option \<times> epoll_req os) option" where
  "epoll_desc_alloc_signalfd s =
     (case os_numa sizeof_epoll_desc s of
        (None, s1) \<Rightarrow> Some (None, s1)
      | (Some p, s1) \<Rightarrow>
          (case os_fd s1 of
             (fd, s2) \<Rightarrow>
               if fd < 0 then do { s3 \<leftarrow> os_numa_free p sizeof_epoll_desc s2; Some (None, s3) }
               else Some (Some \<lparr>ep_self = p, ep_fd = fd, ep_type = EPOLL_SIGNAL, ep_port_index = 0, ep_data = None\<rparr>, s2)))"

definition epoll_desc_release_signalfd :: "epoll_desc \<Rightarrow> epoll_req os \<Rightarrow> epoll_req os option" where
  "epoll_desc_release_signalfd d s = do {
     s1 \<leftarrow> os_close (ep_fd d) s;
     os_numa_free (ep_self d) sizeof_epoll_desc s1 }"

definition epoll_desc_alloc_tun :: "tun_plane \<Rightarrow> nat \<Rightarrow> epoll_req os \<Rightarrow> (epoll_desc option \<times> epoll_req os) option" where
  "epoll_desc_alloc_tun tun pi s =
     (case os_numa sizeof_epoll_desc s of
        (None, s1) \<Rightarrow> Some (None, s1)
      | (Some p, s1) \<Rightarrow>
          if pi < length (tun_ports tun)
          then Some (Some \<lparr>ep_self = p, ep_fd = tun_fd (tun_ports tun ! pi), ep_type = EPOLL_TUN, ep_port_index = pi, ep_data = None\<rparr>, s1)
          else None)"

definition epoll_desc_release_tun :: "epoll_desc \<Rightarrow> epoll_req os \<Rightarrow> epoll_req os option" where
  "epoll_desc_release_tun d s = os_numa_free (ep_self d) sizeof_epoll_desc s"

definition epoll_desc_alloc_netlink :: "epoll_req os \<Rightarrow> (epoll_desc option \<times> epoll_req os) option" where
  "epoll_desc_alloc_netlink s =
     (case os_numa sizeof_epoll_desc s of
        (None, s1) \<Rightarrow> Some (None, s1)
      | (Some p, s1) \<Rightarrow>
          (case os_fd s1 of
             (fd, s2) \<Rightarrow>
               if fd < 0 then do { s3 \<leftarrow> os_numa_free p sizeof_epoll_desc s2; Some (None, s3) }
               else case os_ioctl (Bind fd) s2 of
                 (ret, s3) \<Rightarrow>
                   if ret < 0 then do { s4 \<leftarrow> os_close fd s3; s5 \<leftarrow> os_numa_free p sizeof_epoll_desc s4; Some (None, s5) }
                   else Some (Some \<lparr>ep_self = p, ep_fd = fd, ep_type = EPOLL_NETLINK, ep_port_index = 0, ep_data = None\<rparr>, s3)))"

definition epoll_desc_release_netlink :: "epoll_desc \<Rightarrow> epoll_req os \<Rightarrow> epoll_req os option" where
  "epoll_desc_release_netlink d s = do {
     s1 \<leftarrow> os_close (ep_fd d) s;
     os_numa_free (ep_self d) sizeof_epoll_desc s1 }"

section \<open>Preparing and destroying\<close>

text \<open>What a thread registers, in this order.\<close>

datatype fd_source = Irq nat ixmap_irq_type | Tun nat | Signalfd | Netlink_fd

definition fd_sources :: "ixmapfwd_thread \<Rightarrow> fd_source list" where
  "fd_sources th = concat (map (\<lambda>i. [Irq i IXMAP_IRQ_RX, Irq i IXMAP_IRQ_TX, Tun i]) [0..<unat (num_ports th)]) @ [Signalfd, Netlink_fd]"

fun fd_alloc :: "ixmapfwd_thread \<Rightarrow> fd_source \<Rightarrow> epoll_req os \<Rightarrow> (epoll_desc option \<times> epoll_req os) option" where
  "fd_alloc th (Irq i type) s = epoll_desc_alloc_irq (th_plane th) i type s"
| "fd_alloc th (Tun i) s = epoll_desc_alloc_tun (th_tun th) i s"
| "fd_alloc th Signalfd s = epoll_desc_alloc_signalfd s"
| "fd_alloc th Netlink_fd s = epoll_desc_alloc_netlink s"

text \<open>Each descriptor is put at the head of the list and then added; the first failure ends the loop.\<close>

fun fd_register :: "ixmapfwd_thread \<Rightarrow> int \<Rightarrow> fd_source list \<Rightarrow> epoll_desc list \<Rightarrow> epoll_req os \<Rightarrow>
    (bool \<times> epoll_desc list \<times> epoll_req os) option" where
  "fd_register th fd_ep [] eps s = Some (True, eps, s)"
| "fd_register th fd_ep (x # xs) eps s = do {
     (d, s1) \<leftarrow> fd_alloc th x s;
     (case d of
        None \<Rightarrow> Some (False, eps, s1)
      | Some d \<Rightarrow>
          (case epoll_add fd_ep d s1 of
             (ret, s2) \<Rightarrow> if ret < 0 then Some (False, d # eps, s2) else fd_register th fd_ep xs (d # eps) s2)) }"

definition fd_release :: "int \<Rightarrow> epoll_desc \<Rightarrow> epoll_req os \<Rightarrow> epoll_req os option" where
  "fd_release fd_ep d s =
     (case epoll_del fd_ep (ep_fd d) s of
        (ret, s1) \<Rightarrow>
          (case ep_type d of
             EPOLL_IRQ_RX \<Rightarrow> epoll_desc_release_irq d s1
           | EPOLL_IRQ_TX \<Rightarrow> epoll_desc_release_irq d s1
           | EPOLL_SIGNAL \<Rightarrow> epoll_desc_release_signalfd d s1
           | EPOLL_TUN \<Rightarrow> epoll_desc_release_tun d s1
           | EPOLL_NETLINK \<Rightarrow> Some s1))"

definition thread_fd_destroy :: "epoll_desc list \<Rightarrow> int \<Rightarrow> epoll_req os \<Rightarrow> epoll_req os option" where
  "thread_fd_destroy eps fd_ep s = do {
     s1 \<leftarrow> for_each (fd_release fd_ep) eps s;
     os_close fd_ep s1 }"

definition thread_fd_prepare :: "ixmapfwd_thread \<Rightarrow> epoll_req os \<Rightarrow> (int \<times> epoll_desc list \<times> epoll_req os) option" where
  "thread_fd_prepare th s =
     (case os_fd s of
        (fd_ep, s1) \<Rightarrow>
          if fd_ep < 0 then Some (-1, [], s1)
          else do {
            (ok, eps, s2) \<leftarrow> fd_register th fd_ep (fd_sources th) [] s1;
            (if ok then Some (fd_ep, eps, s2)
             else do { s3 \<leftarrow> thread_fd_destroy eps fd_ep s2; Some (-1, [], s3) }) })"

section \<open>What is held\<close>

definition ep_foot :: "epoll_desc \<Rightarrow> resource multiset" where
  "ep_foot d = add_mset (Numa (ep_self d) sizeof_epoll_desc)
     (if ep_type d = EPOLL_SIGNAL \<or> ep_type d = EPOLL_NETLINK then {#Fd (ep_fd d)#} else {#})"

text \<open>What \<open>thread_fd_destroy\<close> leaves of a descriptor.\<close>

definition ep_left :: "epoll_desc \<Rightarrow> resource multiset" where
  "ep_left d = (if ep_type d = EPOLL_NETLINK then ep_foot d else {#})"

definition netlink_left :: "resource multiset \<Rightarrow> resource multiset \<Rightarrow> bool" where
  "netlink_left M M' \<longleftrightarrow> (\<exists>fd p. M' = M + {#Fd fd, Numa p sizeof_epoll_desc#})"

fun source_ok :: "ixmapfwd_thread \<Rightarrow> fd_source \<Rightarrow> bool" where
  "source_ok th (Tun i) \<longleftrightarrow> i < length (tun_ports (th_tun th))"
| "source_ok th _ \<longleftrightarrow> True"

fun source_of :: "ixmapfwd_thread \<Rightarrow> fd_source \<Rightarrow> epoll_desc \<Rightarrow> bool" where
  "source_of th (Irq i IXMAP_IRQ_RX) d \<longleftrightarrow> ep_type d = EPOLL_IRQ_RX \<and> ep_port_index d = i \<and> ep_fd d = irq_fd (rx_irq (get_port (th_plane th) i))"
| "source_of th (Irq i IXMAP_IRQ_TX) d \<longleftrightarrow> ep_type d = EPOLL_IRQ_TX \<and> ep_port_index d = i \<and> ep_fd d = irq_fd (tx_irq (get_port (th_plane th) i))"
| "source_of th (Tun i) d \<longleftrightarrow> ep_type d = EPOLL_TUN \<and> ep_port_index d = i \<and> ep_fd d = tun_fd (tun_ports (th_tun th) ! i)"
| "source_of th Signalfd d \<longleftrightarrow> ep_type d = EPOLL_SIGNAL"
| "source_of th Netlink_fd d \<longleftrightarrow> ep_type d = EPOLL_NETLINK"

lemma fd_alloc_res:
  assumes "source_ok th x"
  obtains (fail) s' where "fd_alloc th x s = Some (None, s')" "res s' = res s"
  | (ok) d s' where "fd_alloc th x s = Some (Some d, s')" "res s' = res s + ep_foot d" "source_of th x d"
proof -
  have "\<exists>r s'. fd_alloc th x s = Some (r, s') \<and> res s' = res s + (case r of None \<Rightarrow> {#} | Some d \<Rightarrow> ep_foot d) \<and>
      (\<forall>d. r = Some d \<longrightarrow> source_of th x d)"
  proof (cases x)
    case (Irq i type)
    then show ?thesis
      by (cases type) (auto simp: epoll_desc_alloc_irq_def os_ops ep_foot_def ixmap_irq_fd_def)
  next
    case (Tun i)
    then show ?thesis using assms by (auto simp: epoll_desc_alloc_tun_def os_ops ep_foot_def)
  next
    case Signalfd
    then show ?thesis by (auto simp: epoll_desc_alloc_signalfd_def os_ops ep_foot_def)
  next
    case Netlink_fd
    then show ?thesis by (auto simp: epoll_desc_alloc_netlink_def os_ops ep_foot_def)
  qed
  then show thesis using fail ok by (fastforce split: option.splits)
qed

lemma epoll_ctl_res [simp]: "res (snd (epoll_add fd d s)) = res s" "res (snd (epoll_del fd x s)) = res s"
  by (simp_all add: epoll_add_def epoll_del_def os_ops)

lemma fd_register_res:
  assumes "list_all (source_ok th) xs"
  shows "\<exists>ok ds s'. fd_register th fd xs eps s = Some (ok, rev ds @ eps, s') \<and> res s' = res s + (\<Sum>d \<leftarrow> ds. ep_foot d) \<and>
    length ds \<le> length xs \<and> (ok \<longrightarrow> length ds = length xs) \<and> list_all2 (source_of th) (take (length ds) xs) ds"
  using assms
proof (induction xs arbitrary: eps s)
  case Nil
  then show ?case by (intro exI [of _ True] exI [of _ "[]"]) simp
next
  case (Cons x xs)
  then have "source_ok th x" by simp
  then show ?case
  proof (cases rule: fd_alloc_res [where s = s])
    case (fail s')
    then show ?thesis by (intro exI [of _ False] exI [of _ "[]"]) simp
  next
    case (ok d s1)
    obtain ret s2 where a: "epoll_add fd d s1 = (ret, s2)" "res s2 = res s1"
      using epoll_ctl_res(1) [of fd d s1] by (cases "epoll_add fd d s1") simp
    show ?thesis
    proof (cases "ret < 0")
      case True
      then show ?thesis using ok a by (intro exI [of _ False] exI [of _ "[d]"]) simp
    next
      case False
      obtain g ds s3 where "fd_register th fd xs (d # eps) s2 = Some (g, rev ds @ d # eps, s3)" "res s3 = res s2 + (\<Sum>d \<leftarrow> ds. ep_foot d)"
          "length ds \<le> length xs" "g \<longrightarrow> length ds = length xs" "list_all2 (source_of th) (take (length ds) xs) ds"
        using Cons.IH [of "d # eps" s2] Cons.prems by (simp only: list_all_iff list.set) blast
      then show ?thesis using ok a False by (intro exI [of _ g] exI [of _ "d # ds"]) (simp add: add.assoc)
    qed
  qed
qed

lemma fd_release_res:
  assumes "res s = M + ep_foot d"
  shows "\<exists>s'. fd_release fd d s = Some s' \<and> res s' = M + ep_left d"
proof -
  obtain ret s1 where "epoll_del fd (ep_fd d) s = (ret, s1)" "res s1 = res s"
    using epoll_ctl_res(2) [of fd "ep_fd d" s] by (cases "epoll_del fd (ep_fd d) s") simp
  then show ?thesis using assms
    by (cases "ep_type d") (simp_all add: fd_release_def ep_foot_def ep_left_def epoll_desc_release_irq_def epoll_desc_release_tun_def
      epoll_desc_release_signalfd_def os_ops)
qed

lemma fd_release_all_res:
  "res s = M + (\<Sum>d \<leftarrow> eps. ep_foot d) \<Longrightarrow> \<exists>s'. for_each (fd_release fd) eps s = Some s' \<and> res s' = M + (\<Sum>d \<leftarrow> eps. ep_left d)"
proof (induction eps arbitrary: s M)
  case (Cons d eps)
  have "res s = (M + (\<Sum>d \<leftarrow> eps. ep_foot d)) + ep_foot d" using Cons.prems by (simp add: ac_simps)
  from fd_release_res [OF this] obtain s1 where s1: "fd_release fd d s = Some s1"
      "res s1 = (M + ep_left d) + (\<Sum>d \<leftarrow> eps. ep_foot d)" by (auto simp: ac_simps)
  from Cons.IH [OF this(2)] show ?case using s1 by (auto simp: ac_simps)
qed simp

lemma fd_destroy_res:
  assumes "res s = add_mset (Fd fd) M + (\<Sum>d \<leftarrow> eps. ep_foot d)"
  shows "\<exists>s'. thread_fd_destroy eps fd s = Some s' \<and> res s' = M + (\<Sum>d \<leftarrow> eps. ep_left d)"
proof -
  from fd_release_all_res [OF assms] obtain s1 where s1: "for_each (fd_release fd) eps s = Some s1"
      "res s1 = add_mset (Fd fd) (M + (\<Sum>d \<leftarrow> eps. ep_left d))" by auto
  from os_release_held(1) [OF this(2)] show ?thesis using s1 by (simp add: thread_fd_destroy_def)
qed

text \<open>Only the descriptor of the netlink socket, the last one, is left.\<close>

lemma sources_left:
  assumes "list_all2 (source_of th) (take (length ds) (xs @ [Netlink_fd])) ds" "Netlink_fd \<notin> set xs" "length ds \<le> Suc (length xs)"
  shows "(\<Sum>d \<leftarrow> ds. ep_left d) = (if length ds = Suc (length xs) then ep_foot (last ds) else {#})"
proof -
  have none: "(\<Sum>d \<leftarrow> ds. ep_left d) = {#}" if "list_all2 (source_of th) ys ds" "Netlink_fd \<notin> set ys" for ys ds
    using that
  proof (induction rule: list_all2_induct)
    case (Cons y ys d ds)
    have "ep_type d \<noteq> EPOLL_NETLINK" using Cons by (cases "(th, y, d)" rule: source_of.cases) auto
    then show ?case using Cons by (simp add: ep_left_def)
  qed simp
  show ?thesis
  proof (cases "length ds = Suc (length xs)")
    case True
    then obtain ds' d where ds: "ds = ds' @ [d]" "length ds' = length xs" by (metis length_Suc_conv_rev)
    have "list_all2 (source_of th) xs ds'" "ep_type d = EPOLL_NETLINK"
      using assms(1) ds by (simp_all add: list_all2_append)
    then show ?thesis using none [OF _ assms(2)] ds by (simp add: ep_left_def)
  next
    case False
    then have "take (length ds) (xs @ [Netlink_fd]) = take (length ds) xs" using assms(3) by simp
    moreover have "Netlink_fd \<notin> set (take (length ds) xs)" using assms(2) in_set_takeD by fast
    ultimately show ?thesis using none assms(1) False by simp
  qed
qed

lemma thread_fd_prepare_law:
  assumes "unat (num_ports th) \<le> length (tun_ports (th_tun th))"
  shows "\<exists>fd eps s'. thread_fd_prepare th s = Some (fd, eps, s') \<and>
    (if fd < 0 then res s' = res s \<or> netlink_left (res s) (res s')
     else list_all2 (source_of th) (fd_sources th) (rev eps) \<and>
       (\<exists>s''. thread_fd_destroy eps fd s' = Some s'' \<and> netlink_left (res s) (res s'')))"
proof (cases rule: os_fd_cases [of s])
  case (fail s1)
  then show ?thesis by (simp add: thread_fd_prepare_def)
next
  case (ok fd s1)
  obtain xs where xs: "fd_sources th = xs @ [Netlink_fd]" "Netlink_fd \<notin> set xs" "list_all (source_ok th) (fd_sources th)"
    using assms by (auto simp: fd_sources_def list_all_iff)
  obtain g ds s2 where r: "fd_register th fd (fd_sources th) [] s1 = Some (g, rev ds, s2)" "res s2 = res s1 + (\<Sum>d \<leftarrow> ds. ep_foot d)"
      "length ds \<le> length (fd_sources th)" "g \<longrightarrow> length ds = length (fd_sources th)"
      "list_all2 (source_of th) (take (length ds) (fd_sources th)) ds"
    using fd_register_res [OF xs(3), of fd "[]" s1] by auto
  have left: "(\<Sum>d \<leftarrow> rev ds. ep_left d) = (if length ds = Suc (length xs) then ep_foot (last ds) else {#})"
    using sources_left [OF r(5) [unfolded xs(1)] xs(2)] r(3) by (simp add: xs(1) rev_map [symmetric] sum_list_rev)
  have foot: "\<exists>x y. ep_foot (last ds) = {#Fd x, Numa y sizeof_epoll_desc#}" if n: "length ds = Suc (length xs)"
  proof -
    obtain ds' d where ds: "ds = ds' @ [d]" using n by (metis length_Suc_conv_rev)
    then have "ep_type d = EPOLL_NETLINK" using r(5) n by (simp add: xs(1) list_all2_append)
    then show ?thesis using ds by (auto simp: ep_foot_def add_mset_commute)
  qed
  have "res s2 = add_mset (Fd fd) (res s) + (\<Sum>d \<leftarrow> rev ds. ep_foot d)"
    using r(2) ok by (simp add: rev_map [symmetric] sum_list_rev)
  from fd_destroy_res [OF this] obtain s3 where s3: "thread_fd_destroy (rev ds) fd s2 = Some s3"
      "res s3 = res s + (\<Sum>d \<leftarrow> rev ds. ep_left d)" by blast
  show ?thesis
  proof (cases g)
    case True
    then have n: "length ds = Suc (length xs)" using r(4) xs(1) by simp
    obtain x y where "ep_foot (last ds) = {#Fd x, Numa y sizeof_epoll_desc#}" using foot [OF n] by blast
    then have "res s3 = res s + {#Fd x, Numa y sizeof_epoll_desc#}" unfolding s3(2) left using n by simp
    then have "\<exists>s''. thread_fd_destroy (rev ds) fd s2 = Some s'' \<and> netlink_left (res s) (res s'')"
      using s3(1) unfolding netlink_left_def by blast
    moreover have "thread_fd_prepare th s = Some (fd, rev ds, s2)" using True r(1) ok by (simp add: thread_fd_prepare_def)
    moreover have "list_all2 (source_of th) (fd_sources th) (rev (rev ds))" using r(5) n xs(1) by simp
    ultimately show ?thesis using ok(2) by (intro exI [of _ fd] exI [of _ "rev ds"] exI [of _ s2]) simp
  next
    case False
    then have "thread_fd_prepare th s = Some (-1, [], s3)" using r(1) ok s3(1) by (simp add: thread_fd_prepare_def)
    moreover have "res s3 = res s \<or> netlink_left (res s) (res s3)"
      using foot unfolding s3(2) left netlink_left_def by (cases "length ds = Suc (length xs)") fastforce+
    ultimately show ?thesis by (intro exI [of _ "-1"] exI [of _ "[]"] exI [of _ s3]) simp
  qed
qed

section \<open>What the kernel is asked to watch\<close>

text \<open>The calls of \<open>epoll_ctl\<close> made so far, in order.\<close>

fun is_ctl :: "epoll_req \<Rightarrow> bool" where
  "is_ctl (Bind fd) = False"
| "is_ctl q = True"

definition ctl :: "epoll_req os \<Rightarrow> epoll_req list" where
  "ctl s = filter is_ctl (reqs s)"

definition watch :: "int \<Rightarrow> epoll_desc \<Rightarrow> epoll_req" where
  "watch fd_ep d = Epoll_add fd_ep (ep_self d) (ep_fd d)"

definition unwatch :: "int \<Rightarrow> epoll_desc \<Rightarrow> epoll_req" where
  "unwatch fd_ep d = Epoll_del fd_ep (ep_fd d)"

lemma ctl_release: "release r s = Some s' \<Longrightarrow> ctl s' = ctl s"
  by (auto simp: release_def ctl_def split: if_splits)

lemma ctl_epoll: "ctl (snd (epoll_add fd d s)) = ctl s @ [watch fd d]" "ctl (snd (epoll_del fd (ep_fd d) s)) = ctl s @ [unwatch fd d]"
  by (simp_all add: epoll_add_def epoll_del_def os_ioctl_def sys_def ctl_def watch_def unwatch_def)

lemma ctl_alloc: "fd_alloc th x s = Some (r, s') \<Longrightarrow> ctl s' = ctl s"
  by (cases x) (auto simp: epoll_desc_alloc_irq_def epoll_desc_alloc_tun_def epoll_desc_alloc_signalfd_def epoll_desc_alloc_netlink_def
      os_ops ctl_def split: if_splits)

lemma ctl_register:
  "fd_register th fd xs eps s = Some (True, eps', s') \<Longrightarrow> \<exists>ds. eps' = rev ds @ eps \<and> ctl s' = ctl s @ map (watch fd) ds"
proof (induction xs arbitrary: eps s)
  case (Cons x xs)
  then obtain r s1 where 1: "fd_alloc th x s = Some (r, s1)" by (cases "fd_alloc th x s") auto
  then obtain d where d: "r = Some d" using Cons.prems by (cases r) auto
  obtain ret s2 where 2: "epoll_add fd d s1 = (ret, s2)" by fastforce
  then have "fd_register th fd xs (d # eps) s2 = Some (True, eps', s')" using Cons.prems 1 d by (simp split: if_splits)
  from Cons.IH [OF this] obtain ds where "eps' = rev ds @ d # eps" "ctl s' = ctl s2 @ map (watch fd) ds" by blast
  moreover have "ctl s2 = ctl s @ [watch fd d]" using ctl_epoll(1) [of fd d s1] ctl_alloc [OF 1] 2 by simp
  ultimately show ?case by (intro exI [of _ "d # ds"]) simp
qed simp

lemma ctl_prepare:
  assumes "thread_fd_prepare th s = Some (fd, eps, s')" "0 \<le> fd"
  shows "ctl s' = ctl s @ map (watch fd) (rev eps)"
proof (cases rule: os_fd_cases [of s])
  case (ok fd_ep s1)
  have "ctl s1 = ctl s" using ok(1) by (auto simp: os_fd_def sys_def acquire_def ctl_def split: if_splits)
  moreover have "fd_register th fd_ep (fd_sources th) [] s1 = Some (True, eps, s')" "fd_ep = fd"
    using assms ok by (auto simp: thread_fd_prepare_def split: bind_splits if_splits)
  ultimately show ?thesis using ctl_register by fastforce
qed (use assms in \<open>simp add: thread_fd_prepare_def\<close>)

lemma ctl_fd_release: "fd_release fd d s = Some s' \<Longrightarrow> ctl s' = ctl s @ [unwatch fd d]"
proof -
  assume f: "fd_release fd d s = Some s'"
  obtain ret s1 where 1: "epoll_del fd (ep_fd d) s = (ret, s1)" by fastforce
  have "ctl s1 = ctl s @ [unwatch fd d]" using ctl_epoll(2) [of fd d s] 1 by simp
  then show ?thesis
    using f 1 by (cases "ep_type d") (auto simp: fd_release_def epoll_desc_release_irq_def epoll_desc_release_tun_def
        epoll_desc_release_signalfd_def os_close_def os_numa_free_def dest!: ctl_release split: bind_splits)
qed

lemma ctl_release_all: "for_each (fd_release fd) eps s = Some s' \<Longrightarrow> ctl s' = ctl s @ map (unwatch fd) eps"
proof (induction eps arbitrary: s)
  case (Cons d eps)
  then obtain s1 where "fd_release fd d s = Some s1" "for_each (fd_release fd) eps s1 = Some s'" by (auto split: bind_splits)
  with ctl_fd_release [OF this(1)] Cons.IH [OF this(2)] show ?case by simp
qed simp

lemma ctl_destroy: "thread_fd_destroy eps fd s = Some s' \<Longrightarrow> ctl s' = ctl s @ map (unwatch fd) eps"
  by (auto simp: thread_fd_destroy_def os_close_def dest!: ctl_release ctl_release_all split: bind_splits)

text \<open>
  C38.  \<open>thread_fd_prepare\<close> and \<open>thread_fd_destroy\<close> return for every behaviour of the system.  A thread that is
  prepared has asked the kernel to watch exactly the receive interrupt, the transmit interrupt and the TAP
  queue of each port, the signal and netlink, each once, in this order and with its own descriptor as data.
  Destroying it asks the kernel to watch none of them any longer and gives back everything except the
  netlink socket and its block, which is also all that a failed preparation may leave behind.\<close>
theorem thread_fd_prepare_destroy:
  assumes "unat (num_ports th) \<le> length (tun_ports (th_tun th))"
  shows "\<exists>fd eps s'. thread_fd_prepare th s = Some (fd, eps, s') \<and>
    (if fd < 0 then res s' = res s \<or> netlink_left (res s) (res s')
     else list_all2 (source_of th) (fd_sources th) (rev eps) \<and> ctl s' = ctl s @ map (watch fd) (rev eps) \<and>
       (\<exists>s''. thread_fd_destroy eps fd s' = Some s'' \<and> ctl s'' = ctl s' @ map (unwatch fd) eps \<and> netlink_left (res s) (res s'')))"
proof -
  from thread_fd_prepare_law [OF assms] obtain fd eps s' where p: "thread_fd_prepare th s = Some (fd, eps, s')"
    "if fd < 0 then res s' = res s \<or> netlink_left (res s) (res s')
     else list_all2 (source_of th) (fd_sources th) (rev eps) \<and>
       (\<exists>s''. thread_fd_destroy eps fd s' = Some s'' \<and> netlink_left (res s) (res s''))" by blast
  show ?thesis
  proof (cases "fd < 0")
    case False
    with p ctl_prepare [OF p(1)] show ?thesis using ctl_destroy by fastforce
  qed (use p in auto)
qed

definition ex_ep_os :: "epoll_req os" where
  "ex_ep_os = \<lparr>res = {#}, ans = (\<lambda>n. int n + 1), calls = 0, reqs = []\<rparr>"

theorem thread_fd_prepare_destroy_witness:
  "unat (num_ports ex_thread) \<le> length (tun_ports (th_tun ex_thread)) \<and>
   (\<exists>fd eps s' s''. thread_fd_prepare ex_thread ex_ep_os = Some (fd, eps, s') \<and> length eps = 5 \<and> ctl s' = map (watch fd) (rev eps) \<and>
      thread_fd_destroy eps fd s' = Some s'' \<and> netlink_left {#} (res s''))"
proof -
  have n: "unat (num_ports ex_thread) \<le> length (tun_ports (th_tun ex_thread))" by (simp add: ex_thread_def)
  have l: "length (fd_sources ex_thread) = 5" by (simp add: fd_sources_def ex_thread_def)
  have "map_option fst (thread_fd_prepare ex_thread ex_ep_os) = Some 1"
    by (simp add: thread_fd_prepare_def fd_sources_def ex_thread_def ex_ep_os_def epoll_desc_alloc_irq_def epoll_desc_alloc_tun_def
      epoll_desc_alloc_signalfd_def epoll_desc_alloc_netlink_def epoll_add_def os_ops)
  then obtain eps s' where p: "thread_fd_prepare ex_thread ex_ep_os = Some (1, eps, s')" by auto
  then obtain s'' where "list_all2 (source_of ex_thread) (fd_sources ex_thread) (rev eps)" "thread_fd_destroy eps 1 s' = Some s''"
      "netlink_left (res ex_ep_os) (res s'')" "ctl s' = ctl ex_ep_os @ map (watch 1) (rev eps)"
    using thread_fd_prepare_destroy [OF n, of ex_ep_os] by auto
  moreover from this(1) have "length eps = 5" using l by (auto dest: list_all2_lengthD)
  moreover have "res ex_ep_os = {#}" "ctl ex_ep_os = []" by (simp_all add: ex_ep_os_def ctl_def)
  ultimately show ?thesis using n p by (intro conjI n exI [of _ 1] exI [of _ eps] exI [of _ s'] exI [of _ s'']) simp_all
qed

end
