(* ===== verification/Netlink.thy ===== *)
theory Netlink
  imports Forward_Run
begin

text \<open>
  The processing of netlink messages, \<open>src/src/netlink.c\<close>, on the bytes read from the socket.  The macros of
  \<open>linux/netlink.h\<close> and \<open>linux/rtnetlink.h\<close> that walk over messages and attributes are written out: lengths
  are aligned to 4 bytes, and the remaining length is a signed number.  Attributes are copied into arrays on
  the stack; a copy that does not fit has no result.
\<close>

section \<open>Messages and attributes\<close>

definition RTM_NEWROUTE :: u16 where "RTM_NEWROUTE = 24"
definition RTM_DELROUTE :: u16 where "RTM_DELROUTE = 25"
definition RTM_NEWNEIGH :: u16 where "RTM_NEWNEIGH = 28"
definition RTM_DELNEIGH :: u16 where "RTM_DELNEIGH = 29"
definition RTA_DST :: u16 where "RTA_DST = 1"
definition RTA_OIF :: u16 where "RTA_OIF = 4"
definition RTA_GATEWAY :: u16 where "RTA_GATEWAY = 5"
definition NDA_DST :: u16 where "NDA_DST = 1"
definition NDA_LLADDR :: u16 where "NDA_LLADDR = 2"
definition RT_TABLE_LOCAL :: u8 where "RT_TABLE_LOCAL = 255"

definition mem16 :: "(addr \<Rightarrow> u8) \<Rightarrow> addr \<Rightarrow> u16" where
  "mem16 m a = load16 (bytes m a 2) 0"

definition mem32 :: "(addr \<Rightarrow> u8) \<Rightarrow> addr \<Rightarrow> u32" where
  "mem32 m a = load32 (bytes m a 4) 0"

definition align4 :: "nat \<Rightarrow> nat" where
  "align4 n = (n + 3) div 4 * 4"

text \<open>\<open>NLMSG_OK\<close> and \<open>RTA_OK\<close>; the header of a message has 16 bytes, that of an attribute 4.\<close>

definition nlmsg_ok :: "(addr \<Rightarrow> u8) \<Rightarrow> addr \<Rightarrow> int \<Rightarrow> bool" where
  "nlmsg_ok m a len \<longleftrightarrow> len \<ge> 16 \<and> mem32 m a \<ge> 16 \<and> int (unat (mem32 m a)) \<le> len"

definition rta_ok :: "(addr \<Rightarrow> u8) \<Rightarrow> addr \<Rightarrow> int \<Rightarrow> bool" where
  "rta_ok m a len \<longleftrightarrow> len \<ge> 4 \<and> mem16 m a \<ge> 4 \<and> int (unat (mem16 m a)) \<le> len"

text \<open>The loop over the attributes: \<open>f\<close> gets the type, the address of the payload and its length.\<close>

function rta_walk :: "(u16 \<Rightarrow> addr \<Rightarrow> nat \<Rightarrow> 's \<Rightarrow> 's option) \<Rightarrow> (addr \<Rightarrow> u8) \<Rightarrow> addr \<Rightarrow> int \<Rightarrow> 's \<Rightarrow> 's option" where
  "rta_walk f m a len s =
     (if rta_ok m a len then do {
        s1 \<leftarrow> f (mem16 m (a + 2)) (a + 4) (unat (mem16 m a) - 4) s;
        rta_walk f m (a + align4 (unat (mem16 m a))) (len - int (align4 (unat (mem16 m a)))) s1 }
      else Some s)"
  by pat_completeness auto
termination
  by (relation "measure (\<lambda>(f, m, a, len, s). nat len)") (auto simp: rta_ok_def align4_def word_le_nat_alt)

declare rta_walk.simps [simp del]

text \<open>\<open>memcpy\<close> of an attribute to an array.\<close>

definition copy_attr :: "(addr \<Rightarrow> u8) \<Rightarrow> addr \<Rightarrow> nat \<Rightarrow> u8 list \<Rightarrow> u8 list option" where
  "copy_attr m a n arr = (if n \<le> length arr then Some (memcpy arr (bytes m a n) n) else None)"

section \<open>Routes\<close>

record route_attrs =
  ra_prefix :: "u8 list"
  ra_nexthop :: "u8 list"
  ra_ifindex :: u32
  ra_type :: fib_type

definition route_attr :: "(addr \<Rightarrow> u8) \<Rightarrow> u16 \<Rightarrow> addr \<Rightarrow> nat \<Rightarrow> route_attrs \<Rightarrow> route_attrs option" where
  "route_attr m ty a n s =
     (if ty = RTA_DST then map_option (\<lambda>x. s\<lparr>ra_prefix := x\<rparr>) (copy_attr m a n (ra_prefix s))
      else if ty = RTA_GATEWAY then
        map_option (\<lambda>x. s\<lparr>ra_nexthop := x, ra_type := FIB_TYPE_FORWARD\<rparr>) (copy_attr m a n (ra_nexthop s))
      else if ty = RTA_OIF then Some (s\<lparr>ra_ifindex := mem32 m a\<rparr>)
      else Some s)"

text \<open>The first port whose TAP interface has the index, or \<open>-1\<close>.\<close>

fun port_scan :: "tun_port list \<Rightarrow> u32 \<Rightarrow> nat \<Rightarrow> int \<Rightarrow> int option" where
  "port_scan ps ifindex 0 i = Some (-1)"
| "port_scan [] ifindex (Suc n) i = None"
| "port_scan (p # ps) ifindex (Suc n) i =
     (if tun_ifindex_of p = ifindex then Some i else port_scan ps ifindex n (i + 1))"

definition port_of :: "ixmapfwd_thread \<Rightarrow> u32 \<Rightarrow> int option" where
  "port_of th ifindex = port_scan (tun_ports (th_tun th)) ifindex (unat (num_ports th)) 0"

definition netlink_route :: "ixmapfwd_thread \<Rightarrow> (addr \<Rightarrow> u8) \<Rightarrow> addr \<Rightarrow> ixmapfwd_thread option" where
  "netlink_route th m nlh = do {
     let rtm = nlh + 16;
     let family = int (unat (m rtm));
     let prefix_len = (ucast (m (rtm + 1)) :: u32);
     r \<leftarrow> rta_walk (route_attr m) m (rtm + 12) (sint (mem32 m nlh - 28))
       \<lparr>ra_prefix = replicate 16 0, ra_nexthop = replicate 16 0, ra_ifindex = -1, ra_type = FIB_TYPE_LINK\<rparr>;
     let type = (if m (rtm + 4) = RT_TABLE_LOCAL then FIB_TYPE_LOCAL else ra_type r);
     port_index \<leftarrow> port_of th (ra_ifindex r);
     (if family = AF_INET \<or> family = AF_INET6 then do {
        let fib = (if family = AF_INET then fib_inet th else fib_inet6 th);
        (fib', w) \<leftarrow>
          (if mem16 m (nlh + 4) = RTM_NEWROUTE then
             map_option snd (fib_route_update (th_mem th) fib family type (ra_prefix r) prefix_len (ra_nexthop r) port_index (ra_ifindex r))
           else if mem16 m (nlh + 4) = RTM_DELROUTE then
             map_option snd (fib_route_delete (th_mem th) fib family (ra_prefix r) prefix_len (ra_ifindex r))
           else Some (fib, th_mem th));
        Some (if family = AF_INET then th\<lparr>fib_inet := fib', th_mem := w\<rparr> else th\<lparr>fib_inet6 := fib', th_mem := w\<rparr>) }
      else Some th) }"

section \<open>Neighbours\<close>

definition neigh_attr :: "(addr \<Rightarrow> u8) \<Rightarrow> u16 \<Rightarrow> addr \<Rightarrow> nat \<Rightarrow> u8 list \<times> u8 list \<Rightarrow> (u8 list \<times> u8 list) option" where
  "neigh_attr m ty a n s =
     (if ty = NDA_DST then map_option (\<lambda>x. (x, snd s)) (copy_attr m a n (fst s))
      else if ty = NDA_LLADDR then map_option (\<lambda>x. (fst s, x)) (copy_attr m a n (snd s))
      else Some s)"

definition netlink_neigh :: "ixmapfwd_thread \<Rightarrow> (addr \<Rightarrow> u8) \<Rightarrow> addr \<Rightarrow> ixmapfwd_thread option" where
  "netlink_neigh th m nlh = do {
     let ndm = nlh + 16;
     let family = int (unat (m ndm));
     port_index \<leftarrow> port_of th (mem32 m (ndm + 4));
     (if port_index < 0 then Some th
      else do {
        (dst, mac) \<leftarrow> rta_walk (neigh_attr m) m (ndm + 12) (sint (mem32 m nlh - 28)) (replicate 16 0, replicate 6 0);
        (if family = AF_INET \<or> family = AF_INET6 then do {
           let ts = (if family = AF_INET then neigh_inet th else neigh_inet6 th);
           (if nat port_index < length ts then do {
              let neigh = ts ! nat port_index;
              (neigh', w) \<leftarrow>
                (if mem16 m (nlh + 4) = RTM_NEWNEIGH then map_option snd (neigh_add (th_mem th) neigh family dst mac)
                 else if mem16 m (nlh + 4) = RTM_DELNEIGH then map_option snd (neigh_delete (th_mem th) neigh family dst)
                 else Some (neigh, th_mem th));
              let ts' = ts[nat port_index := neigh'];
              Some (if family = AF_INET then th\<lparr>neigh_inet := ts', th_mem := w\<rparr> else th\<lparr>neigh_inet6 := ts', th_mem := w\<rparr>) }
            else None) }
         else Some th) }) }"

section \<open>The loop over the messages\<close>

definition netlink_message :: "ixmapfwd_thread \<Rightarrow> (addr \<Rightarrow> u8) \<Rightarrow> addr \<Rightarrow> ixmapfwd_thread option" where
  "netlink_message th m nlh =
     (let ty = mem16 m (nlh + 4)
      in if ty = RTM_NEWROUTE \<or> ty = RTM_DELROUTE then netlink_route th m nlh
         else if ty = RTM_NEWNEIGH \<or> ty = RTM_DELNEIGH then netlink_neigh th m nlh
         else Some th)"

function netlink_walk :: "(addr \<Rightarrow> u8) \<Rightarrow> addr \<Rightarrow> int \<Rightarrow> ixmapfwd_thread \<Rightarrow> ixmapfwd_thread option" where
  "netlink_walk m nlh len th =
     (if nlmsg_ok m nlh len then do {
        th1 \<leftarrow> netlink_message th m nlh;
        netlink_walk m (nlh + align4 (unat (mem32 m nlh))) (len - int (align4 (unat (mem32 m nlh)))) th1 }
      else Some th)"
  by pat_completeness auto
termination
  by (relation "measure (\<lambda>(m, nlh, len, th). nat len)") (auto simp: nlmsg_ok_def align4_def word_le_nat_alt)

declare netlink_walk.simps [simp del]

definition netlink_process :: "ixmapfwd_thread \<Rightarrow> (addr \<Rightarrow> u8) \<Rightarrow> addr \<Rightarrow> int \<Rightarrow> ixmapfwd_thread option" where
  "netlink_process th m read_buf read_size = netlink_walk m read_buf read_size th"

section \<open>Messages as the kernel writes them\<close>

text \<open>
  The encoding of messages that \<open>rtnetlink\<close> documents: attributes are padded to a multiple of 4 bytes, the
  length of an attribute counts its header and not its padding.
\<close>

definition bytes32 :: "u32 \<Rightarrow> u8 list" where
  "bytes32 v = [ucast v, ucast (drop_bit 8 v), ucast (drop_bit 16 v), ucast (drop_bit 24 v)]"

definition enc_attr :: "u16 \<times> u8 list \<Rightarrow> u8 list" where
  "enc_attr x = (let n = 4 + length (snd x)
                 in bytes16 (of_nat n) @ bytes16 (fst x) @ snd x @ replicate (align4 n - n) 0)"

definition enc_attrs :: "(u16 \<times> u8 list) list \<Rightarrow> u8 list" where
  "enc_attrs xs = concat (map enc_attr xs)"

text \<open>A message: its type, the 12 bytes of its family header, and its attributes.\<close>

record nl_msg =
  nl_type :: u16
  nl_head :: "u8 list"
  nl_attrs :: "(u16 \<times> u8 list) list"

definition enc_msg :: "nl_msg \<Rightarrow> u8 list" where
  "enc_msg x = bytes32 (of_nat (28 + length (enc_attrs (nl_attrs x)))) @ bytes16 (nl_type x) @ replicate 10 0
     @ nl_head x @ enc_attrs (nl_attrs x)"

definition enc_msgs :: "nl_msg list \<Rightarrow> u8 list" where
  "enc_msgs xs = concat (map enc_msg xs)"

definition holds :: "(addr \<Rightarrow> u8) \<Rightarrow> addr \<Rightarrow> u8 list \<Rightarrow> bool" where
  "holds m a bs \<longleftrightarrow> bytes m a (length bs) = bs"

text \<open>The value of an attribute, padded with zeros to the length of the array it is copied to.\<close>

definition attr_value :: "(u16 \<times> u8 list) list \<Rightarrow> u16 \<Rightarrow> nat \<Rightarrow> u8 list" where
  "attr_value xs ty n = (case map_of xs ty of None \<Rightarrow> replicate n 0 | Some p \<Rightarrow> p @ replicate (n - length p) 0)"

text \<open>What a message asks for: one operation on one table of the thread.\<close>

definition route_request :: "ixmapfwd_thread \<Rightarrow> nl_msg \<Rightarrow> ixmapfwd_thread option" where
  "route_request th x = do {
     let family = int (unat (nl_head x ! 0));
     let prefix_len = (ucast (nl_head x ! 1) :: u32);
     let prefix = attr_value (nl_attrs x) RTA_DST 16;
     let nexthop = attr_value (nl_attrs x) RTA_GATEWAY 16;
     let oif = (case map_of (nl_attrs x) RTA_OIF of None \<Rightarrow> -1 | Some p \<Rightarrow> load32 p 0);
     let type = (if nl_head x ! 4 = RT_TABLE_LOCAL then FIB_TYPE_LOCAL
                 else if map_of (nl_attrs x) RTA_GATEWAY = None then FIB_TYPE_LINK else FIB_TYPE_FORWARD);
     port_index \<leftarrow> port_of th oif;
     (if family = AF_INET \<or> family = AF_INET6 then do {
        let fib = (if family = AF_INET then fib_inet th else fib_inet6 th);
        (ret, fib', w) \<leftarrow>
          (if nl_type x = RTM_NEWROUTE then fib_route_update (th_mem th) fib family type prefix prefix_len nexthop port_index oif
           else fib_route_delete (th_mem th) fib family prefix prefix_len oif);
        Some (if family = AF_INET then th\<lparr>fib_inet := fib', th_mem := w\<rparr> else th\<lparr>fib_inet6 := fib', th_mem := w\<rparr>) }
      else Some th) }"

definition neigh_request :: "ixmapfwd_thread \<Rightarrow> nl_msg \<Rightarrow> ixmapfwd_thread option" where
  "neigh_request th x = do {
     let family = int (unat (nl_head x ! 0));
     let dst = attr_value (nl_attrs x) NDA_DST 16;
     let mac = attr_value (nl_attrs x) NDA_LLADDR 6;
     port_index \<leftarrow> port_of th (load32 (nl_head x) 4);
     (if port_index < 0 then Some th
      else if family = AF_INET \<or> family = AF_INET6 then do {
        let ts = (if family = AF_INET then neigh_inet th else neigh_inet6 th);
        (if nat port_index < length ts then do {
           (ret, neigh', w) \<leftarrow>
             (if nl_type x = RTM_NEWNEIGH then neigh_add (th_mem th) (ts ! nat port_index) family dst mac
              else neigh_delete (th_mem th) (ts ! nat port_index) family dst);
           let ts' = ts[nat port_index := neigh'];
           Some (if family = AF_INET then th\<lparr>neigh_inet := ts', th_mem := w\<rparr> else th\<lparr>neigh_inet6 := ts', th_mem := w\<rparr>) }
         else None) }
      else Some th) }"

fun netlink_requests :: "ixmapfwd_thread \<Rightarrow> nl_msg list \<Rightarrow> ixmapfwd_thread option" where
  "netlink_requests th [] = Some th"
| "netlink_requests th (x # xs) = do {
     th1 \<leftarrow> (if nl_type x \<in> {RTM_NEWROUTE, RTM_DELROUTE} then route_request th x
             else if nl_type x \<in> {RTM_NEWNEIGH, RTM_DELNEIGH} then neigh_request th x
             else Some th);
     netlink_requests th1 xs }"

text \<open>The kernel writes each attribute once, addresses of at most 16 bytes, link addresses of 6, indices of 4.\<close>

definition attr_fits :: "u16 \<Rightarrow> u16 \<times> u8 list \<Rightarrow> bool" where
  "attr_fits ty x \<longleftrightarrow> length (snd x) < 65532 \<and>
     (if ty \<in> {RTM_NEWROUTE, RTM_DELROUTE} then
        (fst x \<in> {RTA_DST, RTA_GATEWAY} \<longrightarrow> length (snd x) \<le> 16) \<and> (fst x = RTA_OIF \<longrightarrow> length (snd x) = 4)
      else (fst x = NDA_DST \<longrightarrow> length (snd x) \<le> 16) \<and> (fst x = NDA_LLADDR \<longrightarrow> length (snd x) \<le> 6))"

definition nl_msg_wf :: "nl_msg \<Rightarrow> bool" where
  "nl_msg_wf x \<longleftrightarrow> length (nl_head x) = 12 \<and> distinct (map fst (nl_attrs x)) \<and> list_all (attr_fits (nl_type x)) (nl_attrs x)"

section \<open>Reading back what was written\<close>

lemma mem32_eq: "mem32 m a = ucast (m a) OR push_bit 8 (ucast (m (a + 1)))
     OR push_bit 16 (ucast (m (a + 2))) OR push_bit 24 (ucast (m (a + 3)))"
  by (simp add: mem32_def load32_def)

lemma holds_append: "holds m a (xs @ ys) \<longleftrightarrow> holds m a xs \<and> holds m (a + length xs) ys"
proof -
  have "bytes m a (length xs + length ys) = bytes m a (length xs) @ bytes m (a + length xs) (length ys)"
    unfolding bytes_def by (simp only: add.assoc [symmetric] upt_add_eq_append [of a "a + length xs" "length ys"] map_append)
  then show ?thesis by (simp add: holds_def)
qed

lemma holds_nth: "holds m a xs \<Longrightarrow> i < length xs \<Longrightarrow> m (a + i) = xs ! i"
  unfolding holds_def by (metis nth_bytes)

lemma length_bytes16 [simp]: "length (bytes16 v) = 2" by (simp add: bytes16_def)
lemma length_bytes32 [simp]: "length (bytes32 v) = 4" by (simp add: bytes32_def)

lemma mem16_holds:
  assumes "holds m a (bytes16 v)"
  shows "mem16 m a = v"
proof -
  have "m a = bytes16 v ! 0" "m (a + 1) = bytes16 v ! 1"
    using holds_nth [OF assms, of 0] holds_nth [OF assms, of 1] by simp_all
  then show ?thesis unfolding mem16_def load16_bytes bytes16_def
    by (intro bit_word_eqI) (auto simp: bit_simps)
qed

lemma mem32_holds:
  assumes "holds m a (bytes32 v)"
  shows "mem32 m a = v"
proof -
  have "m a = bytes32 v ! 0" "m (a + 1) = bytes32 v ! 1" "m (a + 2) = bytes32 v ! 2" "m (a + 3) = bytes32 v ! 3"
    using holds_nth [OF assms, of 0] holds_nth [OF assms, of 1] holds_nth [OF assms, of 2] holds_nth [OF assms, of 3] by simp_all
  then show ?thesis unfolding mem32_eq bytes32_def
    by (intro bit_word_eqI, rename_tac n) (case_tac "n < 8"; case_tac "n < 16"; case_tac "n < 24"; auto simp: bit_simps)
qed

lemma align4_props: "n \<le> align4 n" "4 dvd align4 n" "4 dvd n \<Longrightarrow> align4 n = n" "align4 n < n + 4"
  unfolding align4_def by presburger+

lemma length_enc_attr: "length (enc_attr x) = align4 (4 + length (snd x))"
  using align4_props(1) [of "4 + length (snd x)"] by (simp add: enc_attr_def Let_def)

lemma dvd_enc_attrs: "4 dvd length (enc_attrs xs)"
  by (induction xs) (simp_all add: enc_attrs_def length_enc_attr align4_props(2))

text \<open>One attribute: its length, its type and its payload are read back.\<close>

lemma enc_attr_read:
  assumes h: "holds m a (enc_attr x)" and l: "length (snd x) < 65532"
  shows "unat (mem16 m a) = 4 + length (snd x)" "mem16 m (a + 2) = fst x" "holds m (a + 4) (snd x)"
proof -
  have "holds m a (bytes16 (of_nat (4 + length (snd x))))" "holds m (a + 2) (bytes16 (fst x))" "holds m (a + 4) (snd x)"
    using h by (simp_all add: enc_attr_def Let_def holds_append add.commute [of 4] del: add_2_eq_Suc add_2_eq_Suc')
  then show "unat (mem16 m a) = 4 + length (snd x)" "mem16 m (a + 2) = fst x" "holds m (a + 4) (snd x)"
    using l by (simp_all add: mem16_holds unat_of_nat del: of_nat_add)
qed

text \<open>The loop over the attributes is a fold over the attributes that were written.\<close>

fun attrs_fold :: "(u16 \<Rightarrow> u8 list \<Rightarrow> 's \<Rightarrow> 's) \<Rightarrow> (u16 \<times> u8 list) list \<Rightarrow> 's \<Rightarrow> 's" where
  "attrs_fold g [] s = s"
| "attrs_fold g (x # xs) s = attrs_fold g xs (g (fst x) (snd x) s)"

lemma rta_walk_attrs:
  assumes "holds m a (enc_attrs xs)" "list_all P xs" "I s"
    and "\<And>x. P x \<Longrightarrow> length (snd x) < 65532"
    and f: "\<And>a x s. P x \<Longrightarrow> I s \<Longrightarrow> holds m a (snd x) \<Longrightarrow> f (fst x) a (length (snd x)) s = Some (g (fst x) (snd x) s)"
    and I: "\<And>x s. P x \<Longrightarrow> I s \<Longrightarrow> I (g (fst x) (snd x) s)"
  shows "rta_walk f m a (int (length (enc_attrs xs))) s = Some (attrs_fold g xs s)"
  using assms(1-3)
proof (induction xs arbitrary: a s)
  case Nil
  then show ?case by (simp add: enc_attrs_def rta_walk.simps [of _ _ _ 0] rta_ok_def)
next
  case (Cons x xs)
  let ?n = "4 + length (snd x)"
  have e: "enc_attrs (x # xs) = enc_attr x @ enc_attrs xs" by (simp add: enc_attrs_def)
  have h: "holds m a (enc_attr x)" "holds m (a + align4 ?n) (enc_attrs xs)" and P: "P x" "list_all P xs"
    using Cons.prems by (simp_all add: e holds_append length_enc_attr)
  note r = enc_attr_read [OF h(1) assms(4) [OF P(1)]]
  have ok: "rta_ok m a (int (length (enc_attrs (x # xs))))"
    using r(1) align4_props(1) [of ?n] unfolding rta_ok_def e by (simp add: length_enc_attr word_le_nat_alt)
  have n: "int (length (enc_attrs (x # xs))) - int (align4 ?n) = int (length (enc_attrs xs))"
    by (simp add: e length_enc_attr)
  show ?case
    unfolding rta_walk.simps [of f m a "int (length (enc_attrs (x # xs)))"]
    using ok r f [OF P(1) Cons.prems(3) r(3)] n
      Cons.IH [OF h(2) P(2) I [OF P(1) Cons.prems(3)]] by simp
qed

text \<open>The attributes of a route and of a neighbour.\<close>

definition route_set :: "u16 \<Rightarrow> u8 list \<Rightarrow> route_attrs \<Rightarrow> route_attrs" where
  "route_set ty p s =
     (if ty = RTA_DST then s\<lparr>ra_prefix := memcpy (ra_prefix s) p (length p)\<rparr>
      else if ty = RTA_GATEWAY then s\<lparr>ra_nexthop := memcpy (ra_nexthop s) p (length p), ra_type := FIB_TYPE_FORWARD\<rparr>
      else if ty = RTA_OIF then s\<lparr>ra_ifindex := load32 p 0\<rparr>
      else s)"

definition neigh_set :: "u16 \<Rightarrow> u8 list \<Rightarrow> u8 list \<times> u8 list \<Rightarrow> u8 list \<times> u8 list" where
  "neigh_set ty p s =
     (if ty = NDA_DST then (memcpy (fst s) p (length p), snd s)
      else if ty = NDA_LLADDR then (fst s, memcpy (snd s) p (length p))
      else s)"

lemmas attr_types = RTA_DST_def RTA_GATEWAY_def RTA_OIF_def NDA_DST_def NDA_LLADDR_def
lemmas msg_types = RTM_NEWROUTE_def RTM_DELROUTE_def RTM_NEWNEIGH_def RTM_DELNEIGH_def

lemma copy_attr_holds: "holds m a p \<Longrightarrow> length p \<le> length arr \<Longrightarrow> copy_attr m a (length p) arr = Some (memcpy arr p (length p))"
  by (simp add: copy_attr_def holds_def)

lemma length_memcpy: "length p \<le> length arr \<Longrightarrow> length (memcpy arr p (length p)) = length arr"
  by (simp add: memcpy_def)

lemma memcpy_zeros: "memcpy (replicate n 0) p (length p) = p @ replicate (n - length p) 0"
  by (simp add: memcpy_def)

lemma attrs_fold_route:
  assumes "distinct (map fst xs)"
  shows "ra_prefix (attrs_fold route_set xs s) = (case map_of xs RTA_DST of None \<Rightarrow> ra_prefix s | Some p \<Rightarrow> memcpy (ra_prefix s) p (length p))"
    and "ra_nexthop (attrs_fold route_set xs s) = (case map_of xs RTA_GATEWAY of None \<Rightarrow> ra_nexthop s | Some p \<Rightarrow> memcpy (ra_nexthop s) p (length p))"
    and "ra_ifindex (attrs_fold route_set xs s) = (case map_of xs RTA_OIF of None \<Rightarrow> ra_ifindex s | Some p \<Rightarrow> load32 p 0)"
    and "ra_type (attrs_fold route_set xs s) = (case map_of xs RTA_GATEWAY of None \<Rightarrow> ra_type s | Some p \<Rightarrow> FIB_TYPE_FORWARD)"
proof -
  have n: "map_of xs t = None" if "t \<notin> fst ` set xs" for t :: u16 and xs :: "(u16 \<times> u8 list) list"
    using that by (simp add: map_of_eq_None_iff)
  have d: "t \<in> fst ` set xs" if "(t, p) \<in> set xs" for t :: u16 and p :: "u8 list" and xs
    using that by force
  show "ra_prefix (attrs_fold route_set xs s) = (case map_of xs RTA_DST of None \<Rightarrow> ra_prefix s | Some p \<Rightarrow> memcpy (ra_prefix s) p (length p))"
    using assms by (induction xs arbitrary: s) (auto simp: route_set_def n attr_types dest: d split: option.splits)
  show "ra_nexthop (attrs_fold route_set xs s) = (case map_of xs RTA_GATEWAY of None \<Rightarrow> ra_nexthop s | Some p \<Rightarrow> memcpy (ra_nexthop s) p (length p))"
    using assms by (induction xs arbitrary: s) (auto simp: route_set_def n attr_types dest: d split: option.splits)
  show "ra_ifindex (attrs_fold route_set xs s) = (case map_of xs RTA_OIF of None \<Rightarrow> ra_ifindex s | Some p \<Rightarrow> load32 p 0)"
    using assms by (induction xs arbitrary: s) (auto simp: route_set_def n attr_types dest: d split: option.splits)
  show "ra_type (attrs_fold route_set xs s) = (case map_of xs RTA_GATEWAY of None \<Rightarrow> ra_type s | Some p \<Rightarrow> FIB_TYPE_FORWARD)"
    using assms by (induction xs arbitrary: s) (auto simp: route_set_def n attr_types dest: d split: option.splits)
qed

lemma attrs_fold_neigh:
  assumes "distinct (map fst xs)"
  shows "attrs_fold neigh_set xs s =
    ((case map_of xs NDA_DST of None \<Rightarrow> fst s | Some p \<Rightarrow> memcpy (fst s) p (length p)),
     (case map_of xs NDA_LLADDR of None \<Rightarrow> snd s | Some p \<Rightarrow> memcpy (snd s) p (length p)))"
proof -
  have n: "map_of xs t = None" if "t \<notin> fst ` set xs" for t :: u16 and xs :: "(u16 \<times> u8 list) list"
    using that by (simp add: map_of_eq_None_iff)
  have d: "t \<in> fst ` set xs" if "(t, p) \<in> set xs" for t :: u16 and p :: "u8 list" and xs
    using that by force
  show ?thesis
    using assms by (induction xs arbitrary: s) (auto simp: neigh_set_def n attr_types dest: d split: option.splits)
qed

lemma attr_fitsD:
  assumes "attr_fits ty x"
  shows "length (snd x) < 65532"
    "ty \<in> {RTM_NEWROUTE, RTM_DELROUTE} \<Longrightarrow> fst x \<in> {RTA_DST, RTA_GATEWAY} \<Longrightarrow> length (snd x) \<le> 16"
    "ty \<in> {RTM_NEWROUTE, RTM_DELROUTE} \<Longrightarrow> fst x = RTA_OIF \<Longrightarrow> length (snd x) = 4"
    "ty \<notin> {RTM_NEWROUTE, RTM_DELROUTE} \<Longrightarrow> fst x = NDA_DST \<Longrightarrow> length (snd x) \<le> 16"
    "ty \<notin> {RTM_NEWROUTE, RTM_DELROUTE} \<Longrightarrow> fst x = NDA_LLADDR \<Longrightarrow> length (snd x) \<le> 6"
  using assms by (auto simp: attr_fits_def split: if_splits)

text \<open>The arrays keep their lengths, and each attribute is copied as it was written.\<close>

definition route_arrays :: "route_attrs \<Rightarrow> bool" where
  "route_arrays s \<longleftrightarrow> length (ra_prefix s) = 16 \<and> length (ra_nexthop s) = 16"

definition neigh_arrays :: "u8 list \<times> u8 list \<Rightarrow> bool" where
  "neigh_arrays s \<longleftrightarrow> length (fst s) = 16 \<and> length (snd s) = 6"

lemma route_set_arrays:
  "attr_fits ty x \<Longrightarrow> ty \<in> {RTM_NEWROUTE, RTM_DELROUTE} \<Longrightarrow> route_arrays s \<Longrightarrow> route_arrays (route_set (fst x) (snd x) s)"
  using attr_fitsD(2) [of ty x] by (simp add: route_arrays_def route_set_def length_memcpy)

lemma neigh_set_arrays:
  "attr_fits ty x \<Longrightarrow> ty \<notin> {RTM_NEWROUTE, RTM_DELROUTE} \<Longrightarrow> neigh_arrays s \<Longrightarrow> neigh_arrays (neigh_set (fst x) (snd x) s)"
  using attr_fitsD(4,5) [of ty x] by (simp add: neigh_arrays_def neigh_set_def length_memcpy)

lemma route_attr_step:
  assumes "attr_fits ty x" "ty \<in> {RTM_NEWROUTE, RTM_DELROUTE}" "route_arrays s" "holds m a (snd x)"
  shows "route_attr m (fst x) a (length (snd x)) s = Some (route_set (fst x) (snd x) s)"
proof -
  have "fst x = RTA_OIF \<Longrightarrow> mem32 m a = load32 (snd x) 0"
    using attr_fitsD(3) [OF assms(1,2)] assms(4) by (simp add: mem32_def holds_def)
  then show ?thesis
    using attr_fitsD(2) [OF assms(1,2)] assms(3)
      copy_attr_holds [OF assms(4), of "ra_prefix s"] copy_attr_holds [OF assms(4), of "ra_nexthop s"]
    by (simp add: route_attr_def route_set_def route_arrays_def)
qed

lemma neigh_attr_step:
  assumes "attr_fits ty x" "ty \<notin> {RTM_NEWROUTE, RTM_DELROUTE}" "neigh_arrays s" "holds m a (snd x)"
  shows "neigh_attr m (fst x) a (length (snd x)) s = Some (neigh_set (fst x) (snd x) s)"
  using attr_fitsD(4,5) [OF assms(1,2)] assms(3)
    copy_attr_holds [OF assms(4), of "fst s"] copy_attr_holds [OF assms(4), of "snd s"]
  by (simp add: neigh_attr_def neigh_set_def neigh_arrays_def)

section \<open>The tables after a batch of messages\<close>

lemma length_enc_msg: "nl_msg_wf x \<Longrightarrow> length (enc_msg x) = 28 + length (enc_attrs (nl_attrs x))"
  by (simp add: enc_msg_def nl_msg_wf_def)

lemma enc_msg_read:
  assumes "holds m a (enc_msg x)" "nl_msg_wf x" "length (enc_msg x) < 2 ^ 31"
  shows "unat (mem32 m a) = length (enc_msg x)" "sint (mem32 m a - 28) = int (length (enc_attrs (nl_attrs x)))"
    "mem16 m (a + 4) = nl_type x" "holds m (a + 16) (nl_head x)" "holds m (a + 28) (enc_attrs (nl_attrs x))"
proof -
  let ?n = "length (enc_attrs (nl_attrs x))"
  have n: "28 + ?n < 2 ^ 31" "length (enc_msg x) = 28 + ?n" "length (nl_head x) = 12"
    using assms(2,3) length_enc_msg by (auto simp: nl_msg_wf_def)
  have "holds m a (bytes32 (of_nat (28 + ?n)))" "holds m (a + 4) (bytes16 (nl_type x))"
    "holds m (a + 16) (nl_head x)" "holds m (a + 28) (enc_attrs (nl_attrs x))"
    using assms(1) n(3)
    by (simp_all add: enc_msg_def holds_append add.commute [of 4] add.commute [of 16] add.commute [of 28] del: of_nat_add)
  note h = this
  have v: "mem32 m a = of_nat (28 + ?n)" using h(1) by (rule mem32_holds)
  have "sint (of_nat ?n :: u32) = int ?n" using n(1) by (simp add: sint_uint signed_take_bit_int_eq_self uint_nat unat_of_nat)
  then show "sint (mem32 m a - 28) = int ?n" "mem16 m (a + 4) = nl_type x" "holds m (a + 16) (nl_head x)"
    "holds m (a + 28) (enc_attrs (nl_attrs x))" using h v by (simp_all add: mem16_holds)
  show "unat (mem32 m a) = length (enc_msg x)" unfolding v n(2) using n(1) by (simp add: unat_of_nat del: of_nat_add)
qed

lemma attr_value_copy:
  "attr_value xs ty n = (case map_of xs ty of None \<Rightarrow> replicate n 0 | Some p \<Rightarrow> memcpy (replicate n 0) p (length p))"
  by (simp add: attr_value_def memcpy_zeros split: option.splits)

lemma bind_snd: "Option.bind (map_option snd x) f = Option.bind x (\<lambda>(ret, y). f y)"
  by (cases x) auto

lemma if_bind: "Option.bind (if c then x else y) f = (if c then Option.bind x f else Option.bind y f)"
  by simp

lemma netlink_route_request:
  assumes "holds m a (enc_msg x)" "nl_msg_wf x" "length (enc_msg x) < 2 ^ 31" "nl_type x \<in> {RTM_NEWROUTE, RTM_DELROUTE}"
  shows "netlink_route th m a = route_request th x"
proof -
  let ?s = "\<lparr>ra_prefix = replicate 16 0, ra_nexthop = replicate 16 0, ra_ifindex = -1, ra_type = FIB_TYPE_LINK\<rparr>"
  note r = enc_msg_read [OF assms(1-3)]
  have wf: "length (nl_head x) = 12" "distinct (map fst (nl_attrs x))" "list_all (attr_fits (nl_type x)) (nl_attrs x)"
    using assms(2) by (simp_all add: nl_msg_wf_def)
  have w: "rta_walk (route_attr m) m (a + 28) (int (length (enc_attrs (nl_attrs x)))) ?s = Some (attrs_fold route_set (nl_attrs x) ?s)"
    by (rule rta_walk_attrs [OF r(5) wf(3), where I = route_arrays])
      (simp_all add: route_arrays_def attr_fitsD(1) route_attr_step [OF _ assms(4), unfolded route_arrays_def]
         route_set_arrays [OF _ assms(4), unfolded route_arrays_def])
  have hd: "m (a + 16) = nl_head x ! 0" "m (a + 17) = nl_head x ! 1" "m (a + 20) = nl_head x ! 4"
    using holds_nth [OF r(4), of 0] holds_nth [OF r(4), of 1] holds_nth [OF r(4), of 4] wf(1) by (simp_all add: add.commute)
  have ty: "(nl_type x = RTM_DELROUTE) = (nl_type x \<noteq> RTM_NEWROUTE)" using assms(4) by (auto simp: msg_types)
  have f: "ra_prefix (attrs_fold route_set (nl_attrs x) ?s) = attr_value (nl_attrs x) RTA_DST 16"
    "ra_nexthop (attrs_fold route_set (nl_attrs x) ?s) = attr_value (nl_attrs x) RTA_GATEWAY 16"
    "ra_ifindex (attrs_fold route_set (nl_attrs x) ?s) = (case map_of (nl_attrs x) RTA_OIF of None \<Rightarrow> -1 | Some p \<Rightarrow> load32 p 0)"
    "ra_type (attrs_fold route_set (nl_attrs x) ?s) = (if map_of (nl_attrs x) RTA_GATEWAY = None then FIB_TYPE_LINK else FIB_TYPE_FORWARD)"
    by (simp_all only: attrs_fold_route [OF wf(2)] attr_value_copy) (simp_all split: option.split)
  show ?thesis
    unfolding netlink_route_def route_request_def Let_def add.assoc
    by (simp add: hd r(2,3) w ty f bind_snd if_bind cong: if_cong)
qed

lemma netlink_neigh_request:
  assumes "holds m a (enc_msg x)" "nl_msg_wf x" "length (enc_msg x) < 2 ^ 31" "nl_type x \<in> {RTM_NEWNEIGH, RTM_DELNEIGH}"
  shows "netlink_neigh th m a = neigh_request th x"
proof -
  let ?s = "(replicate 16 0, replicate 6 0) :: u8 list \<times> u8 list"
  note r = enc_msg_read [OF assms(1-3)]
  have nr: "nl_type x \<notin> {RTM_NEWROUTE, RTM_DELROUTE}" using assms(4) by (auto simp: msg_types)
  have wf: "length (nl_head x) = 12" "distinct (map fst (nl_attrs x))" "list_all (attr_fits (nl_type x)) (nl_attrs x)"
    using assms(2) by (simp_all add: nl_msg_wf_def)
  have w: "rta_walk (neigh_attr m) m (a + 28) (int (length (enc_attrs (nl_attrs x)))) ?s = Some (attrs_fold neigh_set (nl_attrs x) ?s)"
    by (rule rta_walk_attrs [OF r(5) wf(3), where I = neigh_arrays])
      (simp_all add: neigh_arrays_def attr_fitsD(1) neigh_attr_step [OF _ nr, unfolded neigh_arrays_def]
         neigh_set_arrays [OF _ nr, unfolded neigh_arrays_def])
  have hd: "m (a + 16) = nl_head x ! 0" "mem32 m (a + 20) = load32 (nl_head x) 4"
    using holds_nth [OF r(4), of 0] holds_nth [OF r(4), of 4] holds_nth [OF r(4), of 5] holds_nth [OF r(4), of 6]
      holds_nth [OF r(4), of 7] wf(1) by (simp_all add: mem32_eq load32_def add.commute)
  have ty: "(nl_type x = RTM_DELNEIGH) = (nl_type x \<noteq> RTM_NEWNEIGH)" using assms(4) by (auto simp: msg_types)
  have f: "attrs_fold neigh_set (nl_attrs x) ?s = (attr_value (nl_attrs x) NDA_DST 16, attr_value (nl_attrs x) NDA_LLADDR 6)"
    by (simp only: attrs_fold_neigh [OF wf(2)] attr_value_copy fst_conv snd_conv)
  show ?thesis
    unfolding netlink_neigh_def neigh_request_def Let_def add.assoc
    by (simp add: hd r(2,3) w ty f bind_snd if_bind cong: if_cong)
qed

lemma netlink_message_request:
  assumes "holds m a (enc_msg x)" "nl_msg_wf x" "length (enc_msg x) < 2 ^ 31"
  shows "netlink_message th m a =
    (if nl_type x \<in> {RTM_NEWROUTE, RTM_DELROUTE} then route_request th x
     else if nl_type x \<in> {RTM_NEWNEIGH, RTM_DELNEIGH} then neigh_request th x
     else Some th)"
  using netlink_route_request [OF assms] netlink_neigh_request [OF assms] enc_msg_read(3) [OF assms]
  by (simp add: netlink_message_def Let_def)

lemma netlink_walk_requests:
  assumes "holds m a (enc_msgs xs)" "list_all nl_msg_wf xs" "length (enc_msgs xs) < 2 ^ 31"
  shows "netlink_walk m a (int (length (enc_msgs xs))) th = netlink_requests th xs"
  using assms
proof (induction xs arbitrary: a th)
  case Nil
  then show ?case by (simp add: enc_msgs_def netlink_walk.simps [of _ _ 0] nlmsg_ok_def)
next
  case (Cons x xs)
  have e: "enc_msgs (x # xs) = enc_msg x @ enc_msgs xs" by (simp add: enc_msgs_def)
  have wf: "nl_msg_wf x" "list_all nl_msg_wf xs" and l: "length (enc_msg x) < 2 ^ 31" "length (enc_msgs xs) < 2 ^ 31"
    and h: "holds m a (enc_msg x)" "holds m (a + length (enc_msg x)) (enc_msgs xs)"
    using Cons.prems by (simp_all add: e holds_append)
  note r = enc_msg_read(1) [OF h(1) wf(1) l(1)]
  have n: "length (enc_msg x) \<ge> 16" "align4 (length (enc_msg x)) = length (enc_msg x)"
    using dvd_enc_attrs [of "nl_attrs x"] by (simp_all add: length_enc_msg [OF wf(1)] align4_props(3))
  have ok: "nlmsg_ok m a (int (length (enc_msgs (x # xs))))"
    using r n(1) unfolding nlmsg_ok_def e by (simp add: word_le_nat_alt)
  have ih: "netlink_walk m (a + length (enc_msg x)) (int (length (enc_msgs xs))) = (\<lambda>th. netlink_requests th xs)"
    using Cons.IH [OF h(2) wf(2) l(2)] by (rule ext)
  show ?case
    unfolding netlink_walk.simps [of m a "int (length (enc_msgs (x # xs)))"] netlink_message_request [OF h(1) wf(1) l(1)]
      netlink_requests.simps r n(2)
    using ok by (simp add: e ih)
qed

text \<open>
  C30.  \<open>netlink_process\<close> carries out what the kernel announces: for a buffer that holds any sequence of
  encoded messages, with any attributes in any order, the thread ends as if the requests had been carried out
  one after the other, each with the prefix, gateway, link address, interface and table of its message.\<close>
theorem netlink_process_requests:
  assumes "holds m read_buf (enc_msgs xs)" "list_all nl_msg_wf xs" "length (enc_msgs xs) < 2 ^ 31"
  shows "netlink_process th m read_buf (int (length (enc_msgs xs))) = netlink_requests th xs"
  using netlink_walk_requests [OF assms] by (simp add: netlink_process_def)

text \<open>A route to 10.1.0.0/16 through 10.0.0.1 on the first port, then a message of another type.\<close>

definition ex_nl_msgs :: "nl_msg list" where
  "ex_nl_msgs =
     [\<lparr>nl_type = RTM_NEWROUTE, nl_head = [2, 16, 0, 0, 254, 0, 0, 0, 0, 0, 0, 0],
        nl_attrs = [(RTA_DST, [10, 1, 0, 0]), (15, [0, 0, 0, 0]), (RTA_OIF, [3, 0, 0, 0]), (RTA_GATEWAY, [10, 0, 0, 1])]\<rparr>,
      \<lparr>nl_type = 16, nl_head = replicate 12 0, nl_attrs = []\<rparr>]"

definition ex_nl_mem :: "addr \<Rightarrow> u8" where
  "ex_nl_mem a = (if a < 88 then enc_msgs ex_nl_msgs ! a else 0)"

definition ex_nl_thread :: ixmapfwd_thread where
  "ex_nl_thread = ex_thread\<lparr>th_mem := ex_fw_world, fib_inet := ex_fib\<rparr>"

lemma ex_nl_length: "length (enc_msgs ex_nl_msgs) = 88"
  by (simp add: ex_nl_msgs_def enc_msgs_def enc_msg_def enc_attrs_def enc_attr_def Let_def align4_def)

lemma ex_nl_holds: "holds ex_nl_mem 0 (enc_msgs ex_nl_msgs)"
  unfolding holds_def by (rule nth_equalityI) (simp_all add: ex_nl_mem_def ex_nl_length)

lemma ex_nl_update:
  "map_option fst (fib_route_update ex_fw_world ex_fib AF_INET FIB_TYPE_FORWARD (10 # 1 # 0 # 0 # replicate 12 0) 16
     (10 # 0 # 0 # 1 # replicate 12 0) 0 3) = Some 0"
  by (simp add: ex_fw_world_def ex_fw_tree_def ex_fib_def fib_eval)

lemma ex_nl_requests: "\<exists>fib w. netlink_requests ex_nl_thread ex_nl_msgs = Some (ex_nl_thread\<lparr>fib_inet := fib, th_mem := w\<rparr>)"
proof -
  obtain fib w where "fib_route_update ex_fw_world ex_fib AF_INET FIB_TYPE_FORWARD (10 # 1 # 0 # 0 # replicate 12 0) 16
     (10 # 0 # 0 # 1 # replicate 12 0) 0 3 = Some (0, fib, w)" using ex_nl_update by auto
  moreover have "port_of ex_nl_thread 3 = Some 0" by (simp add: port_of_def ex_nl_thread_def ex_thread_def)
  moreover have "th_mem ex_nl_thread = ex_fw_world" "fib_inet ex_nl_thread = ex_fib" by (simp_all add: ex_nl_thread_def)
  ultimately show ?thesis
    by (intro exI [of _ fib] exI [of _ w])
      (simp add: ex_nl_msgs_def route_request_def attr_types msg_types attr_value_def load32_def RT_TABLE_LOCAL_def AF_INET_def)
qed

theorem netlink_process_requests_witness:
  "holds ex_nl_mem 0 (enc_msgs ex_nl_msgs) \<and> list_all nl_msg_wf ex_nl_msgs \<and> length (enc_msgs ex_nl_msgs) < 2 ^ 31 \<and>
   (\<exists>fib w. netlink_process ex_nl_thread ex_nl_mem 0 88 = Some (ex_nl_thread\<lparr>fib_inet := fib, th_mem := w\<rparr>))"
proof (intro conjI)
  show h: "holds ex_nl_mem 0 (enc_msgs ex_nl_msgs)" by (rule ex_nl_holds)
  show w: "list_all nl_msg_wf ex_nl_msgs"
    by (simp add: ex_nl_msgs_def nl_msg_wf_def attr_fits_def attr_types msg_types)
  show l: "length (enc_msgs ex_nl_msgs) < 2 ^ 31" by (simp add: ex_nl_length)
  show "\<exists>fib w. netlink_process ex_nl_thread ex_nl_mem 0 88 = Some (ex_nl_thread\<lparr>fib_inet := fib, th_mem := w\<rparr>)"
    using netlink_process_requests [OF h w l] ex_nl_requests by (simp add: ex_nl_length)
qed

end
