(* ===== verification/Thread.thy ===== *)
theory Thread
  imports Epoll Netlink "HOL-Library.While_Combinator"
begin

text \<open>
  The event loop of a thread, \<open>thread_wait\<close> of \<open>src/src/thread.c\<close>.  What the thread is told from outside is
  an environment: the events that the n-th \<open>epoll_wait\<close> returns, the data that the n-th \<open>read\<close> returns, and
  what the card has made of the rings and of the packet memory by then.  The loop is a \<open>while_option\<close> over an
  explicit state, so that a thread that never returns has no result.  The variable \<open>i\<close> of the source counts
  the events of a batch and is used again by the loops over the ports inside; the model keeps both uses.
\<close>

section \<open>The environment and the state\<close>

record wait_env =
  env_wait :: "nat \<Rightarrow> epoll_desc list option"
  env_read :: "nat \<Rightarrow> u8 list option"
  env_card :: "nat \<Rightarrow> ixmap_plane \<times> (addr \<Rightarrow> u8) \<Rightarrow> ixmap_plane \<times> (addr \<Rightarrow> u8)"

datatype outcome = Returned int | Fault

record wait_state =
  w_th :: ixmapfwd_thread
  w_buf :: "addr \<Rightarrow> u8"
  w_events :: "epoll_desc list"
  w_i :: nat
  w_waits :: nat
  w_reads :: nat
  w_out :: "outcome option"

definition EPOLL_MAXEVENTS :: nat where "EPOLL_MAXEVENTS = 16"

text \<open>The loops over all ports.\<close>

definition tx_xmit_all :: "ixmapfwd_thread \<Rightarrow> ixmapfwd_thread" where
  "tx_xmit_all th = th\<lparr>th_plane := fold (\<lambda>i plane. ixmap_tx_xmit plane i) [0..<unat (num_ports th)] (th_plane th)\<rparr>"

definition rx_assign_all :: "ixmapfwd_thread \<Rightarrow> ixmapfwd_thread" where
  "rx_assign_all th =
     (case fold (\<lambda>i (plane, buf). ixmap_rx_assign plane i buf) [0..<unat (num_ports th)] (th_plane th, th_buf th) of
        (plane, buf) \<Rightarrow> th\<lparr>th_plane := plane, th_buf := buf\<rparr>)"

text \<open>\<open>read\<close> puts the data at the start of \<open>read_buf\<close>.\<close>

definition read_fd :: "wait_env \<Rightarrow> nat \<Rightarrow> wait_state \<Rightarrow> u8 list option \<times> wait_state" where
  "read_fd E read_size st =
     (case env_read E (w_reads st) of
        None \<Rightarrow> (None, st\<lparr>w_reads := w_reads st + 1\<rparr>)
      | Some bs \<Rightarrow> (Some (take read_size bs), st\<lparr>w_reads := w_reads st + 1, w_buf := store 0 (take read_size bs) (w_buf st)\<rparr>))"

definition unmask :: "epoll_desc \<Rightarrow> ixmapfwd_thread \<Rightarrow> ixmapfwd_thread option" where
  "unmask d th = map_option (\<lambda>irqh. th\<lparr>th_plane := ixmap_irq_unmask_queues (th_plane th) (ep_port_index d) irqh\<rparr>) (ep_data d)"

text \<open>The thread that a handler leaves, or the end of the loop.\<close>

definition put_thread :: "nat \<Rightarrow> ixmapfwd_thread option \<Rightarrow> wait_state \<Rightarrow> wait_state" where
  "put_thread i r st = (case r of None \<Rightarrow> st\<lparr>w_i := i + 1, w_out := Some Fault\<rparr> | Some th \<Rightarrow> st\<lparr>w_th := th, w_i := i + 1\<rparr>)"

definition put_return :: "nat \<Rightarrow> int \<Rightarrow> wait_state \<Rightarrow> wait_state" where
  "put_return i ret st = st\<lparr>w_i := i + 1, w_out := Some (Returned ret)\<rparr>"

section \<open>One event\<close>

definition serve_rx :: "wait_env \<Rightarrow> nat \<Rightarrow> epoll_desc \<Rightarrow> wait_state \<Rightarrow> wait_state" where
  "serve_rx E read_size d st =
     (let th = w_th st; i = unat (num_ports th) in
      case ixmap_rx_clean (th_plane th) (ep_port_index d) (th_buf th) of
        (packet, plane) \<Rightarrow>
          (case forward_process (th\<lparr>th_plane := plane\<rparr>) (ep_port_index d) packet of
             None \<Rightarrow> put_thread i None st
           | Some th1 \<Rightarrow>
               let th2 = tx_xmit_all th1
               in case read_fd E read_size (st\<lparr>w_th := th2\<rparr>) of
                    (None, st1) \<Rightarrow> put_return i (-1) st1
                  | (Some bs, st1) \<Rightarrow> put_thread i (unmask d th2) st1))"

definition serve_tx :: "wait_env \<Rightarrow> nat \<Rightarrow> epoll_desc \<Rightarrow> wait_state \<Rightarrow> wait_state" where
  "serve_tx E read_size d st =
     (let th = w_th st; i = unat (num_ports th) in
      case ixmap_tx_clean (th_plane th) (ep_port_index d) (th_buf th) of
        (plane, buf) \<Rightarrow>
          let th1 = rx_assign_all (th\<lparr>th_plane := plane, th_buf := buf\<rparr>)
          in case read_fd E read_size (st\<lparr>w_th := th1\<rparr>) of
               (None, st1) \<Rightarrow> put_return i (-1) st1
             | (Some bs, st1) \<Rightarrow> put_thread i (unmask d th1) st1)"

definition serve_tun :: "wait_env \<Rightarrow> nat \<Rightarrow> epoll_desc \<Rightarrow> wait_state \<Rightarrow> wait_state" where
  "serve_tun E read_size d st =
     (case read_fd E read_size st of
        (None, st1) \<Rightarrow> put_return (w_i st) (-1) st1
      | (Some bs, st1) \<Rightarrow>
          let th1 = forward_process_tun (w_th st) (ep_port_index d) bs (of_nat (length bs))
          in put_thread (unat (num_ports th1)) (Some (tx_xmit_all th1)) st1)"

definition serve_netlink :: "wait_env \<Rightarrow> nat \<Rightarrow> wait_state \<Rightarrow> wait_state" where
  "serve_netlink E read_size st =
     (case read_fd E read_size st of
        (None, st1) \<Rightarrow> put_return (w_i st) (-1) st1
      | (Some bs, st1) \<Rightarrow> put_thread (w_i st) (netlink_process (w_th st) (w_buf st1) 0 (int (length bs))) st1)"

definition serve_signal :: "wait_env \<Rightarrow> nat \<Rightarrow> wait_state \<Rightarrow> wait_state" where
  "serve_signal E read_size st =
     (case read_fd E read_size st of
        (None, st1) \<Rightarrow> put_return (w_i st) (-1) st1
      | (Some bs, st1) \<Rightarrow> put_return (w_i st) 0 st1)"

section \<open>The loop\<close>

definition wait_step :: "wait_env \<Rightarrow> nat \<Rightarrow> wait_state \<Rightarrow> wait_state" where
  "wait_step E read_size st =
     (if w_i st < length (w_events st) then
        let d = w_events st ! w_i st
        in case ep_type d of
             EPOLL_IRQ_RX \<Rightarrow> serve_rx E read_size d st
           | EPOLL_IRQ_TX \<Rightarrow> serve_tx E read_size d st
           | EPOLL_TUN \<Rightarrow> serve_tun E read_size d st
           | EPOLL_NETLINK \<Rightarrow> serve_netlink E read_size st
           | EPOLL_SIGNAL \<Rightarrow> serve_signal E read_size st
      else
        (case env_card E (w_waits st) (th_plane (w_th st), pmem (w_th st)) of
           (plane, m) \<Rightarrow>
             let st1 = st\<lparr>w_th := (w_th st)\<lparr>th_plane := plane, pmem := m\<rparr>, w_waits := w_waits st + 1\<rparr>
             in case env_wait E (w_waits st) of
                  None \<Rightarrow> st1\<lparr>w_out := Some (Returned (-1))\<rparr>
                | Some evs \<Rightarrow> st1\<lparr>w_events := take EPOLL_MAXEVENTS evs, w_i := 0\<rparr>))"

definition wait_start :: "ixmapfwd_thread \<Rightarrow> (addr \<Rightarrow> u8) \<Rightarrow> wait_state" where
  "wait_start th buf = \<lparr>w_th = th, w_buf = buf, w_events = [], w_i = 0, w_waits = 0, w_reads = 0, w_out = None\<rparr>"

definition thread_wait :: "wait_env \<Rightarrow> ixmapfwd_thread \<Rightarrow> (addr \<Rightarrow> u8) \<Rightarrow> nat \<Rightarrow> wait_state option" where
  "thread_wait E th read_buf read_size = while_option (\<lambda>st. w_out st = None) (wait_step E read_size) (wait_start th read_buf)"

section \<open>What one step may change\<close>

lemma num_ports_decide: "forward_decide th pi packet = Some (ret, th') \<Longrightarrow> num_ports th' = num_ports th"
  by (auto simp: forward_decide_def forward_arp_process_def forward_ip_process_def forward_ip6_process_def forward_local_def Let_def
      split: if_splits option.splits bind_splits prod.splits)

lemma num_ports_packet: "forward_packet pi packet th = Some th' \<Longrightarrow> num_ports th' = num_ports th"
  by (auto simp: forward_packet_def Let_def dest!: num_ports_decide split: bind_splits prod.splits if_splits)

lemma num_ports_process: "forward_process th pi packets = Some th' \<Longrightarrow> num_ports th' = num_ports th"
  unfolding forward_process_def
proof (induction packets arbitrary: th)
  case (Cons p ps)
  then show ?case by (auto dest!: num_ports_packet split: bind_splits)
qed simp

lemma num_ports_tun: "num_ports (forward_process_tun th pi bs n) = num_ports th"
  by (simp add: forward_process_tun_def Let_def split: prod.splits)

lemma num_ports_all: "num_ports (tx_xmit_all th) = num_ports th" "num_ports (rx_assign_all th) = num_ports th"
  by (simp_all add: tx_xmit_all_def rx_assign_all_def split: prod.splits)

lemma num_ports_unmask: "unmask d th = Some th' \<Longrightarrow> num_ports th' = num_ports th"
  by (auto simp: unmask_def)

lemma num_ports_message: "netlink_message th m a = Some th' \<Longrightarrow> num_ports th' = num_ports th"
  by (auto simp: netlink_message_def netlink_route_def netlink_neigh_def Let_def split: bind_splits prod.splits if_splits)

lemma num_ports_netlink: "netlink_process th m a n = Some th' \<Longrightarrow> num_ports th' = num_ports th"
  unfolding netlink_process_def
proof (induction m a n th rule: netlink_walk.induct)
  case (1 m a n th)
  then show ?case
    by (auto simp: netlink_walk.simps [of m a n th] dest!: num_ports_message split: if_splits bind_splits)
qed

text \<open>The events after which \<open>i\<close> holds the number of ports.\<close>

definition is_io :: "epoll_desc \<Rightarrow> bool" where
  "is_io d \<longleftrightarrow> ep_type d \<in> {EPOLL_IRQ_RX, EPOLL_IRQ_TX, EPOLL_TUN}"

definition served :: "wait_env \<Rightarrow> wait_state \<Rightarrow> epoll_desc \<Rightarrow> wait_state \<Rightarrow> bool" where
  "served E st d st' \<longleftrightarrow>
     w_events st' = w_events st \<and> w_waits st' = w_waits st \<and> num_ports (w_th st') = num_ports (w_th st) \<and>
     w_i st' \<in> {w_i st + 1, unat (num_ports (w_th st)) + 1} \<and>
     (w_out st' = None \<longrightarrow> w_i st' = (if is_io d then unat (num_ports (w_th st)) + 1 else w_i st + 1)) \<and>
     (w_out st' = None \<longrightarrow> ep_type d \<noteq> EPOLL_SIGNAL) \<and>
     (w_out st' = Some (Returned 0) \<longrightarrow> ep_type d = EPOLL_SIGNAL) \<and>
     (w_out st' \<in> {None, Some Fault, Some (Returned 0), Some (Returned (-1))}) \<and>
     (w_out st' = Some (Returned (-1)) \<longrightarrow> env_read E (w_reads st) = None)"

lemmas serve_defs = served_def is_io_def read_fd_def put_thread_def put_return_def Let_def

lemma served_rx: "w_out st = None \<Longrightarrow> ep_type d = EPOLL_IRQ_RX \<Longrightarrow> served E st d (serve_rx E n d st)"
  by (auto simp: serve_rx_def serve_defs num_ports_all dest!: num_ports_process num_ports_unmask split: prod.splits option.splits)

lemma served_tx: "w_out st = None \<Longrightarrow> ep_type d = EPOLL_IRQ_TX \<Longrightarrow> served E st d (serve_tx E n d st)"
  by (auto simp: serve_tx_def serve_defs num_ports_all dest!: num_ports_unmask split: prod.splits option.splits)

lemma served_tun: "w_out st = None \<Longrightarrow> ep_type d = EPOLL_TUN \<Longrightarrow> served E st d (serve_tun E n d st)"
  by (auto simp: serve_tun_def serve_defs num_ports_all num_ports_tun split: prod.splits option.splits)

lemma served_netlink: "w_out st = None \<Longrightarrow> ep_type d = EPOLL_NETLINK \<Longrightarrow> served E st d (serve_netlink E n st)"
  by (auto simp: serve_netlink_def serve_defs dest!: num_ports_netlink split: prod.splits option.splits)

lemma served_signal: "w_out st = None \<Longrightarrow> ep_type d = EPOLL_SIGNAL \<Longrightarrow> served E st d (serve_signal E n st)"
  by (auto simp: serve_signal_def serve_defs split: prod.splits option.splits)

lemma wait_step_served:
  assumes "w_out st = None" "w_i st < length (w_events st)"
  shows "served E st (w_events st ! w_i st) (wait_step E n st)"
  using assms by (cases "ep_type (w_events st ! w_i st)")
    (simp_all add: wait_step_def served_rx served_tx served_tun served_netlink served_signal)

lemma wait_step_next:
  assumes "w_out st = None" "\<not> w_i st < length (w_events st)"
  shows "w_waits (wait_step E n st) = w_waits st + 1" "num_ports (w_th (wait_step E n st)) = num_ports (w_th st)"
    "env_wait E (w_waits st) = None \<Longrightarrow> w_out (wait_step E n st) = Some (Returned (-1)) \<and> w_events (wait_step E n st) = w_events st \<and>
       w_i (wait_step E n st) = w_i st"
    "env_wait E (w_waits st) = Some evs \<Longrightarrow> w_out (wait_step E n st) = None \<and> w_events (wait_step E n st) = take EPOLL_MAXEVENTS evs \<and>
       w_i (wait_step E n st) = 0"
  using assms by (simp_all add: wait_step_def Let_def split: prod.splits option.splits)

section \<open>A signal ends the loop\<close>

text \<open>
  The handlers of interrupt and TAP events leave the number of ports \<open>n\<close> in \<open>i\<close>, so that the next event
  to be served is the one with the index \<open>n + 1\<close>.  A batch comes to its end when all its interrupt and TAP
  events have an index of at most \<open>n\<close>.  The event with the index \<open>l\<close> is served when the interrupt and TAP
  events in front of it have an index of at most \<open>n\<close> and, if there is one, \<open>l\<close> is larger than \<open>n\<close>.
\<close>

definition batch_ends :: "nat \<Rightarrow> epoll_desc list \<Rightarrow> bool" where
  "batch_ends n evs \<longleftrightarrow> (\<forall>i < length evs. is_io (evs ! i) \<longrightarrow> i \<le> n)"

definition event_reached :: "nat \<Rightarrow> epoll_desc list \<Rightarrow> nat \<Rightarrow> bool" where
  "event_reached n evs l \<longleftrightarrow> l < length evs \<and> (\<forall>i < l. is_io (evs ! i) \<longrightarrow> i \<le> n \<and> n < l)"

text \<open>
  The environment delivers the signal in its \<open>k\<close>-th batch as the event with the index \<open>l\<close>, where it is
  reached, and the batches before come to their end.
\<close>

definition signal_at :: "wait_env \<Rightarrow> nat \<Rightarrow> nat \<Rightarrow> nat \<Rightarrow> bool" where
  "signal_at E n k l \<longleftrightarrow>
     (\<forall>j < k. case env_wait E j of None \<Rightarrow> True | Some evs \<Rightarrow> batch_ends n (take EPOLL_MAXEVENTS evs)) \<and>
     (case env_wait E k of None \<Rightarrow> False
      | Some evs \<Rightarrow> event_reached n (take EPOLL_MAXEVENTS evs) l \<and> ep_type (take EPOLL_MAXEVENTS evs ! l) = EPOLL_SIGNAL)"

definition calls_succeed :: "wait_env \<Rightarrow> bool" where
  "calls_succeed E \<longleftrightarrow> (\<forall>j. env_read E j \<noteq> None) \<and> (\<forall>j. env_wait E j \<noteq> None)"

definition wait_inv :: "wait_env \<Rightarrow> u32 \<Rightarrow> nat \<Rightarrow> nat \<Rightarrow> wait_state \<Rightarrow> bool" where
  "wait_inv E np k l st \<longleftrightarrow>
     num_ports (w_th st) = np \<and> w_waits st \<le> k + 1 \<and> length (w_events st) \<le> EPOLL_MAXEVENTS \<and>
     (if w_waits st = k + 1
      then event_reached (unat np) (w_events st) l \<and> ep_type (w_events st ! l) = EPOLL_SIGNAL \<and> (w_out st = None \<longrightarrow> w_i st \<le> l)
        \<or> w_out st = Some (Returned (-1))
      else batch_ends (unat np) (w_events st)) \<and>
     w_out st \<in> {None, Some Fault, Some (Returned 0), Some (Returned (-1))} \<and>
     (w_out st = Some (Returned (-1)) \<longrightarrow> \<not> calls_succeed E)"

definition wait_measure :: "nat \<Rightarrow> wait_state \<Rightarrow> nat" where
  "wait_measure k st = (k + 1 - w_waits st) * 17 + (length (w_events st) - w_i st)"

lemma servedD:
  assumes "served E st d st'"
  shows "w_events st' = w_events st" "w_waits st' = w_waits st" "num_ports (w_th st') = num_ports (w_th st)"
    "w_i st' = w_i st + 1 \<or> w_i st' = unat (num_ports (w_th st)) + 1"
    "w_out st' = None \<Longrightarrow> w_i st' = (if is_io d then unat (num_ports (w_th st)) + 1 else w_i st + 1)"
    "w_out st' = None \<Longrightarrow> ep_type d \<noteq> EPOLL_SIGNAL"
    "w_out st' = Some (Returned 0) \<Longrightarrow> ep_type d = EPOLL_SIGNAL"
    "w_out st' \<in> {None, Some Fault, Some (Returned 0), Some (Returned (-1))}"
    "w_out st' = Some (Returned (-1)) \<Longrightarrow> \<not> calls_succeed E"
  using assms unfolding served_def calls_succeed_def by blast+

text \<open>Serving an event of a batch goes on to a later one, and in the \<open>k\<close>-th batch not past the signal.\<close>

lemma wait_step_in_batch:
  assumes "wait_inv E np k l st" "w_out st = None" "w_i st < length (w_events st)"
  shows "wait_inv E np k l (wait_step E n st)" "w_out (wait_step E n st) = None \<Longrightarrow> wait_measure k (wait_step E n st) < wait_measure k st"
proof -
  let ?st = "wait_step E n st" and ?d = "w_events st ! w_i st"
  note v = servedD [OF wait_step_served [OF assms(2,3), of E n]] and i = assms(1) [unfolded wait_inv_def]
  have r: "event_reached (unat np) (w_events st) l" "ep_type (w_events st ! l) = EPOLL_SIGNAL" "w_i st \<le> l" if "w_waits st = k + 1"
    using that i assms(2) by simp_all
  have next_i: "w_i st < w_i ?st \<and> (w_waits st = k + 1 \<longrightarrow> w_i ?st \<le> l)" if o: "w_out ?st = None"
  proof (cases "w_waits st = k + 1")
    case True
    have "w_i st \<noteq> l" using v(6) [OF o] r(2) [OF True] by auto
    then have "w_i st < l" using r(3) [OF True] by simp
    then show ?thesis using r(1) [OF True] v(5) [OF o] i by (auto simp: event_reached_def)
  next
    case False
    then show ?thesis using i v(5) [OF o] assms(3) by (auto simp: batch_ends_def)
  qed
  show "wait_inv E np k l ?st"
    unfolding wait_inv_def v(1-3) using i v(8,9) r next_i by (auto split: if_splits)
  show "wait_measure k ?st < wait_measure k st" if "w_out ?st = None"
    unfolding wait_measure_def v(1,2) using conjunct1 [OF next_i [OF that]] assms(3) by (intro add_strict_left_mono diff_less_mono2)
qed

lemma wait_step_new_batch:
  assumes "signal_at E (unat np) k l" "wait_inv E np k l st" "w_out st = None" "\<not> w_i st < length (w_events st)"
  shows "wait_inv E np k l (wait_step E n st)" "w_out (wait_step E n st) = None \<Longrightarrow> wait_measure k (wait_step E n st) < wait_measure k st"
proof -
  let ?st = "wait_step E n st"
  note s = wait_step_next [OF assms(3,4), where E = E and n = n] and i = assms(2) [unfolded wait_inv_def]
  have "w_waits st \<noteq> k + 1" using i assms(3,4) by (auto simp: event_reached_def)
  then have w: "w_waits st < k + 1" using i by simp
  show "wait_inv E np k l ?st"
  proof (cases "env_wait E (w_waits st)")
    case None
    then have "\<not> calls_succeed E" by (auto simp: calls_succeed_def)
    then show ?thesis unfolding wait_inv_def s(1,2) using s(3) [OF None] i w by auto
  next
    case (Some evs)
    consider "w_waits st < k" | "w_waits st = k" using w by linarith
    then show ?thesis
      using assms(1) unfolding wait_inv_def s(1,2) signal_at_def using s(4) [OF Some] i Some by cases auto
  qed
  show "wait_measure k ?st < wait_measure k st" if o: "w_out ?st = None"
  proof (cases "env_wait E (w_waits st)")
    case (Some evs)
    have "length (take EPOLL_MAXEVENTS evs) \<le> 16" by (simp add: EPOLL_MAXEVENTS_def)
    then show ?thesis unfolding wait_measure_def s(1) using s(4) [OF Some] w assms(4) by simp
  qed (use s(3) o in simp)
qed

text \<open>The end of the loop counts as less than every state in it.\<close>

definition wait_rank :: "nat \<Rightarrow> wait_state \<Rightarrow> nat" where
  "wait_rank k st = (if w_out st = None then wait_measure k st + 1 else 0)"

lemma thread_wait_law:
  assumes "signal_at E (unat (num_ports th)) k l"
  shows "\<exists>st. thread_wait E th read_buf read_size = Some st \<and> w_waits st \<le> k + 1 \<and>
    w_out st \<in> {Some Fault, Some (Returned 0), Some (Returned (-1))} \<and>
    (w_out st = Some (Returned (-1)) \<longrightarrow> \<not> calls_succeed E)"
proof -
  let ?P = "wait_inv E (num_ports th) k l" and ?s = "wait_start th read_buf"
  have i: "?P ?s" by (simp add: wait_inv_def wait_start_def batch_ends_def)
  have step: "?P (wait_step E read_size st) \<and> wait_rank k (wait_step E read_size st) < wait_rank k st" if "?P st" "w_out st = None" for st
    using wait_step_in_batch [OF that, of read_size] wait_step_new_batch [OF assms that, of read_size] that(2)
    by (cases "w_i st < length (w_events st)") (simp_all add: wait_rank_def)
  obtain st where st: "while_option (\<lambda>st. w_out st = None) (wait_step E read_size) ?s = Some st"
    using measure_while_option_Some [of ?P "\<lambda>st. w_out st = None", OF step i] by blast
  have "?P st" using while_option_rule [of ?P "\<lambda>st. w_out st = None", OF _ st i] step by blast
  moreover have "w_out st \<noteq> None" using while_option_stop [OF st] by simp
  ultimately show ?thesis using st unfolding thread_wait_def wait_inv_def by auto
qed

text \<open>
  C36.  A thread that is sent the signal stops, provided that the signal is reached.  Let \<open>n\<close> be the number
  of ports, and let some batch of events have the signal as its event \<open>l\<close>, such that the interrupt and TAP
  events in front of it have an index of at most \<open>n\<close> and, if there is one, \<open>l\<close> is larger than \<open>n\<close>; let
  the interrupt and TAP events of all batches before also have an index of at most \<open>n\<close>.  Then
  \<open>thread_wait\<close> returns, after at most that batch.  It returns 0 unless a system call failed or a handler of
  an event followed an invalid pointer.\<close>
theorem thread_wait_stops:
  assumes "signal_at E (unat (num_ports th)) k l"
  shows "\<exists>st. thread_wait E th read_buf read_size = Some st \<and> w_waits st \<le> k + 1 \<and>
    w_out st \<in> {Some Fault, Some (Returned 0), Some (Returned (-1))} \<and>
    (w_out st = Some (Returned (-1)) \<longrightarrow> \<not> calls_succeed E)"
  using thread_wait_law [OF assms] .

section \<open>The loop variable that is used twice\<close>

inductive wait_next :: "wait_env \<Rightarrow> nat \<Rightarrow> wait_state \<Rightarrow> wait_state \<Rightarrow> bool" for E n where
  step: "w_out st = None \<Longrightarrow> wait_next E n st (wait_step E n st)"

inductive_cases wait_nextE: "wait_next E n st st'"

text \<open>
  C37.  A thread can stay in one batch of events for ever.  When the event with the number of ports plus
  one as its index is an interrupt or TAP event, then from the first interrupt or TAP event of the batch
  that is served, the thread serves that event again and again: it never asks for new events and never
  returns 0, whatever signal is sent.\<close>
theorem thread_wait_repeats_event:
  assumes "(wait_next E read_size)\<^sup>*\<^sup>* st st'" "w_out st = None" "w_i st < length (w_events st)" "is_io (w_events st ! w_i st)"
    and "unat (num_ports (w_th st)) + 1 < length (w_events st)" "is_io (w_events st ! (unat (num_ports (w_th st)) + 1))"
  shows "w_waits st' = w_waits st \<and> w_events st' = w_events st \<and> w_out st' \<noteq> Some (Returned 0) \<and>
    (w_out st' = None \<longrightarrow> w_i st' \<in> {w_i st, unat (num_ports (w_th st)) + 1})"
proof -
  let ?i = "unat (num_ports (w_th st)) + 1"
  have "w_waits st' = w_waits st \<and> w_events st' = w_events st \<and> num_ports (w_th st') = num_ports (w_th st) \<and>
      w_out st' \<noteq> Some (Returned 0) \<and> (w_out st' = None \<longrightarrow> w_i st' \<in> {w_i st, ?i})"
    using assms(1)
  proof (induction rule: rtranclp_induct)
    case base
    then show ?case using assms(2) by simp
  next
    case (step s t)
    from step(2) have t: "t = wait_step E read_size s" and o: "w_out s = None" by (auto elim: wait_nextE)
    have "w_i s < length (w_events s)" and io: "is_io (w_events s ! w_i s)" using step.IH o assms(3-6) by auto
    note v = servedD [OF wait_step_served [OF o this(1), of E read_size, folded t]]
    have "ep_type (w_events s ! w_i s) \<noteq> EPOLL_SIGNAL" using io by (auto simp: is_io_def)
    then show ?case using v(1-3,5,7) step.IH io by auto
  qed
  then show ?thesis by blast
qed

text \<open>A thread with one port: the signal in the second batch, and a batch of three interrupts.\<close>

definition ex_event :: "epoll_type \<Rightarrow> epoll_desc" where
  "ex_event ty = \<lparr>ep_self = 1, ep_fd = 5, ep_type = ty, ep_port_index = 0, ep_data = None\<rparr>"

definition ex_env :: wait_env where
  "ex_env = \<lparr>env_wait = (\<lambda>n. Some (if n = 1 then [ex_event EPOLL_TUN, ex_event EPOLL_NETLINK, ex_event EPOLL_SIGNAL]
       else [ex_event EPOLL_TUN, ex_event EPOLL_TUN, ex_event EPOLL_NETLINK])),
     env_read = (\<lambda>n. Some []), env_card = (\<lambda>n x. x)\<rparr>"

theorem thread_wait_stops_witness:
  "signal_at ex_env (unat (num_ports ex_thread)) 1 2 \<and>
   (\<exists>st. thread_wait ex_env ex_thread (\<lambda>_. 0) 4096 = Some st \<and> w_out st \<in> {Some Fault, Some (Returned 0)})"
proof -
  have io: "is_io (ex_event ty) \<longleftrightarrow> ty \<in> {EPOLL_IRQ_RX, EPOLL_IRQ_TX, EPOLL_TUN}" "ep_type (ex_event ty) = ty" for ty
    by (simp_all add: is_io_def ex_event_def)
  have w: "env_wait ex_env 0 = Some [ex_event EPOLL_TUN, ex_event EPOLL_TUN, ex_event EPOLL_NETLINK]"
    "env_wait ex_env 1 = Some [ex_event EPOLL_TUN, ex_event EPOLL_NETLINK, ex_event EPOLL_SIGNAL]" by (simp_all add: ex_env_def)
  have "batch_ends 1 [ex_event EPOLL_TUN, ex_event EPOLL_TUN, ex_event EPOLL_NETLINK]"
    by (simp add: batch_ends_def io All_less_Suc)
  moreover have "event_reached 1 [ex_event EPOLL_TUN, ex_event EPOLL_NETLINK, ex_event EPOLL_SIGNAL] 2"
    by (simp add: event_reached_def io numeral_2_eq_2 All_less_Suc)
  moreover have "unat (num_ports ex_thread) = 1" by (simp add: ex_thread_def)
  ultimately have s: "signal_at ex_env (unat (num_ports ex_thread)) 1 2"
    unfolding signal_at_def using w by (simp add: EPOLL_MAXEVENTS_def io)
  moreover have "calls_succeed ex_env" by (simp add: calls_succeed_def ex_env_def)
  ultimately show ?thesis using thread_wait_stops [OF s, of "\<lambda>_. 0" 4096] by blast
qed

definition ex_wait_state :: wait_state where
  "ex_wait_state = (wait_start ex_thread (\<lambda>_. 0))\<lparr>w_events := [ex_event EPOLL_TUN, ex_event EPOLL_SIGNAL, ex_event EPOLL_TUN]\<rparr>"

theorem thread_wait_repeats_event_witness:
  "w_events (wait_step ex_env 64 ex_wait_state) = w_events ex_wait_state \<and> w_waits (wait_step ex_env 64 ex_wait_state) = 0 \<and>
   w_out (wait_step ex_env 64 ex_wait_state) \<noteq> Some (Returned 0)"
proof -
  have "(wait_next ex_env 64)\<^sup>*\<^sup>* ex_wait_state (wait_step ex_env 64 ex_wait_state)"
    by (rule r_into_rtranclp, rule wait_next.step) (simp add: ex_wait_state_def wait_start_def)
  moreover have "w_out ex_wait_state = None" "w_i ex_wait_state < length (w_events ex_wait_state)"
    "is_io (w_events ex_wait_state ! w_i ex_wait_state)"
    "unat (num_ports (w_th ex_wait_state)) + 1 < length (w_events ex_wait_state)"
    "is_io (w_events ex_wait_state ! (unat (num_ports (w_th ex_wait_state)) + 1))" "w_waits ex_wait_state = 0"
    by (simp_all add: ex_wait_state_def wait_start_def ex_thread_def is_io_def ex_event_def)
  ultimately show ?thesis using thread_wait_repeats_event [of ex_env 64 ex_wait_state "wait_step ex_env 64 ex_wait_state"] by simp
qed

section \<open>The whole thread\<close>

text \<open>
  \<open>read_size\<close> is the size of a page or the largest frame of the ports.  The part of \<open>thread_process_interrupt\<close>
  from the read buffer to its release; the thread that never returns and the fault in a handler have no result.
\<close>

definition thread_read_size :: "nat \<Rightarrow> ixmapfwd_thread \<Rightarrow> nat" where
  "thread_read_size page th = fold (\<lambda>i n. if unat (tun_mtu_frame (tun_ports (th_tun th) ! i)) > n
     then unat (tun_mtu_frame (tun_ports (th_tun th) ! i)) else n) [0..<unat (num_ports th)] page"

definition thread_run :: "wait_env \<Rightarrow> nat \<Rightarrow> ixmapfwd_thread \<Rightarrow> epoll_req os \<Rightarrow> (ixmapfwd_thread \<times> epoll_req os) option" where
  "thread_run E page th s =
     (let read_size = thread_read_size page th
      in case os_numa (of_nat read_size) s of
           (None, s1) \<Rightarrow> Some (th, s1)
         | (Some read_buf, s1) \<Rightarrow> do {
             (fd_ep, eps, s2) \<leftarrow> thread_fd_prepare th s1;
             (th1, s3) \<leftarrow>
               (if fd_ep < 0 then Some (th, s2)
                else do {
                  st \<leftarrow> thread_wait E (rx_assign_all th) (\<lambda>_. 0) read_size;
                  (if w_out st = Some Fault then None
                   else do { s3 \<leftarrow> thread_fd_destroy eps fd_ep s2; Some (w_th st, s3) }) });
             s4 \<leftarrow> os_numa_free read_buf (of_nat read_size) s3;
             Some (th1, s4) })"

text \<open>The neighbour tables of the ports; the flag tells whether all could be allocated.\<close>

fun neigh_tables :: "world hash_table \<Rightarrow> nat \<Rightarrow> world \<Rightarrow> (bool \<times> (neigh_table \<times> neigh_table) list \<times> world) option" where
  "neigh_tables raw 0 w = Some (True, [], w)"
| "neigh_tables raw (Suc n) w = do {
     (r4, w1) \<leftarrow> neigh_alloc raw w AF_INET;
     (case r4 of
        None \<Rightarrow> Some (False, [], w1)
      | Some n4 \<Rightarrow> do {
          (r6, w2) \<leftarrow> neigh_alloc raw w1 AF_INET6;
          (case r6 of
             None \<Rightarrow> do { w3 \<leftarrow> neigh_release w2 n4; Some (False, [], w3) }
           | Some n6 \<Rightarrow> do { (ok, ns, w3) \<leftarrow> neigh_tables raw n w2; Some (ok, (n4, n6) # ns, w3) }) }) }"

definition neigh_tables_release :: "(neigh_table \<times> neigh_table) list \<Rightarrow> world \<Rightarrow> world option" where
  "neigh_tables_release ns w = for_each (\<lambda>(n4, n6) w. do { w1 \<leftarrow> neigh_release w n6; neigh_release w1 n4 }) ns w"

definition thread_process_interrupt ::
    "wait_env \<Rightarrow> nat \<Rightarrow> lpm_table \<Rightarrow> world hash_table \<Rightarrow> ixmapfwd_thread \<Rightarrow> epoll_req os \<Rightarrow> (ixmapfwd_thread \<times> epoll_req os) option" where
  "thread_process_interrupt E page raw_lpm raw_hash th s = do {
     let ptrs = 8 * num_ports th;
     (r4, w1) \<leftarrow> fib_alloc raw_lpm (th_mem th);
     (case r4 of
        None \<Rightarrow> Some (th\<lparr>th_mem := w1\<rparr>, s)
      | Some f4 \<Rightarrow> do {
          (r6, w2) \<leftarrow> fib_alloc raw_lpm w1;
          (case r6 of
             None \<Rightarrow> do { w3 \<leftarrow> fib_release w2 f4; Some (th\<lparr>th_mem := w3\<rparr>, s) }
           | Some f6 \<Rightarrow> do {
               (a4, w3) \<leftarrow> walloc w2 ptrs;
               (case a4 of
                  None \<Rightarrow> do { w4 \<leftarrow> fib_release w3 f6; w5 \<leftarrow> fib_release w4 f4; Some (th\<lparr>th_mem := w5\<rparr>, s) }
                | Some p4 \<Rightarrow> do {
                    (a6, w4) \<leftarrow> walloc w3 ptrs;
                    (case a6 of
                       None \<Rightarrow> do {
                         w5 \<leftarrow> wfree w4 p4; w6 \<leftarrow> fib_release w5 f6; w7 \<leftarrow> fib_release w6 f4;
                         Some (th\<lparr>th_mem := w7\<rparr>, s) }
                     | Some p6 \<Rightarrow> do {
                         (ok, ns, w5) \<leftarrow> neigh_tables raw_hash (unat (num_ports th)) w4;
                         let th1 = th\<lparr>th_mem := w5, fib_inet := f4, fib_inet6 := f6,
                                     neigh_inet := map fst ns, neigh_inet6 := map snd ns\<rparr>;
                         (th2, s1) \<leftarrow> (if ok then thread_run E page th1 s else Some (th1, s));
                         w6 \<leftarrow> neigh_tables_release (zip (neigh_inet th2) (neigh_inet6 th2)) (th_mem th2);
                         w7 \<leftarrow> wfree w6 p6;
                         w8 \<leftarrow> wfree w7 p4;
                         w9 \<leftarrow> fib_release w8 (fib_inet6 th2);
                         w10 \<leftarrow> fib_release w9 (fib_inet th2);
                         Some (th2\<lparr>th_mem := w10\<rparr>, s1) }) }) }) }) }"

text \<open>The buffer holds the largest frame of every port.\<close>

lemma thread_read_size_bound:
  "page \<le> thread_read_size page th \<and> (\<forall>i < unat (num_ports th). unat (tun_mtu_frame (tun_ports (th_tun th) ! i)) \<le> thread_read_size page th)"
proof -
  have "n \<le> fold (\<lambda>i n. if f i > n then f i else n) xs n \<and> (\<forall>i \<in> set xs. f i \<le> fold (\<lambda>i n. if f i > n then f i else n) xs n)"
    for f :: "nat \<Rightarrow> nat" and xs n
  proof (induction xs arbitrary: n)
    case (Cons x xs)
    from Cons [of "if f x > n then f x else n"] show ?case by (auto split: if_splits)
  qed simp
  then show ?thesis unfolding thread_read_size_def by fastforce
qed

text \<open>
  A thread that is sent the signal gives its resources back, up to those of the netlink socket, unless a
  handler follows an invalid pointer.
\<close>

lemma thread_run_resources:
  assumes "unat (num_ports th) \<le> length (tun_ports (th_tun th))" "signal_at E (unat (num_ports th)) k l"
    "\<And>st. thread_wait E (rx_assign_all th) (\<lambda>_. 0) (thread_read_size page th) = Some st \<Longrightarrow> w_out st \<noteq> Some Fault"
  shows "\<exists>th' s'. thread_run E page th s = Some (th', s') \<and>
    (res s' = res s \<or> netlink_left (res s) (res s'))"
proof (cases rule: os_numa_cases [of "of_nat (thread_read_size page th)" s])
  case (fail s1)
  then show ?thesis by (simp add: thread_run_def Let_def)
next
  case (ok b s1)
  let ?n = "of_nat (thread_read_size page th) :: u64"
  obtain st where st: "thread_wait E (rx_assign_all th) (\<lambda>_. 0) (thread_read_size page th) = Some st" "w_out st \<noteq> Some Fault"
    using thread_wait_law [of E "rx_assign_all th" k l "\<lambda>_. 0" "thread_read_size page th"] assms(2,3) by (auto simp: num_ports_all)
  obtain fd eps s2 where p: "thread_fd_prepare th s1 = Some (fd, eps, s2)"
    and fail: "fd < 0 \<Longrightarrow> res s2 = res s1 \<or> netlink_left (res s1) (res s2)"
    and good: "\<not> fd < 0 \<Longrightarrow> \<exists>s3. thread_fd_destroy eps fd s2 = Some s3 \<and> netlink_left (res s1) (res s3)"
    using thread_fd_prepare_law [OF assms(1), of s1] by (auto split: if_splits)
  obtain t s3 where t: "(if fd < 0 then Some (th, s2) else do { st \<leftarrow> thread_wait E (rx_assign_all th) (\<lambda>_. 0) (thread_read_size page th);
        (if w_out st = Some Fault then None else do { s3 \<leftarrow> thread_fd_destroy eps fd s2; Some (w_th st, s3) }) }) = Some (t, s3)"
      "res s3 = res s1 \<or> netlink_left (res s1) (res s3)"
    using fail good st by (cases "fd < 0") auto
  then obtain L where L: "res s3 = add_mset (Numa b ?n) (res s + L)" "L = {#} \<or> (\<exists>x y. L = {#Fd x, Numa y sizeof_epoll_desc#})"
    using ok(2) by (auto simp: netlink_left_def) (metis add_mset_commute)
  from os_release_held(3) [OF this(1)] obtain s4 where s4: "os_numa_free b ?n s3 = Some s4" "res s4 = res s + L" by blast
  have "thread_run E page th s = Some (t, s4)" using ok p t(1) s4(1) unfolding thread_run_def Let_def by simp
  then show ?thesis using s4(2) L(2) by (auto simp: netlink_left_def simp del: union_mset_add_mset_right)
qed

end
