(* ===== verification/Registers.thy ===== *)
theory Registers
  imports Device "HOL-Library.State_Monad"
begin

text \<open>
  Programming the card from user space: the register access of \<open>src/lib/ixmap.c\<close> and the set-up of the
  receive and the transmit side, \<open>src/lib/rxinit.c\<close> and \<open>src/lib/txinit.c\<close>, in the state monad.  Writes are
  kept in order; what a read returns is the card's answer to the n-th read, so that a statement about all
  answers is one about every card.  Sleeping and printing are left out.
\<close>

section \<open>Register access\<close>

record card =
  answers :: "nat \<Rightarrow> u32"
  nreads :: nat
  writes :: "(nat \<times> u32) list"

type_synonym 'a prog = "(card, 'a) state"

definition ixmap_read_reg :: "nat \<Rightarrow> u32 prog" where
  "ixmap_read_reg reg = State (\<lambda>c. (answers c (nreads c), c\<lparr>nreads := nreads c + 1\<rparr>))"

definition ixmap_write_reg :: "nat \<Rightarrow> u32 \<Rightarrow> unit prog" where
  "ixmap_write_reg reg value = State (\<lambda>c. ((), c\<lparr>writes := writes c @ [(reg, value)]\<rparr>))"

definition IXGBE_STATUS :: nat where "IXGBE_STATUS = 0x00008"

definition ixmap_write_flush :: "unit prog" where
  "ixmap_write_flush = do { x \<leftarrow> ixmap_read_reg IXGBE_STATUS; State_Monad.return () }"

text \<open>A loop over a list of indices.\<close>

fun for_m :: "('a \<Rightarrow> unit prog) \<Rightarrow> 'a list \<Rightarrow> unit prog" where
  "for_m f [] = State_Monad.return ()"
| "for_m f (x # xs) = do { _ \<leftarrow> f x; for_m f xs }"

text \<open>\<open>do { ... } while (--wait_loop && busy(reg))\<close>, from the value of \<open>wait_loop\<close>.\<close>

fun poll :: "nat \<Rightarrow> nat \<Rightarrow> (u32 \<Rightarrow> bool) \<Rightarrow> unit prog" where
  "poll 0 reg busy = State_Monad.return ()"
| "poll (Suc n) reg busy = do {
     x \<leftarrow> ixmap_read_reg reg;
     if busy x then poll n reg busy else State_Monad.return () }"

section \<open>Interrupts\<close>

definition IXGBE_EIMS :: nat where "IXGBE_EIMS = 0x00880"
definition IXGBE_EIMS_RTX_QUEUE :: u32 where "IXGBE_EIMS_RTX_QUEUE = 0x0000FFFF"
definition IXGBE_EIMS_LSC :: u32 where "IXGBE_EIMS_LSC = 0x00100000"
definition IXGBE_EIMS_TCP_TIMER :: u32 where "IXGBE_EIMS_TCP_TIMER = 0x40000000"
definition IXGBE_EIMS_OTHER :: u32 where "IXGBE_EIMS_OTHER = 0x80000000"
definition IXGBE_EIMS_ENABLE_MASK :: u32 where
  "IXGBE_EIMS_ENABLE_MASK = IXGBE_EIMS_RTX_QUEUE OR IXGBE_EIMS_LSC OR IXGBE_EIMS_TCP_TIMER OR IXGBE_EIMS_OTHER"

definition ixmap_irq_enable_queues :: "u64 \<Rightarrow> unit prog" where
  "ixmap_irq_enable_queues msk = do {
     let mask0 = (ucast (msk AND 0xFFFFFFFF) :: u32);
     _ \<leftarrow> (if mask0 \<noteq> 0 then ixmap_write_reg (IXGBE_EIMS_EX 0) mask0 else State_Monad.return ());
     let mask1 = (ucast (drop_bit 32 msk) :: u32);
     (if mask1 \<noteq> 0 then ixmap_write_reg (IXGBE_EIMS_EX 1) mask1 else State_Monad.return ()) }"

definition ixmap_irq_enable :: "unit prog" where
  "ixmap_irq_enable = do {
     let mask0 = IXGBE_EIMS_ENABLE_MASK AND NOT IXGBE_EIMS_RTX_QUEUE;
     let mask1 = mask0 AND NOT IXGBE_EIMS_LSC;
     let mask2 = mask1 AND NOT IXGBE_EIMS_TCP_TIMER;
     let mask3 = mask2 AND NOT IXGBE_EIMS_OTHER;
     _ \<leftarrow> ixmap_write_reg IXGBE_EIMS mask3;
     _ \<leftarrow> ixmap_irq_enable_queues (NOT 0);
     ixmap_write_flush }"

section \<open>The receive side\<close>

definition IXGBE_RDBAL :: "nat \<Rightarrow> nat" where "IXGBE_RDBAL i = 0x01000 + i * 0x40"
definition IXGBE_RDBAH :: "nat \<Rightarrow> nat" where "IXGBE_RDBAH i = 0x01004 + i * 0x40"
definition IXGBE_RDLEN :: "nat \<Rightarrow> nat" where "IXGBE_RDLEN i = 0x01008 + i * 0x40"
definition IXGBE_RDH :: "nat \<Rightarrow> nat" where "IXGBE_RDH i = 0x01010 + i * 0x40"
definition IXGBE_RDT :: "nat \<Rightarrow> nat" where "IXGBE_RDT i = 0x01018 + i * 0x40"
definition IXGBE_RXDCTL :: "nat \<Rightarrow> nat" where "IXGBE_RXDCTL i = 0x01028 + i * 0x40"
definition IXGBE_SRRCTL :: "nat \<Rightarrow> nat" where "IXGBE_SRRCTL i = 0x02100 + i * 4"
definition IXGBE_RETA :: "nat \<Rightarrow> nat" where "IXGBE_RETA i = 0x05C00 + i * 4"
definition IXGBE_RSSRK :: "nat \<Rightarrow> nat" where "IXGBE_RSSRK i = 0x05C80 + i * 4"
definition IXGBE_RDRXCTL :: nat where "IXGBE_RDRXCTL = 0x02F00"
definition IXGBE_RXCTRL :: nat where "IXGBE_RXCTRL = 0x03000"
definition IXGBE_RSCDBU :: nat where "IXGBE_RSCDBU = 0x03028"
definition IXGBE_HLREG0 :: nat where "IXGBE_HLREG0 = 0x04240"
definition IXGBE_MHADD :: nat where "IXGBE_MHADD = 0x04268"
definition IXGBE_RXCSUM :: nat where "IXGBE_RXCSUM = 0x05000"
definition IXGBE_RFCTL :: nat where "IXGBE_RFCTL = 0x05008"
definition IXGBE_FCTRL :: nat where "IXGBE_FCTRL = 0x05080"
definition IXGBE_VLNCTRL :: nat where "IXGBE_VLNCTRL = 0x05088"
definition IXGBE_PSRTYPE :: nat where "IXGBE_PSRTYPE = 0x05480"
definition IXGBE_MRQC :: nat where "IXGBE_MRQC = 0x05818"
definition IXGBE_PFDTXGSWC :: nat where "IXGBE_PFDTXGSWC = 0x08220"
definition IXGBE_VMOLR :: nat where "IXGBE_VMOLR = 0x0F000"

lemmas rx_regs = IXGBE_RDBAL_def IXGBE_RDBAH_def IXGBE_RDLEN_def IXGBE_RDH_def IXGBE_RDT_def IXGBE_RXDCTL_def IXGBE_SRRCTL_def
  IXGBE_RETA_def IXGBE_RSSRK_def IXGBE_RDRXCTL_def IXGBE_RXCTRL_def IXGBE_RSCDBU_def IXGBE_HLREG0_def IXGBE_MHADD_def
  IXGBE_RXCSUM_def IXGBE_RFCTL_def IXGBE_FCTRL_def IXGBE_VLNCTRL_def IXGBE_PSRTYPE_def IXGBE_MRQC_def IXGBE_PFDTXGSWC_def IXGBE_VMOLR_def

definition IXGBE_RXCTRL_RXEN :: u32 where "IXGBE_RXCTRL_RXEN = 0x00000001"
definition IXGBE_RXDCTL_ENABLE :: u32 where "IXGBE_RXDCTL_ENABLE = 0x02000000"
definition IXGBE_MAX_RX_DESC_POLL :: nat where "IXGBE_MAX_RX_DESC_POLL = 10"
definition IXGBE_MAX_RXBUFFER :: u32 where "IXGBE_MAX_RXBUFFER = 16384"
definition ETH_FRAME_LEN :: u32 where "ETH_FRAME_LEN = 1514"
definition ETH_FCS_LEN :: u32 where "ETH_FCS_LEN = 4"
definition VLAN_HLEN :: u32 where "VLAN_HLEN = 4"

definition ixmap_set_rx_mode :: "ixmap_handle \<Rightarrow> unit prog" where
  "ixmap_set_rx_mode ih = do {
     let vmolr0 = (0x08000000 OR 0x01000000 :: u32);
     fctrl0 \<leftarrow> ixmap_read_reg IXGBE_FCTRL;
     vlnctrl0 \<leftarrow> ixmap_read_reg IXGBE_VLNCTRL;
     let fctrl1 = fctrl0 OR 0x00000400 OR 0x00002000 OR 0x00001000;
     let fctrl2 = fctrl1 AND NOT (0x00000200 OR 0x00000100);
     let vlnctrl = vlnctrl0 AND NOT (0x40000000 OR 0x20000000);
     let fctrl = (if promisc ih \<noteq> 0 then fctrl2 OR (0x00000200 OR 0x00000100) else fctrl2 OR 0x00000100);
     let vmolr1 = vmolr0 OR 0x10000000;
     v \<leftarrow> ixmap_read_reg IXGBE_VMOLR;
     let vmolr = vmolr1 OR (v AND NOT (0x10000000 OR 0x02000000 OR 0x04000000));
     _ \<leftarrow> ixmap_write_reg IXGBE_VMOLR vmolr;
     _ \<leftarrow> ixmap_write_reg IXGBE_VLNCTRL vlnctrl;
     ixmap_write_reg IXGBE_FCTRL fctrl }"

definition ixmap_disable_rx :: "unit prog" where
  "ixmap_disable_rx = do {
     rxctrl \<leftarrow> ixmap_read_reg IXGBE_RXCTRL;
     (if rxctrl AND IXGBE_RXCTRL_RXEN \<noteq> 0 then do {
        pfdtxgswc \<leftarrow> ixmap_read_reg IXGBE_PFDTXGSWC;
        ixmap_write_reg IXGBE_RXCTRL (rxctrl AND NOT IXGBE_RXCTRL_RXEN) }
      else State_Monad.return ()) }"

definition ixmap_enable_rx :: "unit prog" where
  "ixmap_enable_rx = do {
     rxctrl \<leftarrow> ixmap_read_reg IXGBE_RXCTRL;
     ixmap_write_reg IXGBE_RXCTRL (rxctrl OR IXGBE_RXCTRL_RXEN) }"

definition ixmap_setup_psrtype :: "ixmap_handle \<Rightarrow> unit prog" where
  "ixmap_setup_psrtype ih = do {
     let psrtype = (0x00000010 OR 0x00000020 OR 0x00000100 OR 0x00001000 OR 0x00000200 :: u32);
     let rss = (if ih_num_queues ih > 3 then push_bit 29 2 else if ih_num_queues ih > 1 then push_bit 29 1 else 0);
     ixmap_write_reg IXGBE_PSRTYPE (psrtype OR rss) }"

definition ixmap_setup_rdrxctl :: "unit prog" where
  "ixmap_setup_rdrxctl = do {
     rdrxctl \<leftarrow> ixmap_read_reg IXGBE_RDRXCTL;
     rscdbu \<leftarrow> ixmap_read_reg IXGBE_RSCDBU;
     _ \<leftarrow> ixmap_write_reg IXGBE_RSCDBU (0x00000080 OR rscdbu);
     ixmap_write_reg IXGBE_RDRXCTL (rdrxctl AND NOT 0x003E0000 OR 0x00000002) }"

definition ixmap_setup_rfctl :: "unit prog" where
  "ixmap_setup_rfctl = do {
     rfctl \<leftarrow> ixmap_read_reg IXGBE_RFCTL;
     ixmap_write_reg IXGBE_RFCTL (rfctl OR 0x00000020) }"

definition rss_seed :: "u32 list" where
  "rss_seed = [0xE291D73D, 0x1805EC6C, 0x2A94B30D, 0xA54F2BEC, 0xEA49AF7C, 0xE214AD3D, 0xB855AABE, 0x6A3E67EA, 0x14364D17, 0x3BED200D]"

text \<open>The redirection table: \<open>i\<close> counts the entries, \<open>j\<close> the queues, four entries make one register.\<close>

fun reta_fill :: "u32 \<Rightarrow> nat list \<Rightarrow> u32 \<Rightarrow> u32 \<Rightarrow> unit prog" where
  "reta_fill n_queues [] j reta = State_Monad.return ()"
| "reta_fill n_queues (i # ks) j reta = do {
     let j1 = (if j = n_queues then 0 else j);
     let reta1 = push_bit 8 reta OR j1 * 1;
     _ \<leftarrow> (if i mod 4 = 3 then (if i < 128 then ixmap_write_reg (IXGBE_RETA (i div 4)) reta1 else State_Monad.return ())
           else State_Monad.return ());
     reta_fill n_queues ks (j1 + 1) reta1 }"

definition ixmap_setup_mrqc :: "ixmap_handle \<Rightarrow> unit prog" where
  "ixmap_setup_mrqc ih = do {
     _ \<leftarrow> for_m (\<lambda>i. ixmap_write_reg (IXGBE_RSSRK i) (rss_seed ! i)) [0..<10];
     _ \<leftarrow> reta_fill (ih_num_queues ih) [0..<128] 0 0;
     rxcsum \<leftarrow> ixmap_read_reg IXGBE_RXCSUM;
     _ \<leftarrow> ixmap_write_reg IXGBE_RXCSUM (rxcsum OR 0x00002000);
     let mrqc = (0x00000001 OR 0x00020000 OR 0x00010000 OR 0x00400000 OR 0x00100000 OR 0x00200000 OR 0x00800000);
     ixmap_write_reg IXGBE_MRQC mrqc }"

definition ixmap_set_rx_buffer_len :: "ixmap_handle \<Rightarrow> ixmap_handle prog" where
  "ixmap_set_rx_buffer_len ih = do {
     let mtu = (if ih_mtu_frame ih < ETH_FRAME_LEN + ETH_FCS_LEN then ETH_FRAME_LEN + ETH_FCS_LEN else ih_mtu_frame ih);
     mhadd \<leftarrow> ixmap_read_reg IXGBE_MHADD;
     _ \<leftarrow> (if mtu \<noteq> drop_bit 16 mhadd then ixmap_write_reg IXGBE_MHADD (mhadd AND NOT 0xFFFF0000 OR push_bit 16 mtu)
           else State_Monad.return ());
     let mtu1 = mtu + VLAN_HLEN;
     let len = (mtu1 + 1023) AND NOT 1023;
     let len1 = (if len > IXGBE_MAX_RXBUFFER then IXGBE_MAX_RXBUFFER else len);
     hlreg0 \<leftarrow> ixmap_read_reg IXGBE_HLREG0;
     _ \<leftarrow> ixmap_write_reg IXGBE_HLREG0 (hlreg0 OR 0x00000004);
     State_Monad.return (ih\<lparr>ih_mtu_frame := mtu1, ih_buf_size := len1\<rparr>) }"

definition ixmap_disable_rx_queue :: "nat \<Rightarrow> unit prog" where
  "ixmap_disable_rx_queue i = do {
     rxdctl \<leftarrow> ixmap_read_reg (IXGBE_RXDCTL i);
     _ \<leftarrow> ixmap_write_reg (IXGBE_RXDCTL i) (rxdctl AND NOT IXGBE_RXDCTL_ENABLE);
     poll IXGBE_MAX_RX_DESC_POLL (IXGBE_RXDCTL i) (\<lambda>x. x AND IXGBE_RXDCTL_ENABLE \<noteq> 0) }"

definition ixmap_configure_srrctl :: "ixmap_handle \<Rightarrow> nat \<Rightarrow> unit prog" where
  "ixmap_configure_srrctl ih i = do {
     let srrctl = drop_bit 10 ((ih_buf_size ih + 1023) AND NOT 1023) OR 0x02000000;
     ixmap_write_reg (IXGBE_SRRCTL i) (if ih_num_queues ih > 1 then srrctl OR 0x10000000 else srrctl) }"

definition ixmap_rx_desc_queue_enable :: "nat \<Rightarrow> unit prog" where
  "ixmap_rx_desc_queue_enable i = poll IXGBE_MAX_RX_DESC_POLL (IXGBE_RXDCTL i) (\<lambda>x. x AND IXGBE_RXDCTL_ENABLE = 0)"

definition ixmap_configure_rx_ring :: "ixmap_handle \<Rightarrow> nat \<Rightarrow> ixmap_ring \<Rightarrow> ixmap_ring prog" where
  "ixmap_configure_rx_ring ih i ring = do {
     let addr_dma = ring_dma ring;
     rxdctl \<leftarrow> ixmap_read_reg (IXGBE_RXDCTL i);
     _ \<leftarrow> ixmap_disable_rx_queue i;
     _ \<leftarrow> ixmap_write_reg (IXGBE_RDBAL i) (ucast (addr_dma AND 0xFFFFFFFF));
     _ \<leftarrow> ixmap_write_reg (IXGBE_RDBAH i) (ucast (drop_bit 32 addr_dma));
     _ \<leftarrow> ixmap_write_reg (IXGBE_RDLEN i) (ih_num_rx_desc ih * 16);
     _ \<leftarrow> ixmap_write_reg (IXGBE_RDH i) 0;
     _ \<leftarrow> ixmap_write_reg (IXGBE_RDT i) 0;
     let ring1 = ring\<lparr>tail := bar ih + IXGBE_RDT i\<rparr>;
     _ \<leftarrow> ixmap_configure_srrctl ih i;
     _ \<leftarrow> ixmap_write_reg (IXGBE_RXDCTL i) (rxdctl OR IXGBE_RXDCTL_ENABLE);
     _ \<leftarrow> ixmap_rx_desc_queue_enable i;
     State_Monad.return ring1 }"

text \<open>The rings of the queues in turn, one ring per queue; the index of a queue is passed as a \<open>uint8_t\<close>.\<close>

fun configure_rings :: "(nat \<Rightarrow> ixmap_ring \<Rightarrow> ixmap_ring prog) \<Rightarrow> nat \<Rightarrow> ixmap_ring list \<Rightarrow> ixmap_ring list prog" where
  "configure_rings f i [] = State_Monad.return []"
| "configure_rings f i (r # rs) = do {
     r1 \<leftarrow> f (i mod 256) r;
     rs1 \<leftarrow> configure_rings f (i + 1) rs;
     State_Monad.return (r1 # rs1) }"

definition ixmap_configure_rx :: "ixmap_handle \<Rightarrow> ixmap_handle prog" where
  "ixmap_configure_rx ih = do {
     _ \<leftarrow> ixmap_set_rx_mode ih;
     _ \<leftarrow> ixmap_disable_rx;
     _ \<leftarrow> ixmap_setup_psrtype ih;
     _ \<leftarrow> ixmap_setup_rdrxctl;
     _ \<leftarrow> ixmap_setup_rfctl;
     _ \<leftarrow> ixmap_setup_mrqc ih;
     ih1 \<leftarrow> ixmap_set_rx_buffer_len ih;
     rs \<leftarrow> configure_rings (ixmap_configure_rx_ring ih1) 0 (ih_rx_ring ih1);
     _ \<leftarrow> ixmap_enable_rx;
     State_Monad.return (ih1\<lparr>ih_rx_ring := rs\<rparr>) }"

section \<open>The transmit side\<close>

definition IXGBE_DMATXCTL :: nat where "IXGBE_DMATXCTL = 0x04A80"
definition IXGBE_RTTDCS :: nat where "IXGBE_RTTDCS = 0x04900"
definition IXGBE_MTQC :: nat where "IXGBE_MTQC = 0x08120"
definition IXGBE_TDBAL :: "nat \<Rightarrow> nat" where "IXGBE_TDBAL i = 0x06000 + i * 0x40"
definition IXGBE_TDBAH :: "nat \<Rightarrow> nat" where "IXGBE_TDBAH i = 0x06004 + i * 0x40"
definition IXGBE_TDLEN :: "nat \<Rightarrow> nat" where "IXGBE_TDLEN i = 0x06008 + i * 0x40"
definition IXGBE_TDH :: "nat \<Rightarrow> nat" where "IXGBE_TDH i = 0x06010 + i * 0x40"
definition IXGBE_TDT :: "nat \<Rightarrow> nat" where "IXGBE_TDT i = 0x06018 + i * 0x40"
definition IXGBE_TXDCTL :: "nat \<Rightarrow> nat" where "IXGBE_TXDCTL i = 0x06028 + i * 0x40"
definition IXGBE_TDWBAL :: "nat \<Rightarrow> nat" where "IXGBE_TDWBAL i = 0x06038 + i * 0x40"
definition IXGBE_TDWBAH :: "nat \<Rightarrow> nat" where "IXGBE_TDWBAH i = 0x0603C + i * 0x40"

lemmas tx_regs = IXGBE_DMATXCTL_def IXGBE_RTTDCS_def IXGBE_MTQC_def IXGBE_TDBAL_def IXGBE_TDBAH_def IXGBE_TDLEN_def IXGBE_TDH_def
  IXGBE_TDT_def IXGBE_TXDCTL_def IXGBE_TDWBAL_def IXGBE_TDWBAH_def

definition IXGBE_RTTDCS_ARBDIS :: u32 where "IXGBE_RTTDCS_ARBDIS = 0x00000040"
definition IXGBE_DMATXCTL_TE :: u32 where "IXGBE_DMATXCTL_TE = 0x1"
definition IXGBE_TXDCTL_ENABLE :: u32 where "IXGBE_TXDCTL_ENABLE = 0x02000000"
definition IXGBE_TXDCTL_SWFLSH :: u32 where "IXGBE_TXDCTL_SWFLSH = 0x04000000"

definition ixmap_setup_mtqc :: "unit prog" where
  "ixmap_setup_mtqc = do {
     r \<leftarrow> ixmap_read_reg IXGBE_RTTDCS;
     let rttdcs = r OR IXGBE_RTTDCS_ARBDIS;
     _ \<leftarrow> ixmap_write_reg IXGBE_RTTDCS rttdcs;
     _ \<leftarrow> ixmap_write_reg IXGBE_MTQC 0;
     ixmap_write_reg IXGBE_RTTDCS (rttdcs AND NOT IXGBE_RTTDCS_ARBDIS) }"

definition ixmap_configure_tx_ring :: "ixmap_handle \<Rightarrow> nat \<Rightarrow> ixmap_ring \<Rightarrow> ixmap_ring prog" where
  "ixmap_configure_tx_ring ih i ring = do {
     let addr_dma = ring_dma ring;
     _ \<leftarrow> ixmap_write_reg (IXGBE_TXDCTL i) IXGBE_TXDCTL_SWFLSH;
     _ \<leftarrow> ixmap_write_flush;
     _ \<leftarrow> ixmap_write_reg (IXGBE_TDBAL i) (ucast (addr_dma AND 0xFFFFFFFF));
     _ \<leftarrow> ixmap_write_reg (IXGBE_TDBAH i) (ucast (drop_bit 32 addr_dma));
     _ \<leftarrow> ixmap_write_reg (IXGBE_TDLEN i) (ih_num_tx_desc ih * 16);
     _ \<leftarrow> ixmap_write_reg (IXGBE_TDWBAH i) 0;
     _ \<leftarrow> ixmap_write_reg (IXGBE_TDWBAL i) 0;
     _ \<leftarrow> ixmap_write_reg (IXGBE_TDH i) 0;
     _ \<leftarrow> ixmap_write_reg (IXGBE_TDT i) 0;
     let ring1 = ring\<lparr>tail := bar ih + IXGBE_TDT i\<rparr>;
     let wthresh = (if num_interrupt_rate ih < 8 then push_bit 16 1 else push_bit 16 8);
     let txdctl = IXGBE_TXDCTL_ENABLE OR wthresh OR push_bit 8 1 OR 32;
     _ \<leftarrow> ixmap_write_reg (IXGBE_TXDCTL i) txdctl;
     _ \<leftarrow> poll 10 (IXGBE_TXDCTL i) (\<lambda>x. x AND IXGBE_TXDCTL_ENABLE = 0);
     State_Monad.return ring1 }"

definition ixmap_configure_tx :: "ixmap_handle \<Rightarrow> ixmap_handle prog" where
  "ixmap_configure_tx ih = do {
     _ \<leftarrow> ixmap_setup_mtqc;
     dmatxctl \<leftarrow> ixmap_read_reg IXGBE_DMATXCTL;
     _ \<leftarrow> ixmap_write_reg IXGBE_DMATXCTL (dmatxctl OR IXGBE_DMATXCTL_TE);
     rs \<leftarrow> configure_rings (ixmap_configure_tx_ring ih) 0 (ih_tx_ring ih);
     State_Monad.return (ih\<lparr>ih_tx_ring := rs\<rparr>) }"

section \<open>What has been written\<close>

text \<open>\<open>writes_sat m Q\<close>: whatever the card answers, the program writes a list that satisfies \<open>Q\<close> for its result.\<close>

definition writes_sat :: "'a prog \<Rightarrow> ('a \<Rightarrow> (nat \<times> u32) list \<Rightarrow> bool) \<Rightarrow> bool" where
  "writes_sat m Q \<longleftrightarrow> (\<forall>c. \<exists>ws. Q (fst (run_state m c)) ws \<and> writes (snd (run_state m c)) = writes c @ ws)"

lemma writes_sat_read [simp]: "writes_sat (ixmap_read_reg r) Q \<longleftrightarrow> (\<forall>v. Q v [])"
proof
  assume "writes_sat (ixmap_read_reg r) Q"
  then show "\<forall>v. Q v []"
    unfolding writes_sat_def ixmap_read_reg_def
    by (auto dest: spec [of _ "\<lparr>answers = \<lambda>_. v, nreads = 0, writes = []\<rparr>" for v])
qed (simp add: writes_sat_def ixmap_read_reg_def)

lemma writes_sat_write: "Q () [(r, v)] \<Longrightarrow> writes_sat (ixmap_write_reg r v) Q"
  by (simp add: writes_sat_def ixmap_write_reg_def)

lemma writes_sat_return: "Q x [] \<Longrightarrow> writes_sat (State_Monad.return x) Q"
  by (simp add: writes_sat_def State_Monad.return_def)

lemma writes_sat_bind:
  assumes "writes_sat m P" "\<And>x ws. P x ws \<Longrightarrow> writes_sat (f x) (\<lambda>y ws'. Q y (ws @ ws'))"
  shows "writes_sat (m \<bind> f) Q"
  unfolding writes_sat_def
proof
  fix c
  obtain ws where 1: "P (fst (run_state m c)) ws" "writes (snd (run_state m c)) = writes c @ ws"
    using assms(1) unfolding writes_sat_def by blast
  obtain ws' where "Q (fst (run_state (f (fst (run_state m c))) (snd (run_state m c)))) (ws @ ws')"
      "writes (snd (run_state (f (fst (run_state m c))) (snd (run_state m c)))) = writes (snd (run_state m c)) @ ws'"
    using assms(2) [OF 1(1)] unfolding writes_sat_def by blast
  then show "\<exists>ws. Q (fst (run_state (m \<bind> f) c)) ws \<and> writes (snd (run_state (m \<bind> f) c)) = writes c @ ws"
    using 1(2) by (intro exI [of _ "ws @ ws'"]) (simp add: split_beta)
qed

lemma writes_sat_mono: "writes_sat m P \<Longrightarrow> (\<And>x ws. P x ws \<Longrightarrow> Q x ws) \<Longrightarrow> writes_sat m Q"
  unfolding writes_sat_def by blast

lemma writes_sat_poll: "writes_sat (poll n r busy) (\<lambda>_ ws. ws = [])"
proof (induction n)
  case (Suc n)
  show ?case by (auto intro!: writes_sat_bind [where P = "\<lambda>_ ws. ws = []"] Suc writes_sat_return)
qed (simp add: writes_sat_return)

end
