(* ===== verification/Ring_Setup.thy ===== *)
theory Ring_Setup
  imports Registers
begin

text \<open>
  What a card has been told after \<open>ixmap_configure_rx\<close> and \<open>ixmap_configure_tx\<close>: the address and the length of
  every ring, the tail registers that the ring driver writes, the spreading of the packets over the queues,
  and the order in which things are enabled.
\<close>

section \<open>Verification conditions\<close>

lemma wp_bind: "writes_sat m (\<lambda>x ws. writes_sat (f x) (\<lambda>y ws'. Q y (ws @ ws'))) \<Longrightarrow> writes_sat (m \<bind> f) Q"
  by (rule writes_sat_bind)

lemma wp_if: "(b \<Longrightarrow> writes_sat m Q) \<Longrightarrow> (\<not> b \<Longrightarrow> writes_sat m' Q) \<Longrightarrow> writes_sat (if b then m else m') Q"
  by simp

lemma wp_read: "(\<And>v. Q v []) \<Longrightarrow> writes_sat (ixmap_read_reg r) Q"
  by simp

lemma wp_poll: "Q () [] \<Longrightarrow> writes_sat (poll n r busy) Q"
  by (rule writes_sat_mono [OF writes_sat_poll]) simp

lemma wp_flush: "Q () [] \<Longrightarrow> writes_sat ixmap_write_flush Q"
  unfolding ixmap_write_flush_def by (intro wp_bind wp_read writes_sat_return) simp

lemmas wp = wp_bind wp_if wp_read wp_poll wp_flush writes_sat_write writes_sat_return

section \<open>The last value of a register\<close>

definition last_write :: "(nat \<times> u32) list \<Rightarrow> nat \<Rightarrow> u32 option" where
  "last_write ws = map_of (rev ws)"

lemma last_write_append: "last_write (xs @ ys) r = (case last_write ys r of None \<Rightarrow> last_write xs r | Some v \<Rightarrow> Some v)"
  by (simp add: last_write_def map_add_def split: option.split)

lemma last_write_simps [simp]: "last_write [] r = None" "last_write [(q, v)] r = (if q = r then Some v else None)"
  by (simp_all add: last_write_def)

lemma last_write_Cons: "last_write (x # xs) r = (case last_write xs r of None \<Rightarrow> if fst x = r then Some (snd x) else None | Some v \<Rightarrow> Some v)"
  using last_write_append [of "[x]" xs r] by (cases x) (simp split: option.split)

lemma last_write_None: "r \<notin> fst ` set ws \<Longrightarrow> last_write ws r = None"
  by (simp add: last_write_def map_of_eq_None_iff)

section \<open>One ring\<close>

definition srrctl_value :: "ixmap_handle \<Rightarrow> u32" where
  "srrctl_value ih = drop_bit 10 ((ih_buf_size ih + 1023) AND NOT 1023) OR (if ih_num_queues ih > 1 then 0x12000000 else 0x02000000)"

definition rx_ring_writes :: "ixmap_handle \<Rightarrow> nat \<Rightarrow> ixmap_ring \<Rightarrow> u32 \<Rightarrow> u32 \<Rightarrow> (nat \<times> u32) list" where
  "rx_ring_writes ih i ring v0 v1 =
     [(IXGBE_RXDCTL i, v0 AND NOT IXGBE_RXDCTL_ENABLE), (IXGBE_RDBAL i, ucast (ring_dma ring AND 0xFFFFFFFF)),
      (IXGBE_RDBAH i, ucast (drop_bit 32 (ring_dma ring))), (IXGBE_RDLEN i, ih_num_rx_desc ih * 16), (IXGBE_RDH i, 0), (IXGBE_RDT i, 0),
      (IXGBE_SRRCTL i, srrctl_value ih), (IXGBE_RXDCTL i, v1 OR IXGBE_RXDCTL_ENABLE)]"

lemma rx_ring_sat:
  "writes_sat (ixmap_configure_rx_ring ih i ring) (\<lambda>r ws. r = ring\<lparr>tail := bar ih + IXGBE_RDT i\<rparr> \<and> (\<exists>v0 v1. ws = rx_ring_writes ih i ring v0 v1))"
  unfolding ixmap_configure_rx_ring_def ixmap_disable_rx_queue_def ixmap_configure_srrctl_def ixmap_rx_desc_queue_enable_def Let_def
  by (intro wp) (auto simp: rx_ring_writes_def srrctl_value_def or.assoc)

definition tx_ring_writes :: "ixmap_handle \<Rightarrow> nat \<Rightarrow> ixmap_ring \<Rightarrow> (nat \<times> u32) list" where
  "tx_ring_writes ih i ring =
     [(IXGBE_TXDCTL i, IXGBE_TXDCTL_SWFLSH), (IXGBE_TDBAL i, ucast (ring_dma ring AND 0xFFFFFFFF)),
      (IXGBE_TDBAH i, ucast (drop_bit 32 (ring_dma ring))), (IXGBE_TDLEN i, ih_num_tx_desc ih * 16), (IXGBE_TDWBAH i, 0), (IXGBE_TDWBAL i, 0),
      (IXGBE_TDH i, 0), (IXGBE_TDT i, 0),
      (IXGBE_TXDCTL i, IXGBE_TXDCTL_ENABLE OR (if num_interrupt_rate ih < 8 then push_bit 16 1 else push_bit 16 8) OR push_bit 8 1 OR 32)]"

lemma tx_ring_sat:
  "writes_sat (ixmap_configure_tx_ring ih i ring) (\<lambda>r ws. r = ring\<lparr>tail := bar ih + IXGBE_TDT i\<rparr> \<and> ws = tx_ring_writes ih i ring)"
  unfolding ixmap_configure_tx_ring_def Let_def
  by (intro wp) (simp add: tx_ring_writes_def)

section \<open>All rings\<close>

text \<open>The result and the writes of every ring, in order.\<close>

lemma configure_rings_sat:
  assumes "\<And>i r. writes_sat (f i r) (P i r)" "i + length rs \<le> 256"
  shows "writes_sat (configure_rings f i rs) (\<lambda>rs' ws. \<exists>wss. length rs' = length rs \<and> length wss = length rs \<and> ws = concat wss \<and>
    (\<forall>k < length rs. P (i + k) (rs ! k) (rs' ! k) (wss ! k)))"
  using assms(2)
proof (induction rs arbitrary: i)
  case Nil
  then show ?case by (auto intro: wp)
next
  case (Cons r rs)
  have i: "i mod 256 = i" using Cons.prems by simp
  have "writes_sat (configure_rings f (i + 1) rs \<bind> (\<lambda>rs1. State_Monad.return (r1 # rs1)))
      (\<lambda>rs' ws'. \<exists>wss. length rs' = length (r # rs) \<and> length wss = length (r # rs) \<and> ws @ ws' = concat wss \<and>
        (\<forall>k < length (r # rs). P (i + k) ((r # rs) ! k) (rs' ! k) (wss ! k)))" if "P i r r1 ws" for r1 ws
  proof (rule writes_sat_bind [OF Cons.IH], goal_cases)
    case (2 rs1 ws1)
    then obtain wss where "length rs1 = length rs" "length wss = length rs" "ws1 = concat wss"
        "\<forall>k < length rs. P (i + 1 + k) (rs ! k) (rs1 ! k) (wss ! k)" by blast
    then show ?case using that
      by (intro writes_sat_return exI [of _ "ws # wss"]) (auto simp: nth_Cons split: nat.split)
  qed (use Cons.prems in simp)
  then show ?case unfolding configure_rings.simps i by (rule writes_sat_bind [OF assms(1)])
qed

section \<open>The redirection table\<close>

definition reta_word :: "nat \<Rightarrow> nat \<Rightarrow> u32" where
  "reta_word q k = (let b = (\<lambda>m. of_nat ((4 * k + m) mod q) :: u32)
     in push_bit 24 (b 0) OR push_bit 16 (b 1) OR push_bit 8 (b 2) OR b 3)"

definition wrap :: "u32 \<Rightarrow> u32 \<Rightarrow> u32" where
  "wrap q j = (if j = q then 0 else j)"

lemma unat_of_nat_u32: "k < 4294967296 \<Longrightarrow> unat (of_nat k :: u32) = k"
  by (simp add: unat_of_nat)

lemma wrap_step:
  assumes "wrap q j = of_nat (i mod unat q)" "0 < unat q"
  shows "wrap q (wrap q j + 1) = of_nat (Suc i mod unat q)"
proof -
  have lt: "i mod unat q < unat q" using assms(2) by simp
  have e: "wrap q j + 1 = of_nat (Suc (i mod unat q))" by (simp add: assms(1))
  show ?thesis
  proof (cases "Suc (i mod unat q) = unat q")
    case True
    have "(of_nat (Suc (i mod unat q)) :: u32) = q" unfolding True by simp
    then have "wrap q (wrap q j + 1) = 0" unfolding e by (simp add: wrap_def)
    moreover have "Suc i mod unat q = 0" using True by (simp add: mod_Suc)
    ultimately show ?thesis by simp
  next
    case False
    have n: "unat (of_nat (Suc (i mod unat q)) :: u32) = Suc (i mod unat q)"
      by (rule unat_of_nat_u32) (use lt unat_bound_u32 [of q] in linarith)
    then have "(of_nat (Suc (i mod unat q)) :: u32) \<noteq> q" using False by metis
    then have "wrap q (wrap q j + 1) = of_nat (Suc (i mod unat q))" unfolding e by (simp only: wrap_def if_False)
    moreover have "Suc i mod unat q = Suc (i mod unat q)" using False by (simp add: mod_Suc)
    ultimately show ?thesis by (simp only:)
  qed
qed

lemma reta_four:
  fixes a b c d r :: u32
  shows "push_bit 8 (push_bit 8 (push_bit 8 (push_bit 8 r OR a) OR b) OR c) OR d = push_bit 24 a OR push_bit 16 b OR push_bit 8 c OR d"
  by (intro bit_word_eqI) (auto simp: bit_simps)

lemma reta_fill_step:
  "i mod 4 \<noteq> 3 \<Longrightarrow> reta_fill q (i # ks) j r = reta_fill q ks (wrap q j + 1) (push_bit 8 r OR wrap q j)"
  "i mod 4 = 3 \<Longrightarrow> i < 128 \<Longrightarrow> reta_fill q (i # ks) j r =
     ixmap_write_reg (IXGBE_RETA (i div 4)) (push_bit 8 r OR wrap q j) \<bind> (\<lambda>_. reta_fill q ks (wrap q j + 1) (push_bit 8 r OR wrap q j))"
  by (simp_all add: wrap_def Let_def)

lemma reta_fill_sat:
  assumes "0 < unat q" "wrap q j = of_nat (4 * k mod unat q)" "k + n \<le> 32"
  shows "writes_sat (reta_fill q [4 * k..<4 * (k + n)] j r) (\<lambda>_ ws. ws = map (\<lambda>k. (IXGBE_RETA k, reta_word (unat q) k)) [k..<k + n])"
  using assms(2,3)
proof (induction n arbitrary: k j r)
  case 0
  then show ?case by (simp add: writes_sat_return)
next
  case (Suc n)
  let ?i = "4 * k"
  have l: "[?i..<4 * (k + Suc n)] = ?i # (?i + 1) # (?i + 2) # (?i + 3) # [4 * (k + 1)..<4 * (k + 1 + n)]"
    by (simp add: upt_conv_Cons) (simp add: numeral_eq_Suc)
  have m: "?i mod 4 \<noteq> 3" "(?i + 1) mod 4 \<noteq> 3" "(?i + 2) mod 4 \<noteq> 3" "(?i + 3) mod 4 = 3" "?i + 3 < 128" "(?i + 3) div 4 = k"
    using Suc.prems(2) by presburger+
  define j1 j2 j3 where "j1 = wrap q j + 1" and "j2 = wrap q j1 + 1" and "j3 = wrap q j2 + 1"
  have b: "wrap q j1 = of_nat ((?i + 1) mod unat q)" "wrap q j2 = of_nat ((?i + 2) mod unat q)" "wrap q j3 = of_nat ((?i + 3) mod unat q)"
    "wrap q (wrap q j3 + 1) = of_nat (4 * (k + 1) mod unat q)"
    using wrap_step [OF Suc.prems(1) assms(1)] wrap_step [of q j1 "?i + 1"] wrap_step [of q j2 "?i + 2"] wrap_step [of q j3 "?i + 3"] assms(1)
    by (simp_all add: j1_def j2_def j3_def numeral_eq_Suc)
  let ?w = "push_bit 8 (push_bit 8 (push_bit 8 (push_bit 8 r OR wrap q j) OR wrap q j1) OR wrap q j2) OR wrap q j3"
  have w: "?w = reta_word (unat q) k" unfolding reta_four reta_word_def Let_def b Suc.prems(1) by simp
  have "reta_fill q [?i..<4 * (k + Suc n)] j r =
      ixmap_write_reg (IXGBE_RETA k) ?w \<bind> (\<lambda>_. reta_fill q [4 * (k + 1)..<4 * (k + 1 + n)] (wrap q j3 + 1) ?w)"
    unfolding l reta_fill_step(1) [OF m(1)] reta_fill_step(1) [OF m(2)] reta_fill_step(1) [OF m(3)] reta_fill_step(2) [OF m(4,5)] m(6)
      j3_def j2_def j1_def ..
  then have e: "reta_fill q [?i..<4 * (k + Suc n)] j r =
      ixmap_write_reg (IXGBE_RETA k) (reta_word (unat q) k) \<bind> (\<lambda>_. reta_fill q [4 * (k + 1)..<4 * (k + 1 + n)] (wrap q j3 + 1) (reta_word (unat q) k))"
    unfolding w .
  have u: "[k..<k + Suc n] = k # [k + 1..<k + 1 + n]" by (simp add: upt_conv_Cons del: upt_Suc)
  have "k + 1 + n \<le> 32" using Suc.prems(2) by simp
  note ih = Suc.IH [OF b(4) this]
  show ?case unfolding e u by (rule wp_bind, rule writes_sat_write, rule writes_sat_mono [OF ih]) simp
qed

text \<open>
  The four entries of a register of the redirection table, in the order in which the code shifts them in, the
  most significant byte first.  The card numbers the entries of a register from the least significant byte.
\<close>

definition reta_entry :: "u32 \<Rightarrow> nat \<Rightarrow> nat" where
  "reta_entry v m = unat (drop_bit (8 * (3 - m)) v AND 0xFF)"

lemma byte_of_four:
  fixes a b c d :: u32
  assumes "take_bit 8 a = a" "take_bit 8 b = b" "take_bit 8 c = c" "take_bit 8 d = d"
  defines "w \<equiv> push_bit 24 a OR push_bit 16 b OR push_bit 8 c OR d"
  shows "take_bit 8 (drop_bit 24 w) = a" "take_bit 8 (drop_bit 16 w) = b" "take_bit 8 (drop_bit 8 w) = c" "take_bit 8 w = d"
proof -
  have n: "\<not> bit x i" if "take_bit 8 x = x" "8 \<le> i" for x :: u32 and i
    using that by (metis bit_take_bit_iff not_less)
  show "take_bit 8 (drop_bit 24 w) = a" "take_bit 8 (drop_bit 16 w) = b" "take_bit 8 (drop_bit 8 w) = c" "take_bit 8 w = d"
    unfolding w_def
    by (intro bit_word_eqI; auto simp: bit_simps n assms(1-4) not_less dest: bit_imp_le_length;
        metis n assms(1-4) not_less)+
qed

lemma reta_word_entry:
  assumes "0 < q" "q \<le> 256" "m < 4"
  shows "reta_entry (reta_word q k) m = (4 * k + m) mod q"
proof -
  have lt: "x mod q < 256" for x using assms(1,2) mod_less_divisor [of q x] by linarith
  have u: "unat (of_nat (x mod q) :: u32) = x mod q" for x using lt [of x] by (intro unat_of_nat_u32) simp
  have t: "take_bit 8 (of_nat (x mod q) :: u32) = of_nat (x mod q)" for x
    unfolding word_unat_eq_iff unsigned_take_bit_eq u using lt [of x] by (simp add: take_bit_eq_mod)
  have f: "x AND 0xFF = take_bit 8 x" for x :: u32 by (simp add: take_bit_eq_mask mask_eq_exp_minus_1)
  consider "m = 0" | "m = 1" | "m = 2" | "m = 3" using assms(3) by linarith
  then show ?thesis
    by cases (simp_all add: reta_entry_def reta_word_def f byte_of_four [OF t t t t, simplified] u Let_def)
qed

section \<open>The receive side\<close>

text \<open>The registers of the queues lie below those of the whole card.\<close>

definition queue_area :: "nat set" where "queue_area = {0x1000..<0x2200}"

lemma rx_ring_area: "i < 64 \<Longrightarrow> fst ` set (rx_ring_writes ih i ring v0 v1) \<subseteq> queue_area"
  by (simp add: rx_ring_writes_def rx_regs queue_area_def)

lemma for_m_write: "writes_sat (for_m (\<lambda>i. ixmap_write_reg (f i) (g i)) xs) (\<lambda>_ ws. ws = map (\<lambda>i. (f i, g i)) xs)"
proof (induction xs)
  case (Cons x xs)
  show ?case by (simp, rule wp_bind, rule writes_sat_write, rule writes_sat_mono [OF Cons.IH]) simp
qed (simp add: writes_sat_return)

lemma last_write_map:
  assumes "inj f" "distinct xs" "x \<in> set xs"
  shows "last_write (map (\<lambda>i. (f i, g i)) xs) (f x) = Some (g x)"
proof -
  have d: "distinct (map fst (rev (map (\<lambda>i. (f i, g i)) xs)))"
    using assms(1,2) by (simp add: rev_map comp_def distinct_map inj_on_subset [OF assms(1)])
  show ?thesis unfolding last_write_def using assms(3) by (subst map_of_eq_Some_iff [OF d]) auto
qed

lemma inj_reta: "inj IXGBE_RETA"
  by (rule injI) (simp add: IXGBE_RETA_def)

lemma mrqc_sat:
  assumes "0 < unat (ih_num_queues ih)"
  shows "writes_sat (ixmap_setup_mrqc ih) (\<lambda>_ ws. (\<forall>k < 32. last_write ws (IXGBE_RETA k) = Some (reta_word (unat (ih_num_queues ih)) k)) \<and>
    fst ` set ws \<subseteq> {0x5000..<0x6000})"
proof -
  let ?q = "ih_num_queues ih"
  define A where "A = map (\<lambda>i. (IXGBE_RSSRK i, rss_seed ! i)) [0..<10]"
  define R where "R = map (\<lambda>k. (IXGBE_RETA k, reta_word (unat ?q) k)) [0..<32]"
  have "writes_sat (reta_fill ?q [0..<128] 0 0) (\<lambda>_ ws. ws = R)"
    using reta_fill_sat [of ?q 0 0 32 0] assms by (simp add: R_def wrap_def)
  moreover have "writes_sat (for_m (\<lambda>i. ixmap_write_reg (IXGBE_RSSRK i) (rss_seed ! i)) [0..<10]) (\<lambda>_ ws. ws = A)"
    unfolding A_def by (rule for_m_write)
  ultimately have "writes_sat (ixmap_setup_mrqc ih) (\<lambda>_ ws. \<exists>v w. ws = A @ R @ [(IXGBE_RXCSUM, v), (IXGBE_MRQC, w)])"
    unfolding ixmap_setup_mrqc_def Let_def
    by - (rule writes_sat_bind, assumption, rule writes_sat_bind, assumption, auto intro!: wp)
  moreover have "last_write (A @ R @ [(IXGBE_RXCSUM, v), (IXGBE_MRQC, w)]) (IXGBE_RETA k) = Some (reta_word (unat ?q) k)" if "k < 32" for k v w
  proof -
    have 1: "last_write R (IXGBE_RETA k) = Some (reta_word (unat ?q) k)"
      unfolding R_def using that by (intro last_write_map inj_reta) auto
    have 2: "last_write [(IXGBE_RXCSUM, v), (IXGBE_MRQC, w)] (IXGBE_RETA k) = None" by (simp add: last_write_Cons rx_regs)
    show ?thesis by (simp only: last_write_append 1 2 option.case)
  qed
  moreover have "fst ` set (A @ R @ [(IXGBE_RXCSUM, v), (IXGBE_MRQC, w)]) \<subseteq> {0x5000..<0x6000}" for v w
    by (auto simp: A_def R_def rx_regs)
  ultimately show ?thesis by (elim writes_sat_mono) blast
qed

subsection \<open>The size of a packet buffer\<close>

lemma and_not_1023: "(x :: u32) AND NOT 1023 = push_bit 10 (drop_bit 10 x)"
proof -
  have m: "(1023 :: u32) = mask 10" by (simp add: mask_eq_exp_minus_1)
  show ?thesis unfolding m by (intro bit_word_eqI) (auto simp: bit_simps)
qed

lemma unat_align_1024:
  assumes "unat (x :: u32) + 1023 < 2 ^ 32"
  shows "unat ((x + 1023) AND NOT 1023) = (unat x + 1023) div 1024 * 1024"
proof -
  have s: "unat (x + 1023) = unat x + 1023" using assms by (simp add: unat_word_ariths)
  have "unat (push_bit 10 (drop_bit 10 w)) = unat w div 1024 * 1024" for w :: u32
  proof -
    have "unat w div 1024 * 1024 < 4294967296" using unat_bound_u32 [of w] div_times_less_eq_dividend [of "unat w" 1024] by linarith
    then show ?thesis unfolding unsigned_push_bit_eq unsigned_drop_bit_eq by (simp add: take_bit_eq_mod push_bit_eq_mult drop_bit_eq_div)
  qed
  then show ?thesis unfolding and_not_1023 by (simp only: s)
qed

lemma srrctl_size:
  assumes "unat (ih_buf_size ih) = n * 1024" "n \<le> 16"
  shows "1024 * unat (srrctl_value ih AND 0x1F) = unat (ih_buf_size ih)"
proof -
  define y where "y = drop_bit 10 ((ih_buf_size ih + 1023) AND NOT 1023)"
  have "unat ((ih_buf_size ih + 1023) AND NOT 1023) = n * 1024"
    using assms by (subst unat_align_1024) simp_all
  then have y: "unat y = n" unfolding y_def unsigned_drop_bit_eq using assms(2) by (simp add: drop_bit_eq_div take_bit_eq_mod)
  have f: "x AND 0x1F = take_bit 5 x" for x :: u32 by (simp add: take_bit_eq_mask mask_eq_exp_minus_1)
  have "srrctl_value ih AND 0x1F = take_bit 5 y"
    unfolding srrctl_value_def y_def [symmetric] f by (simp add: take_bit_or)
  also have "unat \<dots> = n" unfolding unsigned_take_bit_eq y using assms(2) by (simp add: take_bit_eq_mod)
  finally show ?thesis using assms(1) by simp
qed

definition quiet :: "(nat \<times> u32) list \<Rightarrow> bool" where
  "quiet ws \<longleftrightarrow> (\<forall>(r, v) \<in> set ws. r \<notin> queue_area \<and> r \<notin> IXGBE_RETA ` {..<32} \<and> (r = IXGBE_RXCTRL \<longrightarrow> v AND IXGBE_RXCTRL_RXEN = 0))"

lemma quiet_simps: "quiet []" "quiet (x # y # xs) \<longleftrightarrow> quiet [x] \<and> quiet (y # xs)" "quiet (xs @ ys) \<longleftrightarrow> quiet xs \<and> quiet ys"
  by (auto simp: quiet_def)

lemma quiet_single: "quiet [(r, v)] \<longleftrightarrow> r \<notin> queue_area \<and> r \<notin> IXGBE_RETA ` {..<32} \<and> (r = IXGBE_RXCTRL \<longrightarrow> v AND IXGBE_RXCTRL_RXEN = 0)"
  by (simp add: quiet_def)

lemma reta_image: "r \<in> IXGBE_RETA ` {..<32} \<longleftrightarrow> 0x5C00 \<le> r \<and> r < 0x5C80 \<and> r mod 4 = 0"
proof
  assume "0x5C00 \<le> r \<and> r < 0x5C80 \<and> r mod 4 = 0"
  then have "r = IXGBE_RETA ((r - 0x5C00) div 4)" "(r - 0x5C00) div 4 < 32" unfolding IXGBE_RETA_def by presburger+
  then show "r \<in> IXGBE_RETA ` {..<32}" by blast
qed (auto simp: IXGBE_RETA_def)

lemma quiet_regs:
  "quiet [(IXGBE_VMOLR, v)]" "quiet [(IXGBE_VLNCTRL, v)]" "quiet [(IXGBE_FCTRL, v)]" "quiet [(IXGBE_PSRTYPE, v)]" "quiet [(IXGBE_RSCDBU, v)]"
  "quiet [(IXGBE_RDRXCTL, v)]" "quiet [(IXGBE_RFCTL, v)]" "quiet [(IXGBE_MHADD, v)]" "quiet [(IXGBE_HLREG0, v)]"
  "quiet [(IXGBE_RXCTRL, v AND NOT IXGBE_RXCTRL_RXEN)]"
  by (simp_all add: quiet_single reta_image queue_area_def IXGBE_VMOLR_def IXGBE_VLNCTRL_def IXGBE_FCTRL_def IXGBE_PSRTYPE_def IXGBE_RSCDBU_def
    IXGBE_RDRXCTL_def IXGBE_RFCTL_def IXGBE_MHADD_def IXGBE_HLREG0_def IXGBE_RXCTRL_def and.assoc)

lemma rx_mode_sat: "writes_sat (ixmap_set_rx_mode ih) (\<lambda>_. quiet)"
  unfolding ixmap_set_rx_mode_def Let_def by (intro wp) (simp add: quiet_simps quiet_regs)

lemma rx_disable_sat: "writes_sat ixmap_disable_rx (\<lambda>_. quiet)"
  unfolding ixmap_disable_rx_def by (intro wp) (simp_all add: quiet_simps quiet_regs)

lemma psrtype_sat: "writes_sat (ixmap_setup_psrtype ih) (\<lambda>_. quiet)"
  unfolding ixmap_setup_psrtype_def Let_def by (intro wp) (simp add: quiet_regs)

lemma rdrxctl_sat: "writes_sat ixmap_setup_rdrxctl (\<lambda>_. quiet)"
  unfolding ixmap_setup_rdrxctl_def by (intro wp) (simp_all add: quiet_simps quiet_regs)

lemma rfctl_sat: "writes_sat ixmap_setup_rfctl (\<lambda>_. quiet)"
  unfolding ixmap_setup_rfctl_def by (intro wp) (simp add: quiet_regs)

definition rx_buffer_fits :: "ixmap_handle \<Rightarrow> ixmap_handle \<Rightarrow> bool" where
  "rx_buffer_fits ih ih1 \<longleftrightarrow> ih1 = ih\<lparr>ih_mtu_frame := ih_mtu_frame ih1, ih_buf_size := ih_buf_size ih1\<rparr> \<and>
     unat (ih_mtu_frame ih) + 4 \<le> unat (ih_mtu_frame ih1) \<and> unat (ih_mtu_frame ih1) \<le> unat (ih_buf_size ih1) \<and>
     (\<exists>n \<in> {2..16}. unat (ih_buf_size ih1) = n * 1024)"

lemma buffer_len_sat:
  assumes "unat (ih_mtu_frame ih) + 4 \<le> 16384"
  shows "writes_sat (ixmap_set_rx_buffer_len ih) (\<lambda>ih1 ws. quiet ws \<and> rx_buffer_fits ih ih1)"
proof -
  define mtu where "mtu = (if ih_mtu_frame ih < ETH_FRAME_LEN + ETH_FCS_LEN then ETH_FRAME_LEN + ETH_FCS_LEN else ih_mtu_frame ih)"
  define len where "len = (mtu + VLAN_HLEN + 1023) AND NOT 1023"
  have m: "unat mtu + 4 \<le> 16384" "1518 \<le> unat mtu" "unat (ih_mtu_frame ih) \<le> unat mtu"
    using assms by (simp_all add: mtu_def ETH_FRAME_LEN_def ETH_FCS_LEN_def word_less_nat_alt)
  have v: "unat (mtu + VLAN_HLEN) = unat mtu + 4" using m(1) by (simp add: VLAN_HLEN_def unat_word_ariths)
  have l: "unat len = (unat mtu + 1027) div 1024 * 1024"
    unfolding len_def using m(1) by (subst unat_align_1024) (simp_all add: v)
  have "\<not> len > IXGBE_MAX_RXBUFFER" using m(1) by (simp add: word_less_nat_alt l IXGBE_MAX_RXBUFFER_def)
  then have "rx_buffer_fits ih (ih\<lparr>ih_mtu_frame := mtu + VLAN_HLEN, ih_buf_size := if len > IXGBE_MAX_RXBUFFER then IXGBE_MAX_RXBUFFER else len\<rparr>)"
    using m by (auto simp: rx_buffer_fits_def v l intro!: bexI [of _ "(unat mtu + 1027) div 1024"])
  then show ?thesis
    unfolding ixmap_set_rx_buffer_len_def Let_def mtu_def [symmetric] len_def [symmetric]
    by (intro wp) (simp_all add: quiet_simps quiet_regs)
qed

subsection \<open>What the card has been told\<close>

definition rx_queue_ready :: "ixmap_handle \<Rightarrow> (nat \<times> u32) list \<Rightarrow> nat \<Rightarrow> bool" where
  "rx_queue_ready ih ws i \<longleftrightarrow>
     (\<exists>lo hi. last_write ws (IXGBE_RDBAL i) = Some lo \<and> last_write ws (IXGBE_RDBAH i) = Some hi \<and>
        push_bit 32 (ucast hi) OR ucast lo = ring_dma (ih_rx_ring ih ! i)) \<and>
     last_write ws (IXGBE_RDLEN i) = Some (ih_num_rx_desc ih * 16) \<and>
     last_write ws (IXGBE_RDH i) = Some 0 \<and> last_write ws (IXGBE_RDT i) = Some 0 \<and> tail (ih_rx_ring ih ! i) = bar ih + IXGBE_RDT i \<and>
     (\<exists>v. last_write ws (IXGBE_SRRCTL i) = Some v \<and> 1024 * unat (v AND 0x1F) = unat (ih_buf_size ih)) \<and>
     (\<exists>v. last_write ws (IXGBE_RXDCTL i) = Some (v OR IXGBE_RXDCTL_ENABLE))"

definition reta_spread :: "nat \<Rightarrow> (nat \<times> u32) list \<Rightarrow> bool" where
  "reta_spread q ws \<longleftrightarrow> (\<forall>k < 32. \<forall>m < 4. map_option (\<lambda>v. reta_entry v m) (last_write ws (IXGBE_RETA k)) = Some ((4 * k + m) mod q))"

definition rx_enabled_last :: "(nat \<times> u32) list \<Rightarrow> bool" where
  "rx_enabled_last ws \<longleftrightarrow> (\<exists>ws0 v. ws = ws0 @ [(IXGBE_RXCTRL, v OR IXGBE_RXCTRL_RXEN)] \<and>
     (\<forall>u. (IXGBE_RXCTRL, u) \<in> set ws0 \<longrightarrow> u AND IXGBE_RXCTRL_RXEN = 0))"

lemma last_write_concat:
  assumes "i < length wss" "\<And>k. k < length wss \<Longrightarrow> k \<noteq> i \<Longrightarrow> r \<notin> fst ` set (wss ! k)" "last_write (wss ! i) r = Some v"
  shows "last_write (concat wss) r = Some v"
proof -
  have "concat wss = concat (take i wss) @ wss ! i @ concat (drop (Suc i) wss)"
    using assms(1) by (metis concat.simps(2) concat_append id_take_nth_drop)
  moreover have "r \<notin> fst ` set (concat (drop (Suc i) wss))"
  proof
    assume "r \<in> fst ` set (concat (drop (Suc i) wss))"
    then obtain ws where ws: "ws \<in> set (drop (Suc i) wss)" "r \<in> fst ` set ws" by auto
    then obtain k where "k < length (drop (Suc i) wss)" "drop (Suc i) wss ! k = ws" unfolding in_set_conv_nth by blast
    then have "k < length (drop (Suc i) wss)" "r \<in> fst ` set (drop (Suc i) wss ! k)" using ws(2) by simp_all
    moreover from this(1) have "Suc i + k < length wss" by simp
    ultimately show False using assms(2) [of "Suc i + k"] by simp
  qed
  ultimately show ?thesis by (simp add: last_write_append last_write_None assms(3))
qed

lemma word_halves: "push_bit 32 (ucast (ucast (drop_bit 32 a) :: u32)) OR ucast (ucast (a AND 0xFFFFFFFF) :: u32) = (a :: u64)"
proof -
  have m: "(0xFFFFFFFF :: u64) = mask 32" by (simp add: mask_eq_exp_minus_1)
  have t: "ucast (ucast x :: u32) = (take_bit 32 x :: u64)" for x :: u64
    by (rule bit_word_eqI) (simp add: bit_ucast_iff bit_take_bit_iff)
  show ?thesis unfolding t m take_bit_eq_mask [symmetric]
    by (rule bit_word_eqI) (auto simp: bit_or_iff bit_push_bit_iff bit_take_bit_iff bit_drop_bit_eq)
qed

text \<open>The registers of one queue are not those of another.\<close>

definition rx_queue_of :: "nat \<Rightarrow> nat" where
  "rx_queue_of r = (if r < 0x2000 then r div 0x40 - 0x40 else (r - 0x2100) div 4)"

lemma rx_queue_of_regs:
  assumes "i < 64"
  shows "rx_queue_of (IXGBE_RDBAL i) = i" "rx_queue_of (IXGBE_RDBAH i) = i" "rx_queue_of (IXGBE_RDLEN i) = i" "rx_queue_of (IXGBE_RDH i) = i"
    "rx_queue_of (IXGBE_RDT i) = i" "rx_queue_of (IXGBE_RXDCTL i) = i" "rx_queue_of (IXGBE_SRRCTL i) = i"
  using assms by (simp_all add: rx_queue_of_def rx_regs)

lemma rx_ring_own: "k < 64 \<Longrightarrow> rx_queue_of r \<noteq> k \<Longrightarrow> r \<notin> fst ` set (rx_ring_writes ih k ring v0 v1)"
  by (auto simp: rx_ring_writes_def rx_queue_of_regs)

lemma rx_ring_last:
  fixes ih ring v0 v1
  assumes "i < 64"
  defines "ws \<equiv> rx_ring_writes ih i ring v0 v1"
  shows "last_write ws (IXGBE_RDBAL i) = Some (ucast (ring_dma ring AND 0xFFFFFFFF))"
    "last_write ws (IXGBE_RDBAH i) = Some (ucast (drop_bit 32 (ring_dma ring)))"
    "last_write ws (IXGBE_RDLEN i) = Some (ih_num_rx_desc ih * 16)" "last_write ws (IXGBE_RDH i) = Some 0" "last_write ws (IXGBE_RDT i) = Some 0"
    "last_write ws (IXGBE_SRRCTL i) = Some (srrctl_value ih)" "last_write ws (IXGBE_RXDCTL i) = Some (v1 OR IXGBE_RXDCTL_ENABLE)"
  using assms(1) unfolding ws_def rx_ring_writes_def by (simp_all add: last_write_Cons rx_regs)

lemma last_write_middle:
  assumes "last_write ys r = Some v" "r \<notin> fst ` set zs"
  shows "last_write (xs @ ys @ zs) r = Some v"
  using assms by (simp add: last_write_append last_write_None)

lemma rx_rings_ready:
  assumes "length wss = n" "n \<le> 64" "i < n" "unat (ih_buf_size ih) = b * 1024" "b \<le> 16" "r \<notin> queue_area"
    and "\<And>k. k < n \<Longrightarrow> rs ! k = (ih_rx_ring ih ! k)\<lparr>tail := bar ih + IXGBE_RDT k\<rparr> \<and> (\<exists>v0 v1. wss ! k = rx_ring_writes ih k (ih_rx_ring ih ! k) v0 v1)"
  shows "rx_queue_ready (ih\<lparr>ih_rx_ring := rs\<rparr>) (pre @ concat wss @ [(r, v)]) i"
proof -
  obtain v0 v1 where i: "rs ! i = (ih_rx_ring ih ! i)\<lparr>tail := bar ih + IXGBE_RDT i\<rparr>" "wss ! i = rx_ring_writes ih i (ih_rx_ring ih ! i) v0 v1"
    using assms(3,7) by blast
  have l: "last_write (pre @ concat wss @ [(r, v)]) x = Some y" if "last_write (wss ! i) x = Some y" "rx_queue_of x = i" for x y
  proof (intro last_write_middle last_write_concat [where i = i])
    fix k assume k: "k < length wss" "k \<noteq> i"
    then have "k < n" "k < 64" "rx_queue_of x \<noteq> k" using assms(1,2) that(2) by simp_all
    then show "x \<notin> fst ` set (wss ! k)" using assms(7) rx_ring_own by metis
  next
    have "x \<in> fst ` set (wss ! i)" using that(1) last_write_None by fastforce
    then have "x \<in> queue_area" using rx_ring_area [of i] assms(2,3) unfolding i(2) by fastforce
    then show "x \<notin> fst ` set [(r, v)]" using assms(6) by auto
  qed (use assms(1,3) that in auto)
  have lt: "i < 64" using assms(2,3) by simp
  note q = rx_ring_last [OF lt, of ih "ih_rx_ring ih ! i" v0 v1, folded i(2)]
  note w = l [OF q(1)] l [OF q(2)] l [OF q(3)] l [OF q(4)] l [OF q(5)] l [OF q(6)] l [OF q(7)]
  show ?thesis
    unfolding rx_queue_ready_def using i(1) srrctl_size [OF assms(4,5)]
    by (simp add: w rx_queue_of_regs lt word_halves) blast
qed

lemma quiet_last: "quiet ws \<Longrightarrow> k < 32 \<Longrightarrow> last_write ws (IXGBE_RETA k) = None"
  by (intro last_write_None) (auto simp: quiet_def dest!: bspec)

text \<open>The writes before the rings: a quiet part, the distribution over the queues, and another quiet part.\<close>

lemma rx_all_told:
  fixes v
  assumes "quiet a" "quiet c" "rx_buffer_fits ih ih1" "0 < q" "q \<le> 64" "length wss = q"
    and m: "\<forall>k < 32. last_write m (IXGBE_RETA k) = Some (reta_word q k)" "fst ` set m \<subseteq> {0x5000..<0x6000}"
    and rings: "\<And>k. k < q \<Longrightarrow> rs ! k = (ih_rx_ring ih1 ! k)\<lparr>tail := bar ih1 + IXGBE_RDT k\<rparr> \<and>
      (\<exists>v0 v1. wss ! k = rx_ring_writes ih1 k (ih_rx_ring ih1 ! k) v0 v1)"
  defines "ws \<equiv> ((a @ m @ c) @ concat wss @ [(IXGBE_RXCTRL, v OR IXGBE_RXCTRL_RXEN)])"
  shows "(\<forall>i < q. rx_queue_ready (ih1\<lparr>ih_rx_ring := rs\<rparr>) ws i) \<and> reta_spread q ws \<and> rx_enabled_last ws"
proof (intro conjI allI impI)
  obtain b where "unat (ih_buf_size ih1) = b * 1024" "b \<le> 16" using assms(3) by (auto simp: rx_buffer_fits_def)
  moreover have "IXGBE_RXCTRL \<notin> queue_area" by (simp add: IXGBE_RXCTRL_def queue_area_def)
  ultimately show "rx_queue_ready (ih1\<lparr>ih_rx_ring := rs\<rparr>) ws i" if "i < q" for i
    unfolding ws_def using rings by (intro rx_rings_ready [OF assms(6,5) that])
next
  have in_area: "r \<in> queue_area" if "r \<in> fst ` set (concat wss)" for r
  proof -
    obtain xs where "xs \<in> set wss" "r \<in> fst ` set xs" using \<open>r \<in> fst ` set (concat wss)\<close> by auto
    then obtain k where "k < q" "r \<in> fst ` set (wss ! k)" using assms(6) unfolding in_set_conv_nth by blast
    then show ?thesis using rings [of k] rx_ring_area [of k] assms(5) by fastforce
  qed
  have reta: "last_write ws (IXGBE_RETA k) = Some (reta_word q k)" if "k < 32" for k
  proof -
    have 1: "last_write (concat wss @ [(IXGBE_RXCTRL, v OR IXGBE_RXCTRL_RXEN)]) (IXGBE_RETA k) = None"
      using in_area [of "IXGBE_RETA k"] by (intro last_write_None) (auto simp: IXGBE_RETA_def IXGBE_RXCTRL_def queue_area_def)
    show ?thesis unfolding ws_def last_write_append [of "a @ m @ c"] 1
      using m(1) that by (simp add: last_write_append quiet_last [OF assms(2)])
  qed
  then show "reta_spread q ws" unfolding reta_spread_def using assms(4,5) by (simp add: reta_word_entry)
  have "u AND IXGBE_RXCTRL_RXEN = 0" if "(IXGBE_RXCTRL, u) \<in> set (a @ m @ c @ concat wss)" for u
  proof -
    have "(IXGBE_RXCTRL, u) \<notin> set m" using m(2) by (force simp: IXGBE_RXCTRL_def)
    moreover have "(IXGBE_RXCTRL, u) \<notin> set (concat wss)"
      using in_area [of IXGBE_RXCTRL] by (force simp: IXGBE_RXCTRL_def queue_area_def)
    ultimately show ?thesis using that assms(1,2) by (auto simp: quiet_def)
  qed
  then show "rx_enabled_last ws" unfolding rx_enabled_last_def ws_def by (intro exI [of _ "a @ m @ c @ concat wss"] exI [of _ v]) simp
qed

lemma rx_buffer_fitsD:
  assumes "rx_buffer_fits ih ih1"
  shows "ih_rx_ring ih1 = ih_rx_ring ih" "unat (ih_mtu_frame ih) + 4 \<le> unat (ih_mtu_frame ih1)" "unat (ih_mtu_frame ih1) \<le> unat (ih_buf_size ih1)"
proof -
  have "ih1 = ih\<lparr>ih_mtu_frame := ih_mtu_frame ih1, ih_buf_size := ih_buf_size ih1\<rparr>" using assms unfolding rx_buffer_fits_def by blast
  then show "ih_rx_ring ih1 = ih_rx_ring ih" by (metis ixmap_handle.ext_inject ixmap_handle.surjective ixmap_handle.update_convs(16,17))
qed (use assms in \<open>simp_all add: rx_buffer_fits_def\<close>)

definition rx_told :: "ixmap_handle \<Rightarrow> ixmap_handle \<Rightarrow> (nat \<times> u32) list \<Rightarrow> bool" where
  "rx_told ih ih1 ws \<longleftrightarrow>
     (\<forall>i < unat (ih_num_queues ih). rx_queue_ready ih1 ws i \<and> ring_dma (ih_rx_ring ih1 ! i) = ring_dma (ih_rx_ring ih ! i)) \<and>
     unat (ih_mtu_frame ih) + 4 \<le> unat (ih_mtu_frame ih1) \<and> unat (ih_mtu_frame ih1) \<le> unat (ih_buf_size ih1) \<and>
     reta_spread (unat (ih_num_queues ih)) ws \<and> rx_enabled_last ws"

lemma rx_told_parts:
  fixes ih :: ixmap_handle and v :: u32
  defines "q \<equiv> unat (ih_num_queues ih)"
  assumes "quiet w1" "quiet w2" "quiet w3" "quiet w4" "quiet w5" "0 < q" "q \<le> 64" "length (ih_rx_ring ih) = q"
    and m: "(\<forall>k < 32. last_write m (IXGBE_RETA k) = Some (reta_word q k)) \<and> fst ` set m \<subseteq> {0x5000..<0x6000}"
    and c: "quiet c \<and> rx_buffer_fits ih ih1"
    and r: "\<exists>wss. length rs = length (ih_rx_ring ih1) \<and> length wss = length (ih_rx_ring ih1) \<and> x = concat wss \<and>
      (\<forall>k < length (ih_rx_ring ih1). rs ! k = (ih_rx_ring ih1 ! k)\<lparr>tail := bar ih1 + IXGBE_RDT (0 + k)\<rparr> \<and>
        (\<exists>v0 v1. wss ! k = rx_ring_writes ih1 (0 + k) (ih_rx_ring ih1 ! k) v0 v1))"
  shows "rx_told ih (ih1\<lparr>ih_rx_ring := rs\<rparr>) ((((((w1 @ w2) @ w3) @ w4) @ w5) @ m @ c) @ x @ [(IXGBE_RXCTRL, v OR IXGBE_RXCTRL_RXEN)])"
proof -
  note f = rx_buffer_fitsD [OF conjunct2 [OF c]]
  obtain wss where w: "length wss = q" "x = concat wss" "\<And>k. k < q \<Longrightarrow> rs ! k = (ih_rx_ring ih1 ! k)\<lparr>tail := bar ih1 + IXGBE_RDT k\<rparr> \<and>
      (\<exists>v0 v1. wss ! k = rx_ring_writes ih1 k (ih_rx_ring ih1 ! k) v0 v1)"
    using r unfolding f(1) assms(9) add_0 by blast
  have a: "quiet ((((w1 @ w2) @ w3) @ w4) @ w5)" using assms(2-6) by (simp only: quiet_simps simp_thms)
  note t = rx_all_told [OF a conjunct1 [OF c] conjunct2 [OF c] assms(7,8) w(1) conjunct1 [OF m] conjunct2 [OF m] w(3)]
  have "ring_dma (rs ! i) = ring_dma (ih_rx_ring ih ! i)" if "i < q" for i using w(3) [OF that] f(1) by simp
  then show ?thesis using t [of v] f unfolding w(2) rx_told_def q_def [symmetric] by simp
qed

text \<open>
  C39.  Whatever the card answers, \<open>ixmap_configure_rx\<close> tells it, for each of the at most 64 queues, the bus
  address of the ring (in two halves) and its length in bytes, a head and a tail of zero, and a packet buffer
  of exactly \<open>buf_size\<close> bytes, which holds a frame of the (adjusted) MTU; the ring driver's \<open>tail\<close> is the
  queue's tail register; every queue is enabled; the 128 entries of the redirection table, those of each
  register taken from its most significant byte, name the queues in rotation; and reception is enabled by the very last write, every earlier write to \<open>RXCTRL\<close> clearing it.
\<close>

theorem ixmap_configure_rx_correct:
  assumes "length (ih_rx_ring ih) = unat (ih_num_queues ih)" "0 < ih_num_queues ih" "ih_num_queues ih \<le> 64" "unat (ih_mtu_frame ih) + 4 \<le> 16384"
  shows "writes_sat (ixmap_configure_rx ih) (rx_told ih)"
proof -
  let ?q = "unat (ih_num_queues ih)"
  have q: "0 < ?q" "?q \<le> 64" using assms(2,3) by (simp_all add: word_less_nat_alt word_le_nat_alt)
  show ?thesis
    unfolding ixmap_configure_rx_def
  proof (rule writes_sat_bind [OF rx_mode_sat], rule writes_sat_bind [OF rx_disable_sat], rule writes_sat_bind [OF psrtype_sat],
      rule writes_sat_bind [OF rdrxctl_sat], rule writes_sat_bind [OF rfctl_sat], rule writes_sat_bind [OF mrqc_sat [OF q(1)]],
      rule writes_sat_bind [OF buffer_len_sat [OF assms(4)]], rule writes_sat_bind [OF configure_rings_sat [OF rx_ring_sat]], goal_cases)
    case (1 _ w1 _ w2 _ w3 _ w4 _ w5 _ m ih1 c)
    then show ?case using rx_buffer_fitsD(1) [of ih ih1] q(2) assms(1) by simp
  next
    case (2 _ w1 _ w2 _ w3 _ w4 _ w5 _ m ih1 c rs x)
    show ?case
      unfolding ixmap_enable_rx_def by (intro wp) (use rx_told_parts [OF 2(1-5) q assms(1) 2(6-8)] in simp)
  qed
qed

theorem ixmap_configure_rx_correct_witness:
  "length (ih_rx_ring ex_ih) = unat (ih_num_queues ex_ih) \<and> 0 < ih_num_queues ex_ih \<and> ih_num_queues ex_ih \<le> 64 \<and>
   unat (ih_mtu_frame ex_ih) + 4 \<le> 16384 \<and>
   writes_sat (ixmap_configure_rx ex_ih) (\<lambda>ih1 ws. last_write ws (IXGBE_RDLEN 0) = Some (ih_num_rx_desc ih1 * 16) \<and> reta_spread 1 ws)"
proof -
  have h: "length (ih_rx_ring ex_ih) = unat (ih_num_queues ex_ih)" "0 < ih_num_queues ex_ih" "ih_num_queues ex_ih \<le> 64"
      "unat (ih_mtu_frame ex_ih) + 4 \<le> 16384" "unat (ih_num_queues ex_ih) = 1"
    by (simp_all add: ex_ih_def)
  have "writes_sat (ixmap_configure_rx ex_ih) (\<lambda>ih1 ws. last_write ws (IXGBE_RDLEN 0) = Some (ih_num_rx_desc ih1 * 16) \<and> reta_spread 1 ws)"
    by (rule writes_sat_mono [OF ixmap_configure_rx_correct [OF h(1-4)]]) (simp add: rx_told_def h(5) rx_queue_ready_def)
  then show ?thesis using h by simp
qed

section \<open>The transmit side\<close>

definition tx_queue_ready :: "ixmap_handle \<Rightarrow> (nat \<times> u32) list \<Rightarrow> nat \<Rightarrow> bool" where
  "tx_queue_ready ih ws i \<longleftrightarrow>
     (\<exists>lo hi. last_write ws (IXGBE_TDBAL i) = Some lo \<and> last_write ws (IXGBE_TDBAH i) = Some hi \<and>
        push_bit 32 (ucast hi) OR ucast lo = ring_dma (ih_tx_ring ih ! i)) \<and>
     last_write ws (IXGBE_TDLEN i) = Some (ih_num_tx_desc ih * 16) \<and>
     last_write ws (IXGBE_TDH i) = Some 0 \<and> last_write ws (IXGBE_TDT i) = Some 0 \<and> tail (ih_tx_ring ih ! i) = bar ih + IXGBE_TDT i \<and>
     (\<exists>v. last_write ws (IXGBE_TXDCTL i) = Some (IXGBE_TXDCTL_ENABLE OR v))"

definition tx_queue_of :: "nat \<Rightarrow> nat" where "tx_queue_of r = (r - 0x6000) div 0x40"

lemma tx_queue_of_regs:
  "tx_queue_of (IXGBE_TDBAL i) = i" "tx_queue_of (IXGBE_TDBAH i) = i" "tx_queue_of (IXGBE_TDLEN i) = i" "tx_queue_of (IXGBE_TDH i) = i"
  "tx_queue_of (IXGBE_TDT i) = i" "tx_queue_of (IXGBE_TXDCTL i) = i" "tx_queue_of (IXGBE_TDWBAL i) = i" "tx_queue_of (IXGBE_TDWBAH i) = i"
  by (simp_all add: tx_queue_of_def tx_regs)

lemma tx_ring_own: "tx_queue_of r \<noteq> k \<Longrightarrow> r \<notin> fst ` set (tx_ring_writes ih k ring)"
  by (auto simp: tx_ring_writes_def tx_queue_of_regs)

lemma tx_ring_last:
  fixes ih i ring
  defines "ws \<equiv> tx_ring_writes ih i ring"
  shows "last_write ws (IXGBE_TDBAL i) = Some (ucast (ring_dma ring AND 0xFFFFFFFF))"
    "last_write ws (IXGBE_TDBAH i) = Some (ucast (drop_bit 32 (ring_dma ring)))"
    "last_write ws (IXGBE_TDLEN i) = Some (ih_num_tx_desc ih * 16)" "last_write ws (IXGBE_TDH i) = Some 0" "last_write ws (IXGBE_TDT i) = Some 0"
    "last_write ws (IXGBE_TXDCTL i) = Some (IXGBE_TXDCTL_ENABLE OR ((if num_interrupt_rate ih < 8 then push_bit 16 1 else push_bit 16 8) OR push_bit 8 1 OR 32))"
  unfolding ws_def tx_ring_writes_def by (simp_all add: last_write_Cons tx_regs or.assoc)

lemma tx_rings_ready:
  assumes "length wss = n" "i < n"
    and "\<And>k. k < n \<Longrightarrow> rs ! k = (ih_tx_ring ih ! k)\<lparr>tail := bar ih + IXGBE_TDT k\<rparr> \<and> wss ! k = tx_ring_writes ih k (ih_tx_ring ih ! k)"
  shows "tx_queue_ready (ih\<lparr>ih_tx_ring := rs\<rparr>) (pre @ concat wss) i"
proof -
  have i: "rs ! i = (ih_tx_ring ih ! i)\<lparr>tail := bar ih + IXGBE_TDT i\<rparr>" "wss ! i = tx_ring_writes ih i (ih_tx_ring ih ! i)"
    using assms(2,3) by simp_all
  have l: "last_write (pre @ concat wss) x = Some y" if "last_write (wss ! i) x = Some y" "tx_queue_of x = i" for x y
  proof -
    have "last_write (concat wss) x = Some y"
    proof (rule last_write_concat [OF _ _ that(1)])
      fix k assume "k < length wss" "k \<noteq> i"
      then show "x \<notin> fst ` set (wss ! k)" using assms(1,3) tx_ring_own that(2) by metis
    qed (use assms(1,2) in simp)
    then show ?thesis by (simp add: last_write_append)
  qed
  note q = tx_ring_last [of ih i "ih_tx_ring ih ! i", folded i(2)]
  note w = l [OF q(1)] l [OF q(2)] l [OF q(3)] l [OF q(4)] l [OF q(5)] l [OF q(6)]
  show ?thesis unfolding tx_queue_ready_def using i(1) by (simp add: w tx_queue_of_regs word_halves) blast
qed

definition tx_told :: "ixmap_handle \<Rightarrow> ixmap_handle \<Rightarrow> (nat \<times> u32) list \<Rightarrow> bool" where
  "tx_told ih ih1 ws \<longleftrightarrow>
     (\<forall>i < unat (ih_num_queues ih). tx_queue_ready ih1 ws i \<and> ring_dma (ih_tx_ring ih1 ! i) = ring_dma (ih_tx_ring ih ! i)) \<and>
     (\<exists>v u ws1. ws = [(IXGBE_RTTDCS, v OR IXGBE_RTTDCS_ARBDIS), (IXGBE_MTQC, 0), (IXGBE_RTTDCS, v AND NOT IXGBE_RTTDCS_ARBDIS),
        (IXGBE_DMATXCTL, u OR IXGBE_DMATXCTL_TE)] @ ws1 \<and> fst ` set ws1 \<subseteq> {0x6000..<0x7000})"

lemma tx_ring_area: "i < 64 \<Longrightarrow> fst ` set (tx_ring_writes ih i ring) \<subseteq> {0x6000..<0x7000}"
  by (simp add: tx_ring_writes_def tx_regs)

lemma tx_told_parts:
  fixes ih :: ixmap_handle and v u :: u32
  defines "q \<equiv> unat (ih_num_queues ih)"
  assumes "length (ih_tx_ring ih) = q" "q \<le> 64"
    and r: "\<exists>wss. length rs = length (ih_tx_ring ih) \<and> length wss = length (ih_tx_ring ih) \<and> x = concat wss \<and>
      (\<forall>k < length (ih_tx_ring ih). rs ! k = (ih_tx_ring ih ! k)\<lparr>tail := bar ih + IXGBE_TDT (0 + k)\<rparr> \<and>
        wss ! k = tx_ring_writes ih (0 + k) (ih_tx_ring ih ! k))"
  shows "tx_told ih (ih\<lparr>ih_tx_ring := rs\<rparr>) ([(IXGBE_RTTDCS, v OR IXGBE_RTTDCS_ARBDIS), (IXGBE_MTQC, 0),
    (IXGBE_RTTDCS, v AND NOT IXGBE_RTTDCS_ARBDIS), (IXGBE_DMATXCTL, u OR IXGBE_DMATXCTL_TE)] @ x)"
proof -
  obtain wss where w: "length wss = q" "x = concat wss" "\<And>k. k < q \<Longrightarrow> rs ! k = (ih_tx_ring ih ! k)\<lparr>tail := bar ih + IXGBE_TDT k\<rparr> \<and>
      wss ! k = tx_ring_writes ih k (ih_tx_ring ih ! k)"
    using r unfolding assms(2) add_0 by blast
  have "fst ` set xs \<subseteq> {0x6000..<0x7000}" if xs: "xs \<in> set wss" for xs
  proof -
    obtain k where k: "k < q" "xs = wss ! k" using xs w(1) unfolding in_set_conv_nth by blast
    show ?thesis unfolding k(2) conjunct2 [OF w(3) [OF k(1)]] using k(1) assms(3) by (intro tx_ring_area) simp
  qed
  then have area: "fst ` set x \<subseteq> {0x6000..<0x7000}" unfolding w(2) by auto
  have rings: "tx_queue_ready (ih\<lparr>ih_tx_ring := rs\<rparr>) (pre @ x) i \<and> ring_dma (ih_tx_ring (ih\<lparr>ih_tx_ring := rs\<rparr>) ! i) = ring_dma (ih_tx_ring ih ! i)"
    if "i < q" for i pre
    unfolding w(2) using tx_rings_ready [OF w(1) that w(3)] w(3) [OF that] by simp
  show ?thesis unfolding tx_told_def q_def [symmetric] using rings area by blast
qed

text \<open>
  C40.  Whatever the card answers, \<open>ixmap_configure_tx\<close> sets the queue layout while the arbiter is disabled,
  enables the transmitter before it touches any queue, and tells the card for each of the at most 64 queues
  the bus address and the length of its ring and a head and a tail of zero, enabling the queue last; the ring
  driver's \<open>tail\<close> is the queue's tail register.
\<close>

theorem ixmap_configure_tx_correct:
  assumes "length (ih_tx_ring ih) = unat (ih_num_queues ih)" "ih_num_queues ih \<le> 64"
  shows "writes_sat (ixmap_configure_tx ih) (tx_told ih)"
proof -
  have q: "unat (ih_num_queues ih) \<le> 64" using assms(2) by (simp add: word_le_nat_alt)
  have d: "(v OR IXGBE_RTTDCS_ARBDIS) AND NOT IXGBE_RTTDCS_ARBDIS = v AND NOT IXGBE_RTTDCS_ARBDIS" for v
    by (simp add: bit.conj_disj_distrib2)
  have rings: "writes_sat (configure_rings (ixmap_configure_tx_ring ih) 0 (ih_tx_ring ih)) (\<lambda>rs x. \<forall>v u. tx_told ih (ih\<lparr>ih_tx_ring := rs\<rparr>)
      ([(IXGBE_RTTDCS, v OR IXGBE_RTTDCS_ARBDIS), (IXGBE_MTQC, 0), (IXGBE_RTTDCS, v AND NOT IXGBE_RTTDCS_ARBDIS), (IXGBE_DMATXCTL, u OR IXGBE_DMATXCTL_TE)] @ x))"
  proof (rule writes_sat_mono [OF configure_rings_sat [OF tx_ring_sat]], goal_cases)
    case 1
    then show ?case using q assms(1) by simp
  next
    case (2 rs x)
    then show ?case by (intro allI tx_told_parts [OF assms(1) q])
  qed
  show ?thesis
    unfolding ixmap_configure_tx_def ixmap_setup_mtqc_def Let_def d
    by (intro wp_bind wp_read writes_sat_write) (rule writes_sat_mono [OF rings], intro writes_sat_return, simp)
qed

theorem ixmap_configure_tx_correct_witness:
  "length (ih_tx_ring ex_ih) = unat (ih_num_queues ex_ih) \<and> ih_num_queues ex_ih \<le> 64 \<and>
   writes_sat (ixmap_configure_tx ex_ih) (\<lambda>ih1 ws. last_write ws (IXGBE_TDLEN 0) = Some (ih_num_tx_desc ih1 * 16))"
proof -
  have h: "length (ih_tx_ring ex_ih) = unat (ih_num_queues ex_ih)" "ih_num_queues ex_ih \<le> 64" "unat (ih_num_queues ex_ih) = 1"
    by (simp_all add: ex_ih_def)
  have "writes_sat (ixmap_configure_tx ex_ih) (\<lambda>ih1 ws. last_write ws (IXGBE_TDLEN 0) = Some (ih_num_tx_desc ih1 * 16))"
    by (rule writes_sat_mono [OF ixmap_configure_tx_correct [OF h(1,2)]]) (simp add: tx_told_def h(3) tx_queue_ready_def)
  then show ?thesis using h by simp
qed

end
