(* ===== verification/Kernel_Dma.thy ===== *)
theory Kernel_Dma
  imports Os
begin

text \<open>
  The DMA areas of the kernel module, \<open>src/kmod/ixmap_dma.c\<close>.  What the module uses of the kernel is a
  multiset of the things it holds (blocks, pinned pages, tables of pages, DMA mappings, register mappings)
  and a sequence of answers, so that every behaviour of the kernel, failures included, is one value of
  \<open>kans\<close>; giving back what is not held has no result.  A page is its frame number.
\<close>

section \<open>The kernel\<close>

datatype kres =
    Kmem addr
  | Io addr
  | Page nat
  | Sg_table addr
  | Dma_map addr
  | Msix
  | Irq nat addr
  | Efd addr

record kern =
  kheld :: "kres multiset"
  kans :: "nat \<Rightarrow> int"
  kcalls :: nat

definition ksys :: "kern \<Rightarrow> int \<times> kern" where
  "ksys s = (kans s (kcalls s), s\<lparr>kcalls := kcalls s + 1\<rparr>)"

definition hold :: "kres multiset \<Rightarrow> kern \<Rightarrow> kern" where
  "hold rs s = s\<lparr>kheld := kheld s + rs\<rparr>"

definition drop_res :: "kres \<Rightarrow> kern \<Rightarrow> kern option" where
  "drop_res r s = (if r \<in># kheld s then Some (s\<lparr>kheld := kheld s - {#r#}\<rparr>) else None)"

text \<open>
  \<open>kzalloc\<close>, \<open>kfree\<close>, \<open>ioremap\<close> and \<open>iounmap\<close>; \<open>None\<close> is \<open>NULL\<close>.  A block that is in use is not handed out
  again.
\<close>

definition kzalloc :: "kern \<Rightarrow> addr option \<times> kern" where
  "kzalloc s = (case ksys s of (r, s1) \<Rightarrow> if r \<le> 0 \<or> Kmem (nat r) \<in># kheld s then (None, s1) else (Some (nat r), hold {#Kmem (nat r)#} s1))"

definition kfree :: "addr \<Rightarrow> kern \<Rightarrow> kern option" where
  "kfree a = drop_res (Kmem a)"

definition ioremap :: "kern \<Rightarrow> addr option \<times> kern" where
  "ioremap s = (case ksys s of (r, s1) \<Rightarrow> if r \<le> 0 then (None, s1) else (Some (nat r), hold {#Io (nat r)#} s1))"

definition iounmap :: "addr \<Rightarrow> kern \<Rightarrow> kern option" where
  "iounmap a = drop_res (Io a)"

text \<open>A number of answers, read one after the other.\<close>

fun kread :: "nat \<Rightarrow> kern \<Rightarrow> nat list \<times> kern" where
  "kread 0 s = ([], s)"
| "kread (Suc n) s = (case ksys s of (r, s1) \<Rightarrow> case kread n s1 of (rs, s2) \<Rightarrow> (nat r # rs, s2))"

text \<open>
  \<open>get_user_pages\<close> pins at most the pages asked for and returns how many, or an error; the entries of the
  array beyond them keep the 0 of \<open>kzalloc\<close>.
\<close>

definition get_user_pages :: "nat \<Rightarrow> kern \<Rightarrow> int \<times> nat list \<times> kern" where
  "get_user_pages npages s =
     (case ksys s of
        (r, s1) \<Rightarrow>
          if r < 0 then (r, replicate npages 0, s1)
          else case kread (min (nat r) npages) s1 of
            (ps, s2) \<Rightarrow> (int (length ps), ps @ replicate (npages - length ps) 0, hold (image_mset Page (mset ps)) s2))"

text \<open>\<open>set_page_dirty_lock\<close> and \<open>put_page\<close> on every page of an array.\<close>

fun put_pages :: "nat list \<Rightarrow> kern \<Rightarrow> kern option" where
  "put_pages [] s = Some s"
| "put_pages (p # ps) s = do { s1 \<leftarrow> drop_res (Page p) s; put_pages ps s1 }"

section \<open>Tables of pages\<close>

record sg_entry =
  sg_page :: nat
  sg_length :: u32
  sg_offset :: u32

definition PAGE_SHIFT :: nat where "PAGE_SHIFT = 12"
definition PAGE_SIZE :: u64 where "PAGE_SIZE = 4096"
definition PAGE_MASK :: u64 where "PAGE_MASK = NOT (PAGE_SIZE - 1)"
definition PAGE_ALIGN :: "u64 \<Rightarrow> u64" where "PAGE_ALIGN x = (x + PAGE_SIZE - 1) AND PAGE_MASK"

text \<open>The number of pages, from the head of a list on, that follow each other in memory.\<close>

fun run_length :: "nat list \<Rightarrow> nat" where
  "run_length [] = 0"
| "run_length [p] = 1"
| "run_length (p # q # ps) = (if q \<noteq> p + 1 then 1 else 1 + run_length (q # ps))"

definition chunks :: "nat list \<Rightarrow> nat" where
  "chunks ps = 1 + length (filter (\<lambda>i. ps ! i \<noteq> ps ! (i - 1) + 1) [1..<length ps])"

text \<open>\<open>sg_alloc_table_from_pages\<close>: one entry for each of the \<open>n\<close> chunks.\<close>

fun sg_chunks :: "nat \<Rightarrow> nat list \<Rightarrow> u64 \<Rightarrow> u64 \<Rightarrow> sg_entry list" where
  "sg_chunks 0 ps offset sz = []"
| "sg_chunks (Suc n) ps offset sz =
     (let j = run_length ps;
          chunk_size = ucast (push_bit PAGE_SHIFT (of_nat j :: u32)) - offset
      in \<lparr>sg_page = hd ps, sg_length = ucast (min sz chunk_size), sg_offset = ucast offset\<rparr> #
         sg_chunks n (drop j ps) 0 (sz - chunk_size))"

definition sg_alloc_table :: "addr \<Rightarrow> nat \<Rightarrow> kern \<Rightarrow> int \<times> kern" where
  "sg_alloc_table sgt nents s =
     (if nents = 0 then (-22, s)
      else case ksys s of (r, s1) \<Rightarrow> if r < 0 then (r, s1) else (0, hold {#Sg_table sgt#} s1))"

text \<open>The first page of an empty array is read out of range.\<close>

definition sg_alloc_table_from_pages :: "addr \<Rightarrow> nat list \<Rightarrow> u64 \<Rightarrow> u64 \<Rightarrow> kern \<Rightarrow> (int \<times> sg_entry list \<times> kern) option" where
  "sg_alloc_table_from_pages sgt pages offset sz s =
     (case sg_alloc_table sgt (chunks pages) s of
        (ret, s1) \<Rightarrow>
          if ret \<noteq> 0 then Some (ret, [], s1)
          else if pages = [] then None
          else Some (0, sg_chunks (chunks pages) pages offset sz, s1))"

definition sg_free_table :: "addr \<Rightarrow> kern \<Rightarrow> kern option" where
  "sg_free_table sgt = drop_res (Sg_table sgt)"

text \<open>
  \<open>dma_map_sg\<close> returns the number of entries it has mapped, at most as many as the table has and 0 for
  failure; the bus addresses and lengths of all entries of the table are answers.
\<close>

definition dma_map_sg :: "addr \<Rightarrow> nat \<Rightarrow> kern \<Rightarrow> nat \<times> (u64 \<times> u32) list \<times> kern" where
  "dma_map_sg sgt nents s =
     (case ksys s of
        (r, s1) \<Rightarrow>
          if r \<le> 0 \<or> nents = 0 then (0, [], s1)
          else case kread nents s1 of
            (as, s2) \<Rightarrow> case kread nents s2 of
              (ls, s3) \<Rightarrow> (min (nat r) nents, zip (map of_nat as) (map of_nat ls), hold {#Dma_map sgt#} s3))"

definition dma_unmap_sg :: "addr \<Rightarrow> kern \<Rightarrow> kern option" where
  "dma_unmap_sg sgt = drop_res (Dma_map sgt)"

section \<open>The areas of an adapter\<close>

definition IXGBE_DMA_CACHE_DISABLE :: u8 where "IXGBE_DMA_CACHE_DISABLE = 1"

record ixmap_dma_area =
  area_self :: addr
  area_refcount :: int
  area_size :: u64
  area_cache :: u8
  area_dma :: u64
  area_pages :: addr
  area_page_list :: "nat list"
  area_sgt :: addr

record dma_adapter =
  areas :: "ixmap_dma_area list"
  iobase :: u64
  iolen :: u64
  hw_addr :: addr

text \<open>
  \<open>ixmap_dma_area_whereto\<close>: the number of areas after which the new one goes, or \<open>None\<close> for an overlap;
  \<open>k\<close> is the number of areas passed.
\<close>

fun whereto :: "u64 \<Rightarrow> u64 \<Rightarrow> nat \<Rightarrow> ixmap_dma_area list \<Rightarrow> nat option" where
  "whereto start_new end_new k [] = Some k"
| "whereto start_new end_new k (a # as) =
     (let start_area = area_dma a;
          end_area = start_area + area_size a
      in if end_new \<le> start_area then Some k
         else if (start_new \<ge> start_area \<and> start_new < end_area) \<or> (end_new > start_area \<and> end_new \<le> end_area) then None
         else whereto start_new end_new (k + 1) as)"

definition ixmap_dma_area_whereto :: "dma_adapter \<Rightarrow> u64 \<Rightarrow> u64 \<Rightarrow> nat option" where
  "ixmap_dma_area_whereto adapter addr_dma sz = whereto addr_dma (addr_dma + sz) 0 (areas adapter)"

definition insert_area :: "nat \<Rightarrow> ixmap_dma_area \<Rightarrow> ixmap_dma_area list \<Rightarrow> ixmap_dma_area list" where
  "insert_area k a as = take k as @ a # drop k as"

definition ixmap_dma_area_lookup :: "dma_adapter \<Rightarrow> u64 \<Rightarrow> ixmap_dma_area option" where
  "ixmap_dma_area_lookup adapter addr_dma = find (\<lambda>a. area_dma a = addr_dma) (areas adapter)"

definition ixmap_dma_area_free :: "dma_adapter \<Rightarrow> ixmap_dma_area \<Rightarrow> kern \<Rightarrow> kern option" where
  "ixmap_dma_area_free adapter a s = do {
     s1 \<leftarrow> (if area_refcount a - 1 = 0 then
              if area_dma a = iobase adapter then iounmap (hw_addr adapter) s
              else do {
                t1 \<leftarrow> dma_unmap_sg (area_sgt a) s;
                t2 \<leftarrow> sg_free_table (area_sgt a) t1;
                t3 \<leftarrow> kfree (area_sgt a) t2;
                t4 \<leftarrow> put_pages (area_page_list a) t3;
                kfree (area_pages a) t4 }
            else Some s);
     kfree (area_self a) s1 }"

definition ixmap_dma_map_iobase :: "dma_adapter \<Rightarrow> kern \<Rightarrow> (addr option \<times> dma_adapter \<times> kern) option" where
  "ixmap_dma_map_iobase adapter s =
     (case ioremap s of
        (None, s1) \<Rightarrow> Some (None, adapter, s1)
      | (Some hw, s1) \<Rightarrow>
          (case ixmap_dma_area_whereto adapter (iobase adapter) (iolen adapter) of
             None \<Rightarrow> do { s2 \<leftarrow> iounmap hw s1; Some (None, adapter, s2) }
           | Some k \<Rightarrow>
               (case kzalloc s1 of
                  (None, s2) \<Rightarrow> do { s3 \<leftarrow> iounmap hw s2; Some (None, adapter, s3) }
                | (Some a, s2) \<Rightarrow>
                    let area = \<lparr>area_self = a, area_refcount = 1, area_size = iolen adapter, area_cache = IXGBE_DMA_CACHE_DISABLE, area_dma = iobase adapter,
                                area_pages = 0, area_page_list = [], area_sgt = 0\<rparr>
                    in Some (Some hw, adapter\<lparr>areas := insert_area k area (areas adapter)\<rparr>, s2))))"

text \<open>The scatter list: with the IOMMU one entry per page, without it one entry per chunk.\<close>

definition sg_build :: "bool \<Rightarrow> addr \<Rightarrow> nat list \<Rightarrow> u64 \<Rightarrow> kern \<Rightarrow> (int \<times> sg_entry list \<times> kern) option" where
  "sg_build intel_iommu_enabled sgt pages user_offset s =
     (if intel_iommu_enabled then
        case sg_alloc_table sgt (length pages) s of
          (ret, s1) \<Rightarrow> Some (ret, map (\<lambda>p. \<lparr>sg_page = p, sg_length = ucast PAGE_SIZE, sg_offset = 0\<rparr>) pages, s1)
      else sg_alloc_table_from_pages sgt pages user_offset (ucast (push_bit PAGE_SHIFT (of_nat (length pages) :: u32))) s)"

definition contiguous :: "nat \<Rightarrow> (u64 \<times> u32) list \<Rightarrow> bool" where
  "contiguous n segs \<longleftrightarrow> list_all (\<lambda>i. i + 1 < length segs \<longrightarrow> fst (segs ! i) + ucast (snd (segs ! i)) = fst (segs ! (i + 1))) [0..<n]"

definition user_pages :: "u64 \<Rightarrow> u64 \<Rightarrow> nat" where
  "user_pages addr_virtual sz =
     unat (ucast (drop_bit PAGE_SHIFT (PAGE_ALIGN (addr_virtual + sz) - (addr_virtual AND PAGE_MASK))) :: u32)"

text \<open>The error path, from \<open>err_alloc_sgt\<close> on.\<close>

definition undo_pages :: "nat list \<Rightarrow> addr \<Rightarrow> kern \<Rightarrow> kern option" where
  "undo_pages ps pages s = do { s1 \<leftarrow> put_pages ps s; kfree pages s1 }"

definition undo_sgt :: "addr \<Rightarrow> nat list \<Rightarrow> addr \<Rightarrow> kern \<Rightarrow> kern option" where
  "undo_sgt sgt ps pages s = do { s1 \<leftarrow> kfree sgt s; undo_pages ps pages s1 }"

definition undo_table :: "addr \<Rightarrow> nat list \<Rightarrow> addr \<Rightarrow> kern \<Rightarrow> kern option" where
  "undo_table sgt ps pages s = do { s1 \<leftarrow> sg_free_table sgt s; undo_sgt sgt ps pages s1 }"

definition undo_map :: "addr \<Rightarrow> nat list \<Rightarrow> addr \<Rightarrow> kern \<Rightarrow> kern option" where
  "undo_map sgt ps pages s = do { s1 \<leftarrow> dma_unmap_sg sgt s; undo_table sgt ps pages s1 }"

definition dma_map_fail :: "dma_adapter \<Rightarrow> kern option \<Rightarrow> (u64 \<times> dma_adapter \<times> kern) option" where
  "dma_map_fail adapter r = map_option (\<lambda>s. (0, adapter, s)) r"

text \<open>
  \<open>ixmap_dma_map\<close> of the kernel module, which returns the bus address or 0, in three parts: from the mapped
  segments on, from the scatter list on, and the whole function.
\<close>

definition dma_map_segs ::
    "dma_adapter \<Rightarrow> u64 \<Rightarrow> addr \<Rightarrow> nat list \<Rightarrow> addr \<Rightarrow> nat \<Rightarrow> (u64 \<times> u32) list \<Rightarrow> kern \<Rightarrow> (u64 \<times> dma_adapter \<times> kern) option" where
  "dma_map_segs adapter sz sgt ps pages n segs s =
     (if \<not> contiguous n segs then dma_map_fail adapter (undo_map sgt ps pages s)
      else let addr_dma = fst (segs ! 0)
        in case ixmap_dma_area_whereto adapter addr_dma sz of
          None \<Rightarrow> dma_map_fail adapter (undo_map sgt ps pages s)
        | Some k \<Rightarrow>
            (case kzalloc s of
               (None, s1) \<Rightarrow> dma_map_fail adapter (undo_map sgt ps pages s1)
             | (Some a, s1) \<Rightarrow>
                 let area = \<lparr>area_self = a, area_refcount = 1, area_size = sz, area_cache = IXGBE_DMA_CACHE_DISABLE, area_dma = addr_dma,
                             area_pages = pages, area_page_list = ps, area_sgt = sgt\<rparr>
                 in Some (addr_dma, adapter\<lparr>areas := insert_area k area (areas adapter)\<rparr>, s1)))"

definition dma_map_sgt ::
    "bool \<Rightarrow> dma_adapter \<Rightarrow> u64 \<Rightarrow> u64 \<Rightarrow> addr \<Rightarrow> nat list \<Rightarrow> addr \<Rightarrow> kern \<Rightarrow> (u64 \<times> dma_adapter \<times> kern) option" where
  "dma_map_sgt intel_iommu_enabled adapter sz user_offset sgt ps pages s = do {
     (ret, sgl, s1) \<leftarrow> sg_build intel_iommu_enabled sgt ps user_offset s;
     (if ret < 0 then dma_map_fail adapter (undo_sgt sgt ps pages s1)
      else case dma_map_sg sgt (length sgl) s1 of
        (n, segs, s2) \<Rightarrow>
          if n = 0 then dma_map_fail adapter (undo_table sgt ps pages s2)
          else dma_map_segs adapter sz sgt ps pages n segs s2) }"

definition kmod_dma_map :: "bool \<Rightarrow> dma_adapter \<Rightarrow> u64 \<Rightarrow> u64 \<Rightarrow> kern \<Rightarrow> (u64 \<times> dma_adapter \<times> kern) option" where
  "kmod_dma_map intel_iommu_enabled adapter addr_virtual sz s =
     (let npages = user_pages addr_virtual sz;
          user_offset = addr_virtual AND NOT PAGE_MASK
      in case kzalloc s of
        (None, s1) \<Rightarrow> dma_map_fail adapter (Some s1)
      | (Some pages, s1) \<Rightarrow>
          (case get_user_pages npages s1 of
             (ret, ps, s2) \<Rightarrow>
               if ret < 0 then dma_map_fail adapter (kfree pages s2)
               else case kzalloc s2 of
                 (None, s3) \<Rightarrow> dma_map_fail adapter (undo_pages ps pages s3)
               | (Some sgt, s3) \<Rightarrow> dma_map_sgt intel_iommu_enabled adapter sz user_offset sgt ps pages s3))"

definition ENOENT :: int where "ENOENT = 2"

definition kmod_dma_unmap :: "dma_adapter \<Rightarrow> u64 \<Rightarrow> kern \<Rightarrow> (int \<times> dma_adapter \<times> kern) option" where
  "kmod_dma_unmap adapter addr_dma s =
     (case ixmap_dma_area_lookup adapter addr_dma of
        None \<Rightarrow> Some (- ENOENT, adapter, s)
      | Some a \<Rightarrow> do {
          s1 \<leftarrow> ixmap_dma_area_free adapter a s;
          Some (0, adapter\<lparr>areas := remove1 a (areas adapter)\<rparr>, s1) })"

definition ixmap_dma_unmap_all :: "dma_adapter \<Rightarrow> kern \<Rightarrow> (dma_adapter \<times> kern) option" where
  "ixmap_dma_unmap_all adapter s = do { s1 \<leftarrow> for_each (ixmap_dma_area_free adapter) (areas adapter) s; Some (adapter\<lparr>areas := []\<rparr>, s1) }"

section \<open>What is held\<close>

lemma held_hold [simp]: "kheld (hold rs s) = kheld s + rs"
  by (simp add: hold_def)

lemma kzalloc_cases:
  obtains (fail) s1 where "kzalloc s = (None, s1)" "kheld s1 = kheld s" "kcalls s1 = kcalls s + 1" "kans s1 = kans s"
  | (ok) a s1 where "kzalloc s = (Some a, s1)" "kheld s1 = kheld s + {#Kmem a#}" "kcalls s1 = kcalls s + 1" "kans s1 = kans s" "Kmem a \<notin># kheld s"
proof (cases "fst (ksys s) \<le> 0 \<or> Kmem (nat (fst (ksys s))) \<in># kheld s")
  case True
  then show ?thesis by (intro fail [of "snd (ksys s)"]) (auto simp: kzalloc_def ksys_def)
next
  case False
  then show ?thesis by (intro ok [of "nat (fst (ksys s))" "hold {#Kmem (nat (fst (ksys s)))#} (snd (ksys s))"]) (auto simp: kzalloc_def ksys_def hold_def)
qed

lemma ioremap_cases:
  obtains (fail) s1 where "ioremap s = (None, s1)" "kheld s1 = kheld s"
  | (ok) a s1 where "ioremap s = (Some a, s1)" "kheld s1 = kheld s + {#Io a#}"
proof (cases "fst (ksys s) \<le> 0")
  case True
  then show ?thesis by (intro fail [of "snd (ksys s)"]) (auto simp: ioremap_def ksys_def)
next
  case False
  then show ?thesis by (intro ok [of "nat (fst (ksys s))" "hold {#Io (nat (fst (ksys s)))#} (snd (ksys s))"]) (auto simp: ioremap_def ksys_def hold_def)
qed

lemma kread_held: "kread n s = (xs, s1) \<Longrightarrow> kheld s1 = kheld s \<and> length xs = n"
  by (induction n arbitrary: s xs s1) (auto simp: ksys_def split: prod.splits)

lemma sg_alloc_table_cases:
  obtains (fail) r s1 where "sg_alloc_table sgt n s = (r, s1)" "r < 0" "kheld s1 = kheld s"
  | (ok) s1 where "sg_alloc_table sgt n s = (0, s1)" "kheld s1 = kheld s + {#Sg_table sgt#}" "n \<noteq> 0"
proof (cases "fst (ksys s) < 0 \<or> n = 0")
  case True
  then show ?thesis
    by (intro fail [of "fst (sg_alloc_table sgt n s)" "snd (sg_alloc_table sgt n s)"]) (auto simp: sg_alloc_table_def ksys_def)
next
  case False
  then show ?thesis by (intro ok [of "hold {#Sg_table sgt#} (snd (ksys s))"]) (auto simp: sg_alloc_table_def ksys_def)
qed

lemma dma_map_sg_cases:
  obtains (fail) s1 where "dma_map_sg sgt n s = (0, [], s1)" "kheld s1 = kheld s"
  | (ok) k segs s1 where "dma_map_sg sgt n s = (k, segs, s1)" "0 < k" "k \<le> n" "length segs = n" "kheld s1 = kheld s + {#Dma_map sgt#}"
proof (cases "fst (ksys s) \<le> 0 \<or> n = 0")
  case True
  then show ?thesis by (intro fail [of "snd (ksys s)"]) (auto simp: dma_map_sg_def ksys_def)
next
  case False
  obtain as s2 where 1: "kread n (snd (ksys s)) = (as, s2)" by fastforce
  obtain ls s3 where 2: "kread n s2 = (ls, s3)" by fastforce
  have "kheld s3 = kheld s" "length as = n" "length ls = n"
    using kread_held [OF 1] kread_held [OF 2] by (auto simp: ksys_def)
  moreover have "dma_map_sg sgt n s = (min (nat (fst (ksys s))) n, zip (map of_nat as) (map of_nat ls), hold {#Dma_map sgt#} s3)"
    using False 1 2 by (simp add: dma_map_sg_def case_prod_beta)
  ultimately show ?thesis using False by (intro ok) auto
qed

definition pins_all :: "nat \<Rightarrow> kern \<Rightarrow> bool" where
  "pins_all npages s \<longleftrightarrow> kans s (kcalls s + 1) < 0 \<or> int npages \<le> kans s (kcalls s + 1)"

lemma get_user_pages_cases:
  assumes "kans s (kcalls s) < 0 \<or> int n \<le> kans s (kcalls s)"
  obtains (fail) r s1 where "get_user_pages n s = (r, replicate n 0, s1)" "r < 0" "kheld s1 = kheld s"
  | (ok) r ps s1 where "get_user_pages n s = (r, ps, s1)" "0 \<le> r" "length ps = n" "kheld s1 = kheld s + image_mset Page (mset ps)"
proof (cases "kans s (kcalls s) < 0")
  case True
  then show ?thesis by (intro fail [of "fst (ksys s)" "snd (ksys s)"]) (auto simp: get_user_pages_def ksys_def)
next
  case False
  obtain ps s2 where 1: "kread n (snd (ksys s)) = (ps, s2)" by fastforce
  have "kheld s2 = kheld s" "length ps = n" using kread_held [OF 1] by (auto simp: ksys_def)
  moreover have "min (nat (kans s (kcalls s))) n = n" using assms False by simp
  ultimately show ?thesis
    using False 1 by (intro ok [of "int n" ps "hold (image_mset Page (mset ps)) s2"]) (auto simp: get_user_pages_def ksys_def case_prod_beta)
qed

lemma drop_res_held: "kheld s = M + {#r#} \<Longrightarrow> \<exists>s1. drop_res r s = Some s1 \<and> kheld s1 = M"
  by (auto simp: drop_res_def)

lemma put_pages_held: "kheld s = M + image_mset Page (mset ps) \<Longrightarrow> \<exists>s1. put_pages ps s = Some s1 \<and> kheld s1 = M"
proof (induction ps arbitrary: s)
  case (Cons p ps)
  have "kheld s = (M + image_mset Page (mset ps)) + {#Page p#}" using Cons.prems by simp
  from drop_res_held [OF this] Cons.IH show ?case by auto
qed simp

definition pages_foot :: "nat list \<Rightarrow> addr \<Rightarrow> kres multiset" where
  "pages_foot ps pages = {#Kmem pages#} + image_mset Page (mset ps)"

definition sgt_foot :: "addr \<Rightarrow> nat list \<Rightarrow> addr \<Rightarrow> kres multiset" where
  "sgt_foot sgt ps pages = pages_foot ps pages + {#Kmem sgt#}"

definition table_foot :: "addr \<Rightarrow> nat list \<Rightarrow> addr \<Rightarrow> kres multiset" where
  "table_foot sgt ps pages = sgt_foot sgt ps pages + {#Sg_table sgt#}"

definition map_foot :: "addr \<Rightarrow> nat list \<Rightarrow> addr \<Rightarrow> kres multiset" where
  "map_foot sgt ps pages = table_foot sgt ps pages + {#Dma_map sgt#}"

lemma undo_pages_held: "kheld s = M + pages_foot ps pages \<Longrightarrow> \<exists>s1. undo_pages ps pages s = Some s1 \<and> kheld s1 = M"
  using put_pages_held [of s "M + {#Kmem pages#}" ps] drop_res_held [of _ M "Kmem pages"]
  by (fastforce simp: undo_pages_def pages_foot_def kfree_def add.assoc)

lemma undo_sgt_held: "kheld s = M + sgt_foot sgt ps pages \<Longrightarrow> \<exists>s1. undo_sgt sgt ps pages s = Some s1 \<and> kheld s1 = M"
  using drop_res_held [of s "M + pages_foot ps pages" "Kmem sgt"] undo_pages_held [of _ M ps pages]
  by (fastforce simp: undo_sgt_def sgt_foot_def kfree_def add.assoc)

lemma undo_table_held: "kheld s = M + table_foot sgt ps pages \<Longrightarrow> \<exists>s1. undo_table sgt ps pages s = Some s1 \<and> kheld s1 = M"
  using drop_res_held [of s "M + sgt_foot sgt ps pages" "Sg_table sgt"] undo_sgt_held [of _ M sgt ps pages]
  by (fastforce simp: undo_table_def table_foot_def sg_free_table_def add.assoc)

lemma undo_map_held: "kheld s = M + map_foot sgt ps pages \<Longrightarrow> \<exists>s1. undo_map sgt ps pages s = Some s1 \<and> kheld s1 = M"
  using drop_res_held [of s "M + table_foot sgt ps pages" "Dma_map sgt"] undo_table_held [of _ M sgt ps pages]
  by (fastforce simp: undo_map_def map_foot_def dma_unmap_sg_def add.assoc)

lemma sg_build_cases:
  assumes "ps \<noteq> []"
  obtains (fail) r sgl s1 where "sg_build b sgt ps off s = Some (r, sgl, s1)" "r < 0" "kheld s1 = kheld s"
  | (ok) sgl s1 where "sg_build b sgt ps off s = Some (0, sgl, s1)" "kheld s1 = kheld s + {#Sg_table sgt#}"
proof (cases b)
  case True
  show ?thesis
    by (cases rule: sg_alloc_table_cases [of sgt "length ps" s]) (use True in \<open>auto simp: sg_build_def intro: fail ok\<close>)
next
  case False
  show ?thesis
    by (cases rule: sg_alloc_table_cases [of sgt "chunks ps" s])
      (use False assms in \<open>auto simp: sg_build_def sg_alloc_table_from_pages_def intro: fail ok\<close>)
qed

definition area_foot :: "ixmap_dma_area \<Rightarrow> kres multiset" where
  "area_foot a = map_foot (area_sgt a) (area_page_list a) (area_pages a) + {#Kmem (area_self a)#}"

text \<open>The result of mapping, for what was held before: nothing has changed, or there is one more area.\<close>

definition dma_mapped :: "dma_adapter \<Rightarrow> u64 \<Rightarrow> kres multiset \<Rightarrow> u64 \<times> dma_adapter \<times> kern \<Rightarrow> bool" where
  "dma_mapped adapter sz M = (\<lambda>(r, ad, s'). \<exists>k a. ixmap_dma_area_whereto adapter r sz = Some k \<and>
     ad = adapter\<lparr>areas := insert_area k a (areas adapter)\<rparr> \<and>
     area_dma a = r \<and> area_size a = sz \<and> area_refcount a = 1 \<and> kheld s' = M + area_foot a)"

definition dma_result :: "dma_adapter \<Rightarrow> u64 \<Rightarrow> kres multiset \<Rightarrow> (u64 \<times> dma_adapter \<times> kern) option \<Rightarrow> bool" where
  "dma_result adapter sz M x \<longleftrightarrow> (\<exists>r ad s'. x = Some (r, ad, s') \<and>
     (r = 0 \<and> ad = adapter \<and> kheld s' = M \<or> dma_mapped adapter sz M (r, ad, s')))"

lemma dma_map_fails: "\<exists>s1. y = Some s1 \<and> kheld s1 = M \<Longrightarrow> dma_result adapter sz M (dma_map_fail adapter y)"
  by (auto simp: dma_map_fail_def dma_result_def)

lemma dma_map_segs_law:
  assumes "kheld s = M + map_foot sgt ps pages"
  shows "dma_result adapter sz M (dma_map_segs adapter sz sgt ps pages n segs s)"
proof -
  note u = dma_map_fails [OF undo_map_held [OF assms]]
  show ?thesis
  proof (cases "contiguous n segs")
    case c: True
    show ?thesis
    proof (cases "ixmap_dma_area_whereto adapter (fst (segs ! 0)) sz")
      case None
      then show ?thesis using u c by (simp add: dma_map_segs_def)
    next
      case k: (Some k)
      show ?thesis
      proof (cases rule: kzalloc_cases [of s])
        case 1: (fail s1)
        have "kheld s1 = M + map_foot sgt ps pages" by (simp add: 1 assms)
        from dma_map_fails [OF undo_map_held [OF this]] show ?thesis using c k 1 by (simp add: dma_map_segs_def)
      next
        case 1: (ok a s1)
        then show ?thesis using c k assms by (simp add: dma_map_segs_def dma_result_def dma_mapped_def area_foot_def Let_def) force
      qed
    qed
  qed (use u in \<open>simp add: dma_map_segs_def\<close>)
qed

lemma dma_map_sgt_law:
  assumes "kheld s = M + sgt_foot sgt ps pages" "ps \<noteq> []"
  shows "dma_result adapter sz M (dma_map_sgt b adapter sz off sgt ps pages s)"
proof (cases rule: sg_build_cases [OF assms(2), of b sgt off s])
  case 1: (1 r sgl s1)
  have "kheld s1 = M + sgt_foot sgt ps pages" by (simp add: 1 assms)
  from dma_map_fails [OF undo_sgt_held [OF this]] show ?thesis using 1 by (simp add: dma_map_sgt_def)
next
  case 1: (2 sgl s1)
  have h: "kheld s1 = M + table_foot sgt ps pages" by (simp add: 1 assms table_foot_def)
  show ?thesis
  proof (cases rule: dma_map_sg_cases [of sgt "length sgl" s1])
    case 2: (fail s2)
    have "kheld s2 = M + table_foot sgt ps pages" by (simp add: 2 h)
    from dma_map_fails [OF undo_table_held [OF this]] show ?thesis using 1 2 by (simp add: dma_map_sgt_def)
  next
    case 2: (ok n segs s2)
    have "kheld s2 = M + map_foot sgt ps pages" by (simp add: 2 h map_foot_def)
    from dma_map_segs_law [OF this] show ?thesis using 1 2 by (simp add: dma_map_sgt_def)
  qed
qed

lemma kmod_dma_map_law:
  assumes "pins_all (user_pages av sz) s" "user_pages av sz \<noteq> 0"
  shows "dma_result adapter sz (kheld s) (kmod_dma_map b adapter av sz s)"
proof (cases rule: kzalloc_cases [of s])
  case 1: (fail s1)
  then show ?thesis by (simp add: kmod_dma_map_def dma_map_fails)
next
  case 1: (ok pages s1)
  have pin: "kans s1 (kcalls s1) < 0 \<or> int (user_pages av sz) \<le> kans s1 (kcalls s1)" using assms(1) 1(3,4) by (simp add: pins_all_def)
  show ?thesis
  proof (cases rule: get_user_pages_cases [OF pin])
    case 2: (1 r s2)
    have "\<exists>s3. kfree pages s2 = Some s3 \<and> kheld s3 = kheld s" unfolding kfree_def by (rule drop_res_held) (simp add: 1 2)
    from dma_map_fails [OF this] show ?thesis using 1 2 by (simp add: kmod_dma_map_def)
  next
    case 2: (2 r ps s2)
    have h: "kheld s2 = kheld s + pages_foot ps pages" by (simp add: 1 2 pages_foot_def)
    show ?thesis
    proof (cases rule: kzalloc_cases [of s2])
      case 3: (fail s3)
      have "kheld s3 = kheld s + pages_foot ps pages" by (simp add: 3 h)
      from dma_map_fails [OF undo_pages_held [OF this]] show ?thesis using 1 2 3 by (simp add: kmod_dma_map_def)
    next
      case 3: (ok sgt s3)
      have "kheld s3 = kheld s + sgt_foot sgt ps pages" "ps \<noteq> []" using 2(3) assms(2) by (auto simp: 3 h sgt_foot_def)
      from dma_map_sgt_law [OF this] show ?thesis using 1 2 3 by (simp add: kmod_dma_map_def)
    qed
  qed
qed

section \<open>Where an area goes\<close>

definition area_start :: "ixmap_dma_area \<Rightarrow> nat" where "area_start a = unat (area_dma a)"
definition area_end :: "ixmap_dma_area \<Rightarrow> nat" where "area_end a = unat (area_dma a) + unat (area_size a)"

definition area_ok :: "ixmap_dma_area \<Rightarrow> bool" where
  "area_ok a \<longleftrightarrow> area_size a \<noteq> 0 \<and> area_end a < 2 ^ 64"

definition areas_ok :: "ixmap_dma_area list \<Rightarrow> bool" where
  "areas_ok as \<longleftrightarrow> list_all area_ok as \<and> sorted_wrt (\<lambda>a b. area_end a \<le> area_start b) as"

text \<open>\<open>b\<close> lies strictly inside \<open>a\<close>.\<close>

definition inside :: "ixmap_dma_area \<Rightarrow> ixmap_dma_area \<Rightarrow> bool" where
  "inside b a \<longleftrightarrow> area_start a < area_start b \<and> area_end b < area_end a"

lemma area_ok_word: "area_ok a \<Longrightarrow> unat (area_dma a + area_size a) = area_end a"
  by (simp add: area_ok_def area_end_def unat_word_ariths)

lemma area_ok_lt: "area_ok a \<Longrightarrow> area_start a < area_end a"
  by (simp add: area_ok_def area_end_def area_start_def unat_gt_0)

text \<open>The areas passed are not after the new one; the first one that is not passed is.\<close>

lemma whereto_split:
  assumes "whereto (area_dma n) (area_dma n + area_size n) k as = Some k'" "list_all area_ok (n # as)"
  shows "\<exists>xs ys. as = xs @ ys \<and> k' = k + length xs \<and> (\<forall>a \<in> set xs. area_end a \<le> area_start n \<or> inside a n) \<and>
    (ys \<noteq> [] \<longrightarrow> area_end n \<le> area_start (hd ys))"
  using assms
proof (induction as arbitrary: k)
  case (Cons a as)
  have e: "unat (area_dma n + area_size n) = area_end n" "unat (area_dma a + area_size a) = area_end a" using Cons.prems(2) by (simp_all add: area_ok_word)
  note u = word_le_nat_alt word_less_nat_alt e area_start_def [symmetric]
  show ?case
  proof (cases "area_end n \<le> area_start a")
    case True
    then show ?thesis using Cons.prems(1) by (intro exI [of _ "[]"] exI [of _ "a # as"]) (simp add: u)
  next
    case False
    have p: "area_end a \<le> area_start n \<or> inside a n" and w: "whereto (area_dma n) (area_dma n + area_size n) (k + 1) as = Some k'"
      using Cons.prems(1) False by (auto simp: Let_def u inside_def not_less not_le split: if_splits)
    obtain xs ys where "as = xs @ ys" "k' = k + 1 + length xs" "\<forall>a \<in> set xs. area_end a \<le> area_start n \<or> inside a n"
        "ys \<noteq> [] \<longrightarrow> area_end n \<le> area_start (hd ys)"
      using Cons.IH [OF w] Cons.prems(2) by auto
    then show ?thesis using p by (intro exI [of _ "a # xs"] exI [of _ ys]) simp
  qed
qed simp

lemma insert_area_ok:
  assumes "ixmap_dma_area_whereto adapter (area_dma n) (area_size n) = Some k" "areas_ok (areas adapter)" "area_ok n"
  shows "areas_ok (insert_area k n (areas adapter)) \<longleftrightarrow> \<not> (\<exists>b \<in> set (areas adapter). inside b n)"
proof -
  obtain xs ys where s: "areas adapter = xs @ ys" "k = length xs" "\<forall>a \<in> set xs. area_end a \<le> area_start n \<or> inside a n"
      "ys \<noteq> [] \<longrightarrow> area_end n \<le> area_start (hd ys)"
    using whereto_split [of n 0 "areas adapter" k] assms unfolding ixmap_dma_area_whereto_def areas_ok_def by auto
  have ok: "list_all area_ok xs" "list_all area_ok ys" "sorted_wrt (\<lambda>a b. area_end a \<le> area_start b) ys"
    using assms(2) by (auto simp: s(1) areas_ok_def sorted_wrt_append)
  have after: "area_end n \<le> area_start b" if "b \<in> set ys" for b
  proof (cases ys)
    case (Cons y zs)
    then show ?thesis using that ok(2,3) s(4) area_ok_lt [of y] by fastforce
  qed (use that in simp)
  have i: "insert_area k n (areas adapter) = xs @ n # ys" by (simp add: s insert_area_def)
  have "areas_ok (xs @ n # ys) \<longleftrightarrow> (\<forall>a \<in> set xs. area_end a \<le> area_start n)"
    using assms(2,3) after by (auto simp: areas_ok_def s(1) sorted_wrt_append)
  also have "\<dots> \<longleftrightarrow> \<not> (\<exists>b \<in> set xs. inside b n)"
    using s(3) ok(1) area_ok_lt unfolding list_all_iff inside_def by (meson leD less_le_trans less_trans)
  also have "\<dots> \<longleftrightarrow> \<not> (\<exists>b \<in> set (areas adapter). inside b n)"
    using after area_ok_lt ok(2) unfolding s(1) list_all_iff inside_def by (auto, meson leD less_le_trans less_trans)
  finally show ?thesis unfolding i .
qed

text \<open>No area that the list has starts where the new one does.\<close>

lemma whereto_fresh:
  assumes "ixmap_dma_area_whereto adapter (area_dma n) (area_size n) = Some k" "areas_ok (areas adapter)" "area_ok n" "b \<in> set (areas adapter)"
  shows "area_dma b \<noteq> area_dma n"
proof
  assume "area_dma b = area_dma n"
  then have e: "area_start b = area_start n" by (simp add: area_start_def)
  obtain xs ys where s: "areas adapter = xs @ ys" "\<forall>a \<in> set xs. area_end a \<le> area_start n \<or> inside a n"
      "ys \<noteq> [] \<longrightarrow> area_end n \<le> area_start (hd ys)"
    using whereto_split [of n 0 "areas adapter" k] assms(1-3) unfolding ixmap_dma_area_whereto_def areas_ok_def by auto
  have b: "area_start b < area_end b" using assms(2,4) by (auto simp: areas_ok_def list_all_iff intro: area_ok_lt)
  show False
  proof (cases "b \<in> set xs")
    case True
    then show ?thesis using s(2) b e by (auto simp: inside_def)
  next
    case False
    then have "b \<in> set ys" using assms(4) s(1) by simp
    then obtain y zs where y: "ys = y # zs" by (cases ys) auto
    have "area_start y \<le> area_start b"
      using \<open>b \<in> set ys\<close> assms(2) area_ok_lt [of y] unfolding y s(1) areas_ok_def by (auto simp: sorted_wrt_append)
    then show False using s(3) y e area_ok_lt [OF assms(3)] by simp
  qed
qed

section \<open>Giving an area back\<close>

definition foot_of :: "dma_adapter \<Rightarrow> ixmap_dma_area \<Rightarrow> kres multiset" where
  "foot_of adapter a = (if area_refcount a \<noteq> 1 then {#Kmem (area_self a)#} else if area_dma a = iobase adapter then {#Io (hw_addr adapter), Kmem (area_self a)#} else area_foot a)"

lemma area_free_law:
  assumes "kheld s = M + foot_of adapter a"
  shows "\<exists>s1. ixmap_dma_area_free adapter a s = Some s1 \<and> kheld s1 = M"
proof -
  consider (shared) "area_refcount a \<noteq> 1" | (io) "area_refcount a = 1" "area_dma a = iobase adapter"
    | (user) "area_refcount a = 1" "area_dma a \<noteq> iobase adapter"
    by blast
  then show ?thesis
  proof cases
    case shared
    then show ?thesis using assms drop_res_held [of s M "Kmem (area_self a)"] by (simp add: ixmap_dma_area_free_def kfree_def foot_of_def)
  next
    case io
    have "kheld s = (M + {#Kmem (area_self a)#}) + {#Io (hw_addr adapter)#}" using assms io by (simp add: foot_of_def)
    from drop_res_held [OF this] obtain s1 where "iounmap (hw_addr adapter) s = Some s1" "kheld s1 = M + {#Kmem (area_self a)#}"
      by (auto simp: iounmap_def)
    with drop_res_held [OF this(2)] show ?thesis using io by (simp add: ixmap_dma_area_free_def kfree_def)
  next
    case user
    have "kheld s = (M + {#Kmem (area_self a)#}) + map_foot (area_sgt a) (area_page_list a) (area_pages a)"
      using assms user by (simp add: foot_of_def area_foot_def ac_simps)
    from undo_map_held [OF this] obtain s1 where 1: "undo_map (area_sgt a) (area_page_list a) (area_pages a) s = Some s1" "kheld s1 = M + {#Kmem (area_self a)#}"
      by blast
    have "ixmap_dma_area_free adapter a s = do { s1 \<leftarrow> undo_map (area_sgt a) (area_page_list a) (area_pages a) s; kfree (area_self a) s1 }"
      using user by (simp add: ixmap_dma_area_free_def undo_map_def undo_table_def undo_sgt_def undo_pages_def)
    with drop_res_held [OF 1(2)] 1(1) show ?thesis by (simp add: kfree_def)
  qed
qed

interpretation dma_areas: held_rel kheld "ixmap_dma_area_free adapter" "foot_of adapter" for adapter
  using area_free_law by unfold_locales blast

lemma ixmap_dma_unmap_all_law:
  assumes "kheld s = M + (\<Sum>a \<leftarrow> areas adapter. foot_of adapter a)"
  shows "\<exists>s1. ixmap_dma_unmap_all adapter s = Some (adapter\<lparr>areas := []\<rparr>, s1) \<and> kheld s1 = M"
  using dma_areas.release_all_law [OF assms] by (auto simp: ixmap_dma_unmap_all_def)

lemma ixmap_dma_map_iobase_law:
  "\<exists>r ad s'. ixmap_dma_map_iobase adapter s = Some (r, ad, s') \<and>
     (case r of None \<Rightarrow> ad = adapter \<and> kheld s' = kheld s
      | Some hw \<Rightarrow> \<exists>k a. ad = adapter\<lparr>areas := insert_area k a (areas adapter)\<rparr> \<and> area_dma a = iobase adapter \<and> area_size a = iolen adapter \<and>
          area_refcount a = 1 \<and> kheld s' = kheld s + foot_of (adapter\<lparr>hw_addr := hw\<rparr>) a)"
proof (cases rule: ioremap_cases [of s])
  case 1: (fail s1)
  then show ?thesis by (simp add: ixmap_dma_map_iobase_def)
next
  case 1: (ok hw s1)
  have u: "\<exists>s2. iounmap hw t = Some s2 \<and> kheld s2 = kheld s" if "kheld t = kheld s1" for t
    unfolding iounmap_def by (rule drop_res_held) (simp add: 1 that)
  show ?thesis
  proof (cases "ixmap_dma_area_whereto adapter (iobase adapter) (iolen adapter)")
    case None
    then show ?thesis using u [of s1] 1 by (auto simp: ixmap_dma_map_iobase_def)
  next
    case k: (Some k)
    show ?thesis
    proof (cases rule: kzalloc_cases [of s1])
      case 2: (fail s2)
      then show ?thesis using u [of s2] 1 k by (auto simp: ixmap_dma_map_iobase_def)
    next
      case 2: (ok a s2)
      then show ?thesis using 1 k by (simp add: ixmap_dma_map_iobase_def foot_of_def Let_def add_mset_commute) force
    qed
  qed
qed

lemma find_skip: "\<forall>x \<in> set xs. \<not> P x \<Longrightarrow> find P (xs @ ys) = find P ys"
  by (induction xs) auto

lemma map_unmap_law:
  assumes "dma_mapped adapter sz M (r, ad, s')" "areas_ok (areas adapter)" "iobase adapter \<in> area_dma ` set (areas adapter)"
    and "sz \<noteq> 0" "unat r + unat sz < 2 ^ 64"
  shows "\<exists>s''. kmod_dma_unmap ad r s' = Some (0, adapter, s'') \<and> kheld s'' = M"
proof -
  obtain k a where a: "ixmap_dma_area_whereto adapter (area_dma a) (area_size a) = Some k" "ad = adapter\<lparr>areas := insert_area k a (areas adapter)\<rparr>"
      "area_dma a = r" "area_size a = sz" "area_refcount a = 1" "kheld s' = M + area_foot a"
    using assms(1) by (auto simp: dma_mapped_def)
  have ok: "area_ok a" using assms(4,5) a(3,4) by (simp add: area_ok_def area_end_def)
  have fresh: "area_dma b \<noteq> r" if "b \<in> set (areas adapter)" for b using whereto_fresh [OF a(1) assms(2) ok that] a(3) by simp
  have nt: "b \<notin> set (take k (areas adapter))" if "area_dma b = r" for b using fresh that by (metis in_set_takeD)
  have f: "find (\<lambda>a. area_dma a = r) (take k (areas adapter) @ a # drop k (areas adapter)) = Some a"
    using nt a(3) by (subst find_skip) auto
  obtain b where "b \<in> set (areas adapter)" "iobase adapter = area_dma b" using assms(3) by (rule imageE) simp
  then have "iobase adapter \<noteq> r" using fresh by simp
  then have "kheld s' = M + foot_of ad a" using a(2,3,5,6) by (simp add: foot_of_def)
  from area_free_law [OF this] obtain s'' where "ixmap_dma_area_free ad a s' = Some s''" "kheld s'' = M" by blast
  moreover have "remove1 a (insert_area k a (areas adapter)) = areas adapter" using nt [OF a(3)] by (simp add: insert_area_def remove1_append)
  ultimately show ?thesis using a(2) f by (simp add: kmod_dma_unmap_def ixmap_dma_area_lookup_def insert_area_def)
qed

section \<open>The scatter list\<close>

lemma run_length_pos: "ps \<noteq> [] \<Longrightarrow> 0 < run_length ps \<and> run_length ps \<le> length ps"
  by (induction ps rule: run_length.induct) auto

lemma run_length_run: "i < run_length ps \<Longrightarrow> ps ! i = hd ps + i"
proof (induction ps arbitrary: i rule: run_length.induct)
  case (3 p q ps)
  then show ?case by (cases i) (auto split: if_splits)
qed auto

text \<open>The number of chunks counts the runs, so that the loop of \<open>sg_alloc_table_from_pages\<close> ends with the last page.\<close>

fun run_count :: "nat list \<Rightarrow> nat" where
  "run_count [] = 1"
| "run_count [p] = 1"
| "run_count (p # q # ps) = (if q \<noteq> p + 1 then 1 else 0) + run_count (q # ps)"

lemma chunks_run_count: "chunks ps = run_count ps"
proof (induction ps rule: run_count.induct)
  case (3 p q ps)
  have "[1..<length (p # q # ps)] = 1 # map Suc [1..<length (q # ps)]" by (simp add: upt_conv_Cons map_Suc_upt del: upt_Suc)
  moreover have "filter (\<lambda>i. (p # q # ps) ! Suc i \<noteq> (p # q # ps) ! (Suc i - 1) + 1) [1..<length (q # ps)] =
      filter (\<lambda>i. (q # ps) ! i \<noteq> (q # ps) ! (i - 1) + 1) [1..<length (q # ps)]"
    by (intro filter_cong refl) (auto simp: nth_Cons simp del: upt_Suc split: nat.split)
  ultimately have "chunks (p # q # ps) = (if q \<noteq> p + 1 then 1 else 0) + chunks (q # ps)"
    by (cases "q = p + 1") (simp_all add: chunks_def filter_map comp_def del: upt_Suc)
  then show ?case using 3 by simp
qed (simp_all add: chunks_def)

lemma run_count_drop: "ps \<noteq> [] \<Longrightarrow> run_count ps = (if run_length ps = length ps then 1 else 1 + run_count (drop (run_length ps) ps))"
  by (induction ps rule: run_length.induct) auto

definition sg_frames :: "sg_entry \<Rightarrow> nat list" where
  "sg_frames e = [sg_page e..<sg_page e + (unat (sg_offset e) + unat (sg_length e)) div 4096]"

text \<open>The list covers the pages in order, without the bytes before the offset in the first one.\<close>

lemma sg_chunks_cover:
  assumes "ps \<noteq> []" "length ps < 2 ^ 20" "unat off < 4096" "4096 * length ps \<le> unat sz" "n = run_count ps"
  shows "concat (map sg_frames (sg_chunks n ps off sz)) = ps \<and> (\<Sum>e \<leftarrow> sg_chunks n ps off sz. unat (sg_length e)) + unat off = 4096 * length ps"
  using assms
proof (induction n arbitrary: ps off sz)
  case 0
  then show ?case using run_count_drop [of ps] by (simp split: if_splits)
next
  case (Suc n)
  define j where "j = run_length ps"
  have j: "0 < j" "j \<le> length ps" using run_length_pos [OF Suc.prems(1)] by (simp_all add: j_def)
  define c where "c = ucast (push_bit PAGE_SHIFT (of_nat j :: u32)) - off"
  have "unat (of_nat j :: u32) = j" using j(2) Suc.prems(2) by (simp add: unat_of_nat)
  then have "unat (push_bit PAGE_SHIFT (of_nat j :: u32)) = 4096 * j"
    using j(2) Suc.prems(2) unfolding unsigned_push_bit_eq by (simp add: push_bit_eq_mult take_bit_eq_mod PAGE_SHIFT_def)
  then have "unat (ucast (push_bit PAGE_SHIFT (of_nat j :: u32)) :: u64) = 4096 * j"
    using j(2) Suc.prems(2) by (simp add: unsigned_ucast_eq take_bit_eq_mod)
  moreover have "off \<le> ucast (push_bit PAGE_SHIFT (of_nat j :: u32))"
    unfolding word_le_nat_alt calculation using Suc.prems(3) j(1) by simp
  ultimately have c: "unat c = 4096 * j - unat off" unfolding c_def by (simp add: unat_sub)
  have c_le: "unat c \<le> 4096 * length ps" using c j(2) by simp
  then have "c \<le> sz" using Suc.prems(4) by (simp add: word_le_nat_alt)
  then have m: "min sz c = c" by (simp add: min_absorb2)
  have c32: "unat (ucast c :: u32) = unat c" "unat (ucast off :: u32) = unat off"
    using c_le Suc.prems(2,3) by (simp_all add: unsigned_ucast_eq take_bit_eq_mod)
  define e where "e = \<lparr>sg_page = hd ps, sg_length = ucast c :: u32, sg_offset = ucast off :: u32\<rparr>"
  have es: "sg_chunks (Suc n) ps off sz = e # sg_chunks n (drop j ps) 0 (sz - c)"
    by (simp add: Let_def j_def [symmetric] c_def [symmetric] m e_def)
  have le: "unat off \<le> 4096 * j" using Suc.prems(3) j(1) by simp
  have fr: "sg_frames e = take j ps"
  proof (rule nth_equalityI)
    show "length (sg_frames e) = length (take j ps)" using le j(2) by (simp add: sg_frames_def e_def c32 c)
    show "sg_frames e ! i = take j ps ! i" if "i < length (sg_frames e)" for i
      using that le run_length_run [of i ps] by (simp add: sg_frames_def e_def c32 c j_def)
  qed
  have len: "unat (sg_length e) + unat off = 4096 * j" using le by (simp add: e_def c32 c)
  show ?case
  proof (cases "j = length ps")
    case True
    then have "n = 0" using Suc.prems(5) run_count_drop [OF Suc.prems(1)] by (simp add: j_def)
    then show ?thesis unfolding es using fr len True by simp
  next
    case False
    then have n: "n = run_count (drop j ps)" using Suc.prems(5) run_count_drop [OF Suc.prems(1)] by (simp add: j_def)
    have "unat (sz - c) = unat sz - unat c" using \<open>c \<le> sz\<close> by (rule unat_sub)
    then have "4096 * length (drop j ps) \<le> unat (sz - c)" using c Suc.prems(4) le j(2) by (simp add: algebra_simps)
    moreover have "drop j ps \<noteq> []" "length (drop j ps) < 2 ^ 20" using False j(2) Suc.prems(2) by simp_all
    ultimately have ih: "concat (map sg_frames (sg_chunks n (drop j ps) 0 (sz - c))) = drop j ps"
        "(\<Sum>e \<leftarrow> sg_chunks n (drop j ps) 0 (sz - c). unat (sg_length e)) + unat (0 :: u64) = 4096 * length (drop j ps)"
      using Suc.IH [of "drop j ps" 0 "sz - c"] n by simp_all
    show ?thesis unfolding es using fr len ih j(2) by (simp add: algebra_simps)
  qed
qed

section \<open>Mapping\<close>

text \<open>
  C16.  Let the areas of the adapter be sorted and disjoint, with the registers among them, and let the
  request be for at least one byte and one page.  When \<open>get_user_pages\<close> pins all pages or fails, \<open>ixmap_dma_map\<close>
  of the kernel module returns.  Either it returns 0 and has given back everything it took, or it returns the
  bus address of one more area, which it holds with its pages.  For an area below the end of the address
  space, unmapping that address restores the areas and what was held, and the areas stay sorted and disjoint
  exactly when no area that was there lies strictly inside the new one: such an area is not noticed.
\<close>

theorem kmod_dma_map_correct:
  assumes "areas_ok (areas adapter)" "iobase adapter \<in> area_dma ` set (areas adapter)"
    and "pins_all (user_pages av sz) s" "user_pages av sz \<noteq> 0" "sz \<noteq> 0"
  shows "\<exists>r ad s'. kmod_dma_map iommu adapter av sz s = Some (r, ad, s') \<and>
    (r = 0 \<and> ad = adapter \<and> kheld s' = kheld s \<or>
     (\<exists>a. mset (areas ad) = add_mset a (mset (areas adapter)) \<and> area_dma a = r \<and> area_size a = sz \<and> kheld s' = kheld s + area_foot a \<and>
        (unat r + unat sz < 2 ^ 64 \<longrightarrow>
           (areas_ok (areas ad) \<longleftrightarrow> \<not> (\<exists>b \<in> set (areas adapter). inside b a)) \<and>
           (\<exists>s''. kmod_dma_unmap ad r s' = Some (0, adapter, s'') \<and> kheld s'' = kheld s))))"
proof -
  obtain r ad s' where 1: "kmod_dma_map iommu adapter av sz s = Some (r, ad, s')"
      "r = 0 \<and> ad = adapter \<and> kheld s' = kheld s \<or> dma_mapped adapter sz (kheld s) (r, ad, s')"
    using kmod_dma_map_law [OF assms(3,4), of adapter iommu] unfolding dma_result_def by blast
  have "\<exists>a. mset (areas ad) = add_mset a (mset (areas adapter)) \<and> area_dma a = r \<and> area_size a = sz \<and> kheld s' = kheld s + area_foot a \<and>
        (unat r + unat sz < 2 ^ 64 \<longrightarrow>
           (areas_ok (areas ad) \<longleftrightarrow> \<not> (\<exists>b \<in> set (areas adapter). inside b a)) \<and>
           (\<exists>s''. kmod_dma_unmap ad r s' = Some (0, adapter, s'') \<and> kheld s'' = kheld s))" if m: "dma_mapped adapter sz (kheld s) (r, ad, s')"
  proof -
    obtain k a where a: "ixmap_dma_area_whereto adapter (area_dma a) (area_size a) = Some k" "ad = adapter\<lparr>areas := insert_area k a (areas adapter)\<rparr>"
        "area_dma a = r" "area_size a = sz" "kheld s' = kheld s + area_foot a"
      using m by (auto simp: dma_mapped_def)
    have "mset (take k (areas adapter)) + mset (drop k (areas adapter)) = mset (areas adapter)"
      unfolding mset_append [symmetric] append_take_drop_id ..
    then have "mset (areas ad) = add_mset a (mset (areas adapter))" by (simp add: a(2) insert_area_def)
    moreover have "areas_ok (areas ad) \<longleftrightarrow> \<not> (\<exists>b \<in> set (areas adapter). inside b a)" if "unat r + unat sz < 2 ^ 64"
      using insert_area_ok [OF a(1) assms(1)] that a(2-4) assms(5) by (simp add: area_ok_def area_end_def)
    ultimately show ?thesis using a(3-5) map_unmap_law [OF m assms(1,2,5)] by (intro exI [of _ a]) simp
  qed
  then show ?thesis using 1 by blast
qed

definition ex_io :: ixmap_dma_area where
  "ex_io = \<lparr>area_self = 9, area_refcount = 1, area_size = 0x1000, area_cache = 1, area_dma = 0x20000, area_pages = 0, area_page_list = [], area_sgt = 0\<rparr>"

definition ex_adapter :: dma_adapter where
  "ex_adapter = \<lparr>areas = [ex_io], iobase = 0x20000, iolen = 0x1000, hw_addr = 8\<rparr>"

definition ex_kern :: kern where
  "ex_kern = \<lparr>kheld = {#Io 8, Kmem 9#}, kans = (\<lambda>n. [1, 1, 7, 2, 0, 1, 0x7000, 0x1000, 3] ! n), kcalls = 0\<rparr>"

lemma ex_pages: "user_pages 0x5000 0x1000 = 1"
  by code_simp

lemma ex_areas: "areas_ok (areas ex_adapter)" "iobase ex_adapter \<in> area_dma ` set (areas ex_adapter)" "pins_all 1 ex_kern"
  by (simp_all add: ex_adapter_def ex_io_def areas_ok_def area_ok_def area_end_def ex_kern_def pins_all_def)

lemmas kern_ops = kzalloc_def ksys_def hold_def get_user_pages_def sg_build_def sg_alloc_table_def dma_map_sg_def
  dma_map_sgt_def dma_map_segs_def kmod_dma_map_def ixmap_dma_area_whereto_def contiguous_def Let_def

theorem kmod_dma_map_correct_witness:
  "areas_ok (areas ex_adapter) \<and> iobase ex_adapter \<in> area_dma ` set (areas ex_adapter) \<and>
   pins_all (user_pages 0x5000 0x1000) ex_kern \<and> user_pages 0x5000 0x1000 \<noteq> 0 \<and>
   (\<exists>ad s'. kmod_dma_map True ex_adapter 0x5000 0x1000 ex_kern = Some (0x7000, ad, s') \<and>
      (\<exists>s''. kmod_dma_unmap ad 0x7000 s' = Some (0, ex_adapter, s'') \<and> kheld s'' = kheld ex_kern))"
proof -
  have "map_option fst (kmod_dma_map True ex_adapter 0x5000 0x1000 ex_kern) = Some 0x7000"
    by (simp add: kern_ops ex_pages ex_adapter_def ex_io_def ex_kern_def)
  then obtain ad s' where "kmod_dma_map True ex_adapter 0x5000 0x1000 ex_kern = Some (0x7000, ad, s')" by auto
  then show ?thesis using kmod_dma_map_correct [OF ex_areas(1,2), of "0x5000" "0x1000" ex_kern True] ex_areas ex_pages by auto
qed

text \<open>An area that contains another one is put after it.\<close>

lemma containing_area_accepted:
  "ixmap_dma_area_whereto ex_adapter 0x1F000 0x3000 = Some 1 \<and> inside ex_io (ex_io\<lparr>area_dma := 0x1F000, area_size := 0x3000\<rparr>)"
  by (simp add: ex_adapter_def ex_io_def ixmap_dma_area_whereto_def inside_def area_start_def area_end_def)

text \<open>Unmapping the address of the registers is not refused: the kernel's own mapping of them is gone.\<close>

lemma unmap_registers:
  "map_option (\<lambda>(r, ad, s). (r, areas ad, kheld s)) (kmod_dma_unmap ex_adapter 0x20000 ex_kern) = Some (0, [], {#})"
  by (simp add: kmod_dma_unmap_def ixmap_dma_area_lookup_def ixmap_dma_area_free_def iounmap_def kfree_def drop_res_def
    ex_adapter_def ex_io_def ex_kern_def)

text \<open>When fewer pages are pinned than asked for, the error path gives back pages that are not held.\<close>

lemma short_pin_faults:
  "kmod_dma_map True ex_adapter 0x5000 0x2000 \<lparr>kheld = {#}, kans = (\<lambda>n. [1, 1, 7, 0] ! n), kcalls = 0\<rparr> = None"
proof -
  have "user_pages 0x5000 0x2000 = 2" by code_simp
  then show ?thesis
    by (simp add: kern_ops dma_map_fail_def undo_pages_def drop_res_def numeral_2_eq_2)
qed

end
