(* ===== verification/Kernel_Irq.thy ===== *)
theory Kernel_Irq
  imports Kernel_Dma Registers
begin

text \<open>
  The kernel module's side of the device file: the MSI-X interrupts of \<open>src/kmod/ixmap_main.c\<close>, bringing the
  card up and down, and the requests of \<open>src/kmod/ixmap_fops.c\<close>.  A pointer to a block that has been freed
  may be kept but not followed: reading through it has no result, as has reading outside an array.  The
  functions behind the pointers of \<open>hw->mac.ops\<close> are arbitrary programs on the registers.
\<close>

section \<open>Register programs\<close>

definition IXGBE_CTRL_EXT :: nat where "IXGBE_CTRL_EXT = 0x00018"
definition IXGBE_CTRL_EXT_DRV_LOAD :: u32 where "IXGBE_CTRL_EXT_DRV_LOAD = 0x10000000"
definition IXGBE_EICR :: nat where "IXGBE_EICR = 0x00800"
definition IXGBE_EIMC :: nat where "IXGBE_EIMC = 0x00888"
definition IXGBE_EIAC :: nat where "IXGBE_EIAC = 0x00810"
definition IXGBE_EIMC_EX :: "nat \<Rightarrow> nat" where "IXGBE_EIMC_EX i = 0x00AB0 + i * 4"
definition IXGBE_EIAM_EX :: "nat \<Rightarrow> nat" where "IXGBE_EIAM_EX i = 0x00AD0 + i * 4"
definition IXGBE_MAX_EITR :: u32 where "IXGBE_MAX_EITR = 0x00000FF8"
definition IXGBE_EITR :: "nat \<Rightarrow> nat" where "IXGBE_EITR i = (if i \<le> 23 then 0x00820 + i * 4 else 0x012300 + (i - 24) * 4)"
definition IXGBE_EITR_CNT_WDIS :: u32 where "IXGBE_EITR_CNT_WDIS = 0x80000000"
definition IXGBE_IVAR :: "nat \<Rightarrow> nat" where "IXGBE_IVAR i = 0x00900 + i * 4"
definition IXGBE_GPIE :: nat where "IXGBE_GPIE = 0x00898"
definition IXGBE_IVAR_ALLOC_VAL :: u8 where "IXGBE_IVAR_ALLOC_VAL = 0x80"
definition IXGBE_MFLCN :: nat where "IXGBE_MFLCN = 0x04294"
definition IXGBE_FCCFG :: nat where "IXGBE_FCCFG = 0x03D00"

definition ixmap_release_hw_control :: "unit prog" where
  "ixmap_release_hw_control = do {
     ctrl_ext \<leftarrow> ixmap_read_reg IXGBE_CTRL_EXT;
     ixmap_write_reg IXGBE_CTRL_EXT (ctrl_ext AND NOT IXGBE_CTRL_EXT_DRV_LOAD) }"

definition ixmap_take_hw_control :: "unit prog" where
  "ixmap_take_hw_control = do {
     ctrl_ext \<leftarrow> ixmap_read_reg IXGBE_CTRL_EXT;
     ixmap_write_reg IXGBE_CTRL_EXT (ctrl_ext OR IXGBE_CTRL_EXT_DRV_LOAD) }"

definition ixmap_write_eitr :: "u16 \<Rightarrow> nat \<Rightarrow> unit prog" where
  "ixmap_write_eitr rate vector = do {
     let itr_reg = ucast rate AND IXGBE_MAX_EITR;
     ixmap_write_reg (IXGBE_EITR vector) (itr_reg OR IXGBE_EITR_CNT_WDIS) }"

definition ivar_lane :: "nat \<Rightarrow> u8 \<Rightarrow> nat" where
  "ivar_lane direction queue = 16 * unat (queue AND 1) + 8 * direction"

definition ixmap_set_ivar :: "nat \<Rightarrow> u8 \<Rightarrow> u8 \<Rightarrow> unit prog" where
  "ixmap_set_ivar direction queue msix_vector = do {
     let mv = msix_vector OR IXGBE_IVAR_ALLOC_VAL;
     let i = ivar_lane direction queue;
     ivar0 \<leftarrow> ixmap_read_reg (IXGBE_IVAR (unat (drop_bit 1 queue)));
     let ivar1 = ivar0 AND NOT (push_bit i 0xFF);
     let ivar2 = ivar1 OR push_bit i (ucast mv);
     ixmap_write_reg (IXGBE_IVAR (unat (drop_bit 1 queue))) ivar2 }"

definition ixmap_setup_gpie :: "unit prog" where
  "ixmap_setup_gpie = do {
     _ \<leftarrow> ixmap_write_reg (IXGBE_EIAM_EX 0) 0xFFFFFFFF;
     _ \<leftarrow> ixmap_write_reg (IXGBE_EIAM_EX 1) 0xFFFFFFFF;
     _ \<leftarrow> ixmap_write_reg IXGBE_EIAC IXGBE_EIMS_RTX_QUEUE;
     ixmap_write_reg IXGBE_GPIE (0x00000010 OR 0x80000000 OR 0x00000020 OR 0x40000000) }"

definition ixmap_setup_fc :: "unit prog" where
  "ixmap_setup_fc = do {
     mflcn \<leftarrow> ixmap_read_reg IXGBE_MFLCN;
     fccfg \<leftarrow> ixmap_read_reg IXGBE_FCCFG;
     _ \<leftarrow> ixmap_write_reg IXGBE_MFLCN (mflcn AND NOT (0x00000FF4 OR 0x00000008) OR 0x00000002);
     ixmap_write_reg IXGBE_FCCFG (fccfg AND NOT (0x00000008 OR 0x00000010)) }"

definition down_regs :: "unit prog" where
  "down_regs = do {
     _ \<leftarrow> ixmap_write_reg IXGBE_EIMC 0xFFFF0000;
     _ \<leftarrow> ixmap_write_reg (IXGBE_EIMC_EX 0) (NOT 0);
     _ \<leftarrow> ixmap_write_reg (IXGBE_EIMC_EX 1) (NOT 0);
     ixmap_write_flush }"

definition down_tx :: "unit prog" where
  "down_tx = do {
     _ \<leftarrow> ixmap_write_reg (IXGBE_TXDCTL 0) IXGBE_TXDCTL_SWFLSH;
     dmatxctl \<leftarrow> ixmap_read_reg IXGBE_DMATXCTL;
     ixmap_write_reg IXGBE_DMATXCTL (dmatxctl AND NOT IXGBE_DMATXCTL_TE) }"

definition exec :: "'a prog \<Rightarrow> card \<Rightarrow> card" where
  "exec p c = snd (run_state p c)"

section \<open>The adapter\<close>

text \<open>A pointer to an array carries what the array held when it was last valid; an entry \<open>None\<close> is \<open>NULL\<close>.\<close>

record ixmap_irq =
  ki_self :: addr
  ki_efd :: "addr option"
  ki_entry :: nat

type_synonym irq_array = "(addr \<times> ixmap_irq option list) option"

record ixmap_adapter =
  ka_dma :: dma_adapter
  ka_up :: bool
  ka_refcount :: int
  ka_max_msix :: u16
  ka_msix :: "(addr \<times> nat list) option"
  ka_num_q_vectors :: u32
  ka_rx_irq :: irq_array
  ka_tx_irq :: irq_array
  ka_link_speed :: u16
  ka_link_duplex :: u16
  ka_rx_queues :: u32
  ka_tx_queues :: u32
  ka_interrupt_rate :: u16

record mac_ops =
  op_init_hw :: "int prog"
  op_disable_tx_laser :: "unit prog option"
  op_enable_tx_laser :: "unit prog option"
  op_setup_link :: "unit prog option"
  op_check_link :: "(u32 \<times> bool) prog option"

definition run_op :: "'a prog option \<Rightarrow> card \<Rightarrow> card" where
  "run_op p c = (case p of None \<Rightarrow> c | Some q \<Rightarrow> exec q c)"

definition kfree_ptr :: "addr option \<Rightarrow> kern \<Rightarrow> kern option" where
  "kfree_ptr p s = (case p of None \<Rightarrow> Some s | Some a \<Rightarrow> kfree a s)"

text \<open>Reading an entry of an array, and following the pointer found there.\<close>

definition rd_slot :: "irq_array \<Rightarrow> nat \<Rightarrow> kern \<Rightarrow> ixmap_irq option option" where
  "rd_slot arr i s =
     (case arr of None \<Rightarrow> None | Some (a, xs) \<Rightarrow> if Kmem a \<in># kheld s \<and> i < length xs then Some (xs ! i) else None)"

definition deref_irq :: "ixmap_irq option \<Rightarrow> kern \<Rightarrow> ixmap_irq option" where
  "deref_irq p s = (case p of None \<Rightarrow> None | Some irq \<Rightarrow> if Kmem (ki_self irq) \<in># kheld s then Some irq else None)"

definition vector_of :: "ixmap_adapter \<Rightarrow> nat \<Rightarrow> kern \<Rightarrow> nat option" where
  "vector_of ad i s =
     (case ka_msix ad of None \<Rightarrow> None | Some (a, vs) \<Rightarrow> if Kmem a \<in># kheld s \<and> i < length vs then Some (vs ! i) else None)"

section \<open>Interrupts\<close>

text \<open>\<open>eventfd_ctx_fdget\<close>, \<open>request_irq\<close>, \<open>pci_enable_msix\<close> (0, an error, or a smaller number to try) and \<open>pci_disable_msix\<close>.\<close>

definition eventfd_ctx_fdget :: "kern \<Rightarrow> addr option \<times> kern" where
  "eventfd_ctx_fdget s = (case ksys s of (r, s1) \<Rightarrow> if r \<le> 0 then (None, s1) else (Some (nat r), hold {#Efd (nat r)#} s1))"

definition put_efd :: "addr option \<Rightarrow> kern \<Rightarrow> kern option" where
  "put_efd p s = (case p of None \<Rightarrow> Some s | Some e \<Rightarrow> drop_res (Efd e) s)"

definition request_irq :: "nat \<Rightarrow> addr \<Rightarrow> kern \<Rightarrow> int \<times> kern" where
  "request_irq vector dev s = (case ksys s of (r, s1) \<Rightarrow> if r \<noteq> 0 then (r, s1) else (0, hold {#Irq vector dev#} s1))"

definition pci_enable_msix :: "nat \<Rightarrow> kern \<Rightarrow> int \<times> kern" where
  "pci_enable_msix n s = (case ksys s of (r, s1) \<Rightarrow> if r < 0 \<or> 0 < r \<and> r < int n then (r, s1) else (0, hold {#Msix#} s1))"

definition pci_disable_msix :: "kern \<Rightarrow> kern" where
  "pci_disable_msix s = s\<lparr>kheld := kheld s - {#Msix#}\<rparr>"

text \<open>The loop around \<open>pci_enable_msix\<close>: an error, or 0 and the number of vectors enabled in the end.\<close>

function enable_loop :: "nat \<Rightarrow> kern \<Rightarrow> int \<times> nat \<times> kern" where
  "enable_loop n s =
     (if n = 0 then (0, 0, s)
      else case pci_enable_msix n s of
        (r, s1) \<Rightarrow> if r < 0 then (r, n, s1) else if r = 0 then (0, n, s1) else enable_loop (nat r) s1)"
  by pat_completeness auto
termination
  by (relation "measure fst") (auto simp: pci_enable_msix_def ksys_def split: if_splits)

definition ixmap_irq_free :: "ixmap_irq \<Rightarrow> kern \<Rightarrow> kern option" where
  "ixmap_irq_free irq s = do { s1 \<leftarrow> put_efd (ki_efd irq) s; kfree (ki_self irq) s1 }"

text \<open>\<open>ixmap_irq_alloc\<close> and \<open>request_irq\<close> for a queue and a vector, with the registers of the queue.\<close>

definition msix_request :: "nat \<Rightarrow> nat list \<Rightarrow> u16 \<Rightarrow> nat \<times> nat \<Rightarrow> kern \<times> card \<Rightarrow> (ixmap_irq option \<times> (kern \<times> card)) option" where
  "msix_request direction vs rate x sc =
     (case x of (queue_idx, vector) \<Rightarrow> case sc of (s, c) \<Rightarrow>
      (case kzalloc s of
         (None, s1) \<Rightarrow> Some (None, (s1, c))
       | (Some a, s1) \<Rightarrow>
           (case request_irq (vs ! vector) a s1 of
              (err, s2) \<Rightarrow>
                if err \<noteq> 0 then do { s3 \<leftarrow> kfree a s2; Some (None, (s3, c)) }
                else let c1 = exec (ixmap_set_ivar direction (of_nat queue_idx) (of_nat vector)) c;
                         c2 = exec (ixmap_write_eitr rate vector) c1
                     in Some (Some \<lparr>ki_self = a, ki_efd = None, ki_entry = vector\<rparr>, (s2, c2)))))"

definition msix_undo_one :: "nat list \<Rightarrow> ixmap_irq \<Rightarrow> kern \<times> card \<Rightarrow> (kern \<times> card) option" where
  "msix_undo_one vs irq sc = (case sc of (s, c) \<Rightarrow> do {
     s1 \<leftarrow> drop_res (Irq (vs ! ki_entry irq) (ki_self irq)) s;
     s2 \<leftarrow> kfree (ki_self irq) s1;
     Some (s2, c) })"

text \<open>The error path from \<open>err_pci_enable_msix\<close> on.\<close>

definition msix_fail :: "ixmap_adapter \<Rightarrow> addr \<Rightarrow> kern \<times> card \<Rightarrow> (int \<times> ixmap_adapter \<times> kern \<times> card) option" where
  "msix_fail ad me sc = (case sc of (s, c) \<Rightarrow> do {
     s1 \<leftarrow> kfree me (pci_disable_msix s);
     Some (-1, ad\<lparr>ka_msix := None\<rparr>, s1, c) })"

definition irq_slots :: "nat \<Rightarrow> ixmap_irq list \<Rightarrow> ixmap_irq option list" where
  "irq_slots n irqs = map Some irqs @ replicate (n - length irqs) None"

text \<open>The loops over the receive and the transmit queues with their error path.\<close>

definition msix_queues ::
    "ixmap_adapter \<Rightarrow> addr \<Rightarrow> nat list \<Rightarrow> addr \<Rightarrow> addr \<Rightarrow> kern \<times> card \<Rightarrow> (int \<times> ixmap_adapter \<times> kern \<times> card) option" where
  "msix_queues ad me vs ra ta sc =
     (let nrx = unat (ka_rx_queues ad); ntx = unat (ka_tx_queues ad); rate = ka_interrupt_rate ad
      in do {
        (rx_ok, rxs, sc1) \<leftarrow> acquire_all (msix_request 0 vs rate) (map (\<lambda>i. (i, i)) [0..<nrx]) sc;
        (tx_ok, txs, sc2) \<leftarrow> (if rx_ok then acquire_all (msix_request 1 vs rate) (map (\<lambda>i. (i, nrx + i)) [0..<ntx]) sc1
                               else Some (False, [], sc1));
        let ad1 = ad\<lparr>ka_rx_irq := Some (ra, irq_slots nrx rxs), ka_tx_irq := Some (ta, irq_slots ntx txs)\<rparr>;
        (if tx_ok then Some (0, ad1, fst sc2, snd sc2)
         else do {
           sc3 \<leftarrow> for_each (msix_undo_one vs) txs sc2;
           sc4 \<leftarrow> for_each (msix_undo_one vs) rxs sc3;
           s5 \<leftarrow> kfree ta (fst sc4);
           s6 \<leftarrow> kfree ra s5;
           msix_fail ad1 me (s6, snd sc4) }) })"

text \<open>From the allocation of the two arrays on.\<close>

definition msix_arrays :: "ixmap_adapter \<Rightarrow> addr \<Rightarrow> nat list \<Rightarrow> kern \<times> card \<Rightarrow> (int \<times> ixmap_adapter \<times> kern \<times> card) option" where
  "msix_arrays ad me vs sc =
     (case sc of (s, c) \<Rightarrow>
      (case kzalloc s of
         (None, s1) \<Rightarrow> msix_fail (ad\<lparr>ka_rx_irq := None\<rparr>) me (s1, c)
       | (Some ra, s1) \<Rightarrow>
           (case kzalloc s1 of
              (None, s2) \<Rightarrow> do {
                s3 \<leftarrow> kfree ra s2;
                msix_fail (ad\<lparr>ka_rx_irq := Some (ra, irq_slots (unat (ka_rx_queues ad)) []), ka_tx_irq := None\<rparr>) me (s3, c) }
            | (Some ta, s2) \<Rightarrow> msix_queues ad me vs ra ta (s2, c))))"

definition ixmap_configure_msix :: "ixmap_adapter \<Rightarrow> kern \<Rightarrow> card \<Rightarrow> (int \<times> ixmap_adapter \<times> kern \<times> card) option" where
  "ixmap_configure_msix ad s c =
     (let vector_num = unat (ka_rx_queues ad + ka_tx_queues ad)
      in if vector_num > unat (ka_max_msix ad) then Some (-1, ad, s, c)
      else case kzalloc s of
        (None, s1) \<Rightarrow> Some (-1, ad\<lparr>ka_msix := None\<rparr>, s1, c)
      | (Some me, s1) \<Rightarrow>
          (case enable_loop vector_num s1 of
             (err, n, s2) \<Rightarrow>
               if err < 0 then msix_fail ad me (s2, c)
               else case kread n s2 of
                 (vs0, s3) \<Rightarrow>
                   let vs = vs0 @ replicate (vector_num - n) 0
                   in msix_arrays (ad\<lparr>ka_msix := Some (me, vs), ka_num_q_vectors := of_nat vector_num\<rparr>) me vs (s3, c)))"

definition free_queue :: "ixmap_adapter \<Rightarrow> irq_array \<Rightarrow> nat \<Rightarrow> kern \<Rightarrow> kern option" where
  "free_queue ad arr i s = do {
     p \<leftarrow> rd_slot arr i s;
     irq \<leftarrow> deref_irq p s;
     v \<leftarrow> vector_of ad (ki_entry irq) s;
     s1 \<leftarrow> drop_res (Irq v (ki_self irq)) s;
     ixmap_irq_free irq s1 }"

definition ixmap_free_msix :: "ixmap_adapter \<Rightarrow> kern \<Rightarrow> (ixmap_adapter \<times> kern) option" where
  "ixmap_free_msix ad s = do {
     s1 \<leftarrow> for_each (free_queue ad (ka_rx_irq ad)) [0..<unat (ka_rx_queues ad)] s;
     s2 \<leftarrow> for_each (free_queue ad (ka_tx_irq ad)) [0..<unat (ka_tx_queues ad)] s1;
     s3 \<leftarrow> kfree_ptr (map_option fst (ka_tx_irq ad)) s2;
     s4 \<leftarrow> kfree_ptr (map_option fst (ka_rx_irq ad)) s3;
     s5 \<leftarrow> kfree_ptr (map_option fst (ka_msix ad)) (pci_disable_msix s4);
     Some (ad\<lparr>ka_msix := None, ka_num_q_vectors := 0\<rparr>, s5) }"

definition EINVAL :: int where "EINVAL = 22"
definition EALREADY :: int where "EALREADY = 114"
definition EFAULT :: int where "EFAULT = 14"
definition EAGAIN :: int where "EAGAIN = 11"
definition EBUSY :: int where "EBUSY = 16"
definition EOVERFLOW :: int where "EOVERFLOW = 75"

text \<open>
  \<open>ixmap_irq_assign\<close>: the vector and the entry that it reports.  An index equal to the number of queues
  passes the test.
\<close>

definition irq_put :: "irq_array \<Rightarrow> nat \<Rightarrow> ixmap_irq \<Rightarrow> irq_array" where
  "irq_put arr i irq = map_option (\<lambda>(a, xs). (a, xs[i := Some irq])) arr"

definition ixmap_irq_assign :: "ixmap_adapter \<Rightarrow> int \<Rightarrow> u32 \<Rightarrow> kern \<Rightarrow> (int \<times> (nat \<times> nat) option \<times> ixmap_adapter \<times> kern) option" where
  "ixmap_irq_assign ad type queue_idx s =
     (if type \<noteq> 0 \<and> type \<noteq> 1 then Some (- EINVAL, None, ad, s)
      else let arr = (if type = 0 then ka_rx_irq ad else ka_tx_irq ad);
               n = (if type = 0 then ka_rx_queues ad else ka_tx_queues ad);
               i = unat queue_idx
        in if queue_idx > n then Some (- EINVAL, None, ad, s)
        else do {
          p \<leftarrow> rd_slot arr i s;
          (case eventfd_ctx_fdget s of
             (None, s1) \<Rightarrow> Some (- EINVAL, None, ad, s1)
           | (Some efd, s1) \<Rightarrow> do {
               irq \<leftarrow> deref_irq p s1;
               s2 \<leftarrow> put_efd (ki_efd irq) s1;
               v \<leftarrow> vector_of ad (ki_entry irq) s2;
               let arr1 = irq_put arr i (irq\<lparr>ki_efd := Some efd\<rparr>);
               Some (0, Some (v, ki_entry irq),
                     if type = 0 then ad\<lparr>ka_rx_irq := arr1\<rparr> else ad\<lparr>ka_tx_irq := arr1\<rparr>, s2) }) })"

text \<open>\<open>ixmap_interrupt\<close>: the event counter that is signalled.\<close>

definition ixmap_interrupt :: "ixmap_irq \<Rightarrow> addr option" where
  "ixmap_interrupt irq = ki_efd irq"

section \<open>Up and down\<close>

definition ixmap_up :: "mac_ops \<Rightarrow> ixmap_adapter \<Rightarrow> kern \<Rightarrow> card \<Rightarrow> (int \<times> ixmap_adapter \<times> kern \<times> card) option" where
  "ixmap_up ops ad s c = do {
     let c1 = exec ixmap_take_hw_control c;
     let c2 = exec ixmap_setup_gpie c1;
     (err, ad1, s1, c3) \<leftarrow> ixmap_configure_msix ad s c2;
     let c4 = run_op (op_enable_tx_laser ops) c3;
     let c5 = run_op (op_setup_link ops) c4;
     let c6 = exec ixmap_setup_fc c5;
     let c7 = exec (ixmap_read_reg IXGBE_EICR) c6;
     Some (0, ad1\<lparr>ka_up := True\<rparr>, s1, c7) }"

definition ixmap_reset :: "mac_ops \<Rightarrow> card \<Rightarrow> card" where
  "ixmap_reset ops c = exec (op_init_hw ops) c"

definition ixmap_down :: "mac_ops \<Rightarrow> ixmap_adapter \<Rightarrow> kern \<Rightarrow> card \<Rightarrow> (ixmap_adapter \<times> kern \<times> card) option" where
  "ixmap_down ops ad s c = do {
     let c1 = exec down_regs c;
     _ \<leftarrow> (if list_all (\<lambda>v. vector_of ad v s \<noteq> None) [0..<unat (ka_num_q_vectors ad)] then Some () else None);
     let c2 = exec down_tx c1;
     let (offline, s1) = ksys s;
     let c3 = (if offline \<noteq> 0 then c2 else ixmap_reset ops c2);
     let c4 = run_op (op_disable_tx_laser ops) c3;
     (ad1, s2) \<leftarrow> ixmap_free_msix ad s1;
     let c5 = exec ixmap_release_hw_control c4;
     Some (ad1\<lparr>ka_interrupt_rate := 0, ka_rx_queues := 0, ka_tx_queues := 0, ka_up := False\<rparr>, s2, c5) }"

section \<open>The requests on the device file\<close>

datatype kreply =
    No_reply
  | Info u64 u64 u16 u16 u32 u32 u32 u32 u32
  | Link u16 u16 u16
  | Mapped u64
  | Vector nat nat

type_synonym kresult = "int \<times> kreply \<times> ixmap_adapter \<times> kern \<times> card"

definition IXGBE_MAX_RSS_INDICES :: u32 where "IXGBE_MAX_RSS_INDICES = 16"

text \<open>
  The requests.  The answer to \<open>IXMAP_INFO\<close> is without the hardware address and the types of MAC and PHY, which
  the probe function reads from the card.  \<open>copy_from_user\<close> and \<open>copy_to_user\<close> fail when they return a
  number other than 0.
\<close>

definition copy_user :: "kern \<Rightarrow> bool \<times> kern" where
  "copy_user s = (case ksys s of (r, s1) \<Rightarrow> (r \<noteq> 0, s1))"

definition ixmap_cmd_up :: "mac_ops \<Rightarrow> ixmap_adapter \<Rightarrow> u16 \<Rightarrow> u32 \<Rightarrow> u32 \<Rightarrow> kern \<Rightarrow> card \<Rightarrow> kresult option" where
  "ixmap_cmd_up ops ad rate rx tx s c =
     (if ka_up ad then Some (- EALREADY, No_reply, ad, s, c)
      else case copy_user s of
        (fail, s1) \<Rightarrow>
          if fail then Some (- EFAULT, No_reply, ad, s1, c)
          else if ucast rate > IXGBE_MAX_EITR then Some (- EINVAL, No_reply, ad, s1, c)
          else if rx > IXGBE_MAX_RSS_INDICES then Some (- EINVAL, No_reply, ad, s1, c)
          else if tx > IXGBE_MAX_RSS_INDICES then Some (- EINVAL, No_reply, ad, s1, c)
          else do {
            (err, ad1, s2, c1) \<leftarrow> ixmap_up ops (ad\<lparr>ka_interrupt_rate := rate, ka_rx_queues := rx, ka_tx_queues := tx\<rparr>) s1 c;
            (if err \<noteq> 0 then do { (ad2, s3, c2) \<leftarrow> ixmap_down ops ad1 s2 c1; Some (err, No_reply, ad2, s3, c2) }
             else Some (0, No_reply, ad1, s2, c1)) })"

definition ixmap_cmd_down :: "mac_ops \<Rightarrow> ixmap_adapter \<Rightarrow> kern \<Rightarrow> card \<Rightarrow> kresult option" where
  "ixmap_cmd_down ops ad s c =
     (if \<not> ka_up ad then Some (- EALREADY, No_reply, ad, s, c)
      else do { (ad1, s1, c1) \<leftarrow> ixmap_down ops ad s c; Some (0, No_reply, ad1, s1, c1) })"

definition ixmap_cmd_reset :: "mac_ops \<Rightarrow> ixmap_adapter \<Rightarrow> kern \<Rightarrow> card \<Rightarrow> kresult option" where
  "ixmap_cmd_reset ops ad s c =
     (if \<not> ka_up ad then Some (0, No_reply, ad, s, c) else Some (0, No_reply, ad, s, ixmap_reset ops c))"

definition ixmap_cmd_check_link :: "mac_ops \<Rightarrow> ixmap_adapter \<Rightarrow> kern \<Rightarrow> card \<Rightarrow> kresult option" where
  "ixmap_cmd_check_link ops ad s c =
     (if \<not> ka_up ad then Some (- EAGAIN, No_reply, ad, s, c)
      else let (l, c1) = (case op_check_link ops of None \<Rightarrow> ((0x0080, True), c) | Some p \<Rightarrow> run_state p c);
               link_speed = fst l; link_up = snd l;
               was_up = (ka_link_speed ad \<noteq> 0);
               ad1 = (if link_up \<and> \<not> was_up then ad\<lparr>ka_link_speed := ucast link_speed, ka_link_duplex := 2\<rparr>
                      else if \<not> link_up \<and> was_up then ad\<lparr>ka_link_speed := 0, ka_link_duplex := 0\<rparr>
                      else ad);
               flush = (if \<not> link_up \<and> was_up then 1 else 0);
               (fail, s1) = copy_user s
        in if fail then Some (- EFAULT, No_reply, ad1, s1, c1)
           else Some (0, Link (ka_link_speed ad1) (ka_link_duplex ad1) flush, ad1, s1, c1))"

definition ixmap_cmd_info :: "ixmap_adapter \<Rightarrow> kern \<Rightarrow> card \<Rightarrow> kresult option" where
  "ixmap_cmd_info ad s c =
     (let (fail, s1) = copy_user s
      in if fail then Some (- EFAULT, No_reply, ad, s1, c)
         else Some (0,
               Info (iobase (ka_dma ad)) (iolen (ka_dma ad)) (ucast IXGBE_MAX_EITR) (ka_interrupt_rate ad)
                 (ka_rx_queues ad) (ka_tx_queues ad) IXGBE_MAX_RSS_INDICES IXGBE_MAX_RSS_INDICES (ucast (ka_max_msix ad)),
               ad, s1, c))"

definition ixmap_cmd_map :: "bool \<Rightarrow> ixmap_adapter \<Rightarrow> u64 \<Rightarrow> u64 \<Rightarrow> kern \<Rightarrow> card \<Rightarrow> kresult option" where
  "ixmap_cmd_map iommu ad addr_virtual sz s c =
     (case copy_user s of
        (fail, s1) \<Rightarrow>
          if fail then Some (- EFAULT, No_reply, ad, s1, c)
          else if sz = 0 then Some (- EINVAL, No_reply, ad, s1, c)
          else do {
            (addr_dma, d, s2) \<leftarrow> kmod_dma_map iommu (ka_dma ad) addr_virtual sz s1;
            (if addr_dma = 0 then Some (- EFAULT, No_reply, ad\<lparr>ka_dma := d\<rparr>, s2, c)
             else case copy_user s2 of
               (fail2, s3) \<Rightarrow>
                 if fail2 then do {
                   (r, d1, s4) \<leftarrow> kmod_dma_unmap d addr_dma s3;
                   Some (- EFAULT, No_reply, ad\<lparr>ka_dma := d1\<rparr>, s4, c) }
                 else Some (0, Mapped addr_dma, ad\<lparr>ka_dma := d\<rparr>, s3, c)) })"

definition ixmap_cmd_unmap :: "ixmap_adapter \<Rightarrow> u64 \<Rightarrow> kern \<Rightarrow> card \<Rightarrow> kresult option" where
  "ixmap_cmd_unmap ad addr_dma s c =
     (case copy_user s of
        (fail, s1) \<Rightarrow>
          if fail then Some (- EFAULT, No_reply, ad, s1, c)
          else do { (r, d, s2) \<leftarrow> kmod_dma_unmap (ka_dma ad) addr_dma s1; Some (r, No_reply, ad\<lparr>ka_dma := d\<rparr>, s2, c) })"

definition ixmap_cmd_irq :: "ixmap_adapter \<Rightarrow> int \<Rightarrow> u32 \<Rightarrow> kern \<Rightarrow> card \<Rightarrow> kresult option" where
  "ixmap_cmd_irq ad type queue_idx s c =
     (case copy_user s of
        (fail, s1) \<Rightarrow>
          if fail then Some (- EFAULT, No_reply, ad, s1, c)
          else do {
            (ret, v, ad1, s2) \<leftarrow> ixmap_irq_assign ad type queue_idx s1;
            (if ret \<noteq> 0 then Some (ret, No_reply, ad1, s2, c)
             else case copy_user s2 of
               (fail2, s3) \<Rightarrow>
                 if fail2 then Some (- EFAULT, No_reply, ad1, s3, c)
                 else Some (0, (case v of None \<Rightarrow> No_reply | Some (vec, entry) \<Rightarrow> Vector vec entry), ad1, s3, c)) })"

datatype kreq =
    K_INFO
  | K_UP u16 u32 u32
  | K_MAP u64 u64
  | K_UNMAP u64
  | K_DOWN
  | K_RESET
  | K_CHECK_LINK
  | K_IRQ int u32
  | K_OTHER

definition ixmap_ioctl :: "mac_ops \<Rightarrow> bool \<Rightarrow> ixmap_adapter \<Rightarrow> kreq \<Rightarrow> kern \<Rightarrow> card \<Rightarrow> kresult option" where
  "ixmap_ioctl ops iommu ad cmd s c =
     (case cmd of
        K_INFO \<Rightarrow> ixmap_cmd_info ad s c
      | K_UP rate rx tx \<Rightarrow> ixmap_cmd_up ops ad rate rx tx s c
      | K_MAP a n \<Rightarrow> ixmap_cmd_map iommu ad a n s c
      | K_UNMAP d \<Rightarrow> ixmap_cmd_unmap ad d s c
      | K_DOWN \<Rightarrow> ixmap_cmd_down ops ad s c
      | K_RESET \<Rightarrow> ixmap_cmd_reset ops ad s c
      | K_CHECK_LINK \<Rightarrow> ixmap_cmd_check_link ops ad s c
      | K_IRQ type q \<Rightarrow> ixmap_cmd_irq ad type q s c
      | K_OTHER \<Rightarrow> Some (- EINVAL, No_reply, ad, s, c))"

text \<open>
  Opening, closing and mapping the device file; one process at a time may have it open.  Of \<open>ixmap_mmap\<close> only the
  result is modelled, not the caching attributes of the pages.
\<close>

definition ixmap_adapter_inuse :: "ixmap_adapter \<Rightarrow> bool" where
  "ixmap_adapter_inuse ad \<longleftrightarrow> ka_refcount ad \<noteq> 1"

definition kmod_open :: "ixmap_adapter \<Rightarrow> int \<times> ixmap_adapter" where
  "kmod_open ad = (if ixmap_adapter_inuse ad then (- EBUSY, ad) else (0, ad\<lparr>ka_refcount := ka_refcount ad + 1\<rparr>))"

definition kmod_close :: "mac_ops \<Rightarrow> ixmap_adapter \<Rightarrow> kern \<Rightarrow> card \<Rightarrow> (int \<times> ixmap_adapter \<times> kern \<times> card) option" where
  "kmod_close ops ad s c = do {
     (r, reply, ad1, s1, c1) \<leftarrow> ixmap_cmd_down ops ad s c;
     Some (0, ad1\<lparr>ka_refcount := ka_refcount ad1 - 1\<rparr>, s1, c1) }"

definition kmod_mmap :: "ixmap_adapter \<Rightarrow> u64 \<Rightarrow> u64 \<Rightarrow> kern \<Rightarrow> int \<times> kern" where
  "kmod_mmap ad sz offset s =
     (if offset \<noteq> 0 then (- EINVAL, s)
      else case ixmap_dma_area_lookup (ka_dma ad) (iobase (ka_dma ad)) of
        None \<Rightarrow> (- ENOENT, s)
      | Some area \<Rightarrow>
          if area_size area \<noteq> sz then (- EOVERFLOW, s)
          else case ksys s of (r, s1) \<Rightarrow> if r \<noteq> 0 then (- EAGAIN, s1) else (0, s1))"

section \<open>What is held for the interrupts\<close>

lemma ksys_held [simp]: "kheld (snd (ksys s)) = kheld s"
  by (simp add: ksys_def)

lemma request_irq_cases:
  obtains (fail) r s1 where "request_irq v d s = (r, s1)" "r \<noteq> 0" "kheld s1 = kheld s"
  | (ok) s1 where "request_irq v d s = (0, s1)" "kheld s1 = kheld s + {#Irq v d#}"
proof (cases "fst (ksys s) = 0")
  case True
  then show ?thesis by (intro ok [of "hold {#Irq v d#} (snd (ksys s))"]) (auto simp: request_irq_def case_prod_beta)
next
  case False
  then show ?thesis by (intro fail [of "fst (ksys s)" "snd (ksys s)"]) (auto simp: request_irq_def case_prod_beta)
qed

declare enable_loop.simps [simp del]

lemma enable_loop_cases:
  assumes "0 < n"
  obtains (fail) r k s1 where "enable_loop n s = (r, k, s1)" "r < 0" "kheld s1 = kheld s"
  | (ok) k s1 where "enable_loop n s = (0, k, s1)" "k \<le> n" "kheld s1 = kheld s + {#Msix#}"
  using assms
proof (induction n s arbitrary: thesis rule: enable_loop.induct)
  case (1 n s)
  obtain r s1 where p: "pci_enable_msix n s = (r, s1)" by fastforce
  have e: "enable_loop n s = (if r < 0 then (r, n, s1) else if r = 0 then (0, n, s1) else enable_loop (nat r) s1)"
    using 1(4) by (subst enable_loop.simps) (simp add: p)
  consider "r < 0" | "r = 0" | "0 < r" by linarith
  then show ?case
  proof cases
    case a: 1
    have "kheld s1 = kheld s" using p a by (auto simp: pci_enable_msix_def ksys_def split: if_splits)
    then show ?thesis using e a by (intro 1(2) [of r n s1]) simp_all
  next
    case a: 2
    have "kheld s1 = kheld s + {#Msix#}" using p a by (auto simp: pci_enable_msix_def ksys_def split: if_splits)
    then show ?thesis using e a by (intro 1(3) [of n s1]) simp_all
  next
    case a: 3
    have h: "kheld s1 = kheld s" "nat r < n" using p a by (auto simp: pci_enable_msix_def ksys_def split: if_splits)
    have ne: "\<not> r < 0" "r \<noteq> 0" "0 < nat r" "n \<noteq> 0" using a 1(4) by auto
    show ?thesis
    proof (rule 1(1) [OF ne(4) p [symmetric] ne(1,2)])
      show thesis if "enable_loop (nat r) s1 = (r', k, s2)" "r' < 0" "kheld s2 = kheld s1" for r' k s2
        using e ne h that by (intro 1(2) [of r' k s2]) simp_all
      show thesis if "enable_loop (nat r) s1 = (0, k, s2)" "k \<le> nat r" "kheld s2 = kheld s1 + {#Msix#}" for k s2
        using e ne h that by (intro 1(3) [of k s2]) simp_all
    qed (rule ne(3))
  qed
qed

definition undo_foot :: "nat list \<Rightarrow> ixmap_irq \<Rightarrow> kres multiset" where
  "undo_foot vs irq = {#Irq (vs ! ki_entry irq) (ki_self irq), Kmem (ki_self irq)#}"

definition irq_foot_of :: "nat list \<Rightarrow> ixmap_irq \<Rightarrow> kres multiset" where
  "irq_foot_of vs irq = undo_foot vs irq + (case ki_efd irq of None \<Rightarrow> {#} | Some e \<Rightarrow> {#Efd e#})"

interpretation msix_irqs: held_op "\<lambda>sc. kheld (fst sc)" "msix_undo_one vs" "undo_foot vs" "\<lambda>_. True" "msix_request d vs rate" for vs d rate
proof
  fix sc :: "kern \<times> card" and M and h :: ixmap_irq
  assume "kheld (fst sc) = M + undo_foot vs h"
  then have "kheld (fst sc) = (M + {#Kmem (ki_self h)#}) + {#Irq (vs ! ki_entry h) (ki_self h)#}" by (simp add: undo_foot_def)
  from drop_res_held [OF this] obtain s1 where 1: "drop_res (Irq (vs ! ki_entry h) (ki_self h)) (fst sc) = Some s1" "kheld s1 = M + {#Kmem (ki_self h)#}"
    by blast
  from drop_res_held [OF 1(2)] 1(1) show "\<exists>sc'. msix_undo_one vs h sc = Some sc' \<and> kheld (fst sc') = M"
    by (auto simp: msix_undo_one_def kfree_def case_prod_beta)
next
  fix x :: "nat \<times> nat" and sc :: "kern \<times> card"
  obtain q v s c where x: "x = (q, v)" "sc = (s, c)" by fastforce
  show "\<exists>r sc'. msix_request d vs rate x sc = Some (r, sc') \<and> kheld (fst sc') = kheld (fst sc) + (case r of None \<Rightarrow> {#} | Some h \<Rightarrow> undo_foot vs h)"
  proof (cases rule: kzalloc_cases [of s])
    case 1: (fail s1)
    then show ?thesis by (simp add: msix_request_def x)
  next
    case 1: (ok a s1)
    show ?thesis
    proof (cases rule: request_irq_cases [of "vs ! v" a s1])
      case 2: (fail r s2)
      have "kheld s2 = kheld s + {#Kmem a#}" by (simp add: 1 2)
      from drop_res_held [OF this] show ?thesis using 1 2 by (auto simp: msix_request_def x kfree_def)
    next
      case 2: (ok s2)
      then show ?thesis using 1 by (simp add: msix_request_def x undo_foot_def Let_def add_mset_commute)
    qed
  qed
qed

lemma msix_request_entries:
  "acquire_all (msix_request d vs rate) xs sc = Some (ok, hs, sc') \<Longrightarrow> \<forall>h \<in> set hs. ki_efd h = None \<and> ki_entry h \<in> snd ` set xs"
proof (induction xs arbitrary: sc ok hs sc')
  case (Cons x xs)
  obtain r sc1 where r: "msix_request d vs rate x sc = Some (r, sc1)" using msix_irqs.acq_law [OF TrueI] by blast
  have h: "ki_efd h = None \<and> ki_entry h = snd x" if "r = Some h" for h
    using r that by (auto simp: msix_request_def case_prod_beta Let_def split: option.splits prod.splits if_splits Option.bind_splits)
  show ?case
  proof (cases r)
    case (Some x1)
    then obtain hs1 where "acquire_all (msix_request d vs rate) xs sc1 = Some (ok, hs1, sc')" "hs = x1 # hs1"
      using Cons.prems r by (auto split: Option.bind_splits)
    with Cons.IH [OF this(1)] h [OF Some] show ?thesis by auto
  qed (use Cons.prems r in auto)
qed simp

lemma pci_disable_held: "kheld s = M + {#Msix#} \<Longrightarrow> kheld (pci_disable_msix s) = M"
  by (simp add: pci_disable_msix_def)

text \<open>The error path gives back the table of the vectors, and MSI-X when it is enabled.\<close>

lemma msix_fail_law:
  assumes "kheld s = M + {#Kmem me#} + N" "N = {#Msix#} \<or> N = {#} \<and> Msix \<notin># M"
  shows "\<exists>s1. msix_fail ad me (s, c) = Some (-1, ad\<lparr>ka_msix := None\<rparr>, s1, c) \<and> kheld s1 = M"
proof -
  have "kheld (pci_disable_msix s) = M + {#Kmem me#}" using assms by (auto simp: pci_disable_msix_def diff_single_trivial)
  from drop_res_held [OF this] show ?thesis by (auto simp: msix_fail_def kfree_def)
qed

definition msix_ready :: "ixmap_adapter \<Rightarrow> addr \<Rightarrow> nat list \<Rightarrow> addr \<Rightarrow> ixmap_irq list \<Rightarrow> addr \<Rightarrow> ixmap_irq list \<Rightarrow> bool" where
  "msix_ready ad me vs ra rxs ta txs \<longleftrightarrow> ka_msix ad = Some (me, vs) \<and> length vs = unat (ka_num_q_vectors ad) \<and>
     ka_rx_irq ad = Some (ra, map Some rxs) \<and> length rxs = unat (ka_rx_queues ad) \<and>
     ka_tx_irq ad = Some (ta, map Some txs) \<and> length txs = unat (ka_tx_queues ad) \<and>
     (\<forall>irq \<in> set (rxs @ txs). ki_entry irq < length vs)"

definition msix_foot :: "addr \<Rightarrow> nat list \<Rightarrow> addr \<Rightarrow> ixmap_irq list \<Rightarrow> addr \<Rightarrow> ixmap_irq list \<Rightarrow> kres multiset" where
  "msix_foot me vs ra rxs ta txs = {#Msix, Kmem me, Kmem ra, Kmem ta#} + (\<Sum>irq \<leftarrow> rxs. irq_foot_of vs irq) + (\<Sum>irq \<leftarrow> txs. irq_foot_of vs irq)"

text \<open>What is left of the adapter when the interrupts could not be set up.\<close>

definition msix_failed :: "ixmap_adapter \<Rightarrow> kern \<Rightarrow> bool" where
  "msix_failed ad s \<longleftrightarrow> ka_msix ad = None \<and> (\<forall>a xs. ka_rx_irq ad = Some (a, xs) \<longrightarrow> Kmem a \<notin># kheld s)"

lemma undo_sum: "\<forall>h \<in> set hs. ki_efd h = None \<Longrightarrow> (\<Sum>h \<leftarrow> hs. undo_foot vs h) = (\<Sum>h \<leftarrow> hs. irq_foot_of vs h)"
  by (induction hs) (auto simp: irq_foot_of_def)

definition msix_result :: "ixmap_adapter \<Rightarrow> kres multiset \<Rightarrow> (int \<times> ixmap_adapter \<times> kern \<times> card) option \<Rightarrow> bool" where
  "msix_result ad M x \<longleftrightarrow> (\<exists>r ad1 s1 c1. x = Some (r, ad1, s1, c1) \<and> ka_rx_queues ad1 = ka_rx_queues ad \<and> ka_tx_queues ad1 = ka_tx_queues ad \<and>
    ((\<exists>me vs ra rxs ta txs. msix_ready ad1 me vs ra rxs ta txs \<and> kheld s1 = M + msix_foot me vs ra rxs ta txs) \<or> msix_failed ad1 s1 \<and> kheld s1 = M))"

lemma msix_resultI:
  assumes "x = Some (r, ad1, s1, c1)" "ka_rx_queues ad1 = ka_rx_queues ad" "ka_tx_queues ad1 = ka_tx_queues ad"
    and "msix_ready ad1 me vs ra rxs ta txs" "kheld s1 = M + msix_foot me vs ra rxs ta txs"
  shows "msix_result ad M x"
  unfolding msix_result_def using assms by blast

lemma msix_failed_same: "msix_failed ad s \<Longrightarrow> kheld s1 = kheld s \<Longrightarrow> msix_failed (ad\<lparr>ka_msix := None\<rparr>) s1"
  by (simp add: msix_failed_def)

lemma msix_fails:
  assumes "kheld s = M + {#Kmem me#} + N" "N = {#Msix#} \<or> N = {#} \<and> Msix \<notin># M"
    and "\<forall>a xs. ka_rx_irq ad1 = Some (a, xs) \<longrightarrow> Kmem a \<notin># M" "ka_rx_queues ad1 = ka_rx_queues ad" "ka_tx_queues ad1 = ka_tx_queues ad"
  shows "msix_result ad M (msix_fail ad1 me (s, c))"
proof -
  obtain s1 where "msix_fail ad1 me (s, c) = Some (-1, ad1\<lparr>ka_msix := None\<rparr>, s1, c)" "kheld s1 = M" using msix_fail_law [OF assms(1,2)] by blast
  then show ?thesis using assms(3-5) by (simp add: msix_result_def msix_failed_def)
qed

lemma msix_queues_law:
  fixes ad :: ixmap_adapter
  defines "nrx \<equiv> unat (ka_rx_queues ad)" and "ntx \<equiv> unat (ka_tx_queues ad)"
  assumes "kheld s = M + {#Msix, Kmem me, Kmem ra, Kmem ta#}" "ka_msix ad = Some (me, vs)" "length vs = nrx + ntx"
    and "unat (ka_num_q_vectors ad) = nrx + ntx" "Kmem ra \<notin># M"
  shows "msix_result ad M (msix_queues ad me vs ra ta (s, c))"
proof -
  let ?rq = "map (\<lambda>i. (i, i)) [0..<nrx]" and ?tq = "map (\<lambda>i. (i, nrx + i)) [0..<ntx]" and ?rate = "ka_interrupt_rate ad"
  obtain rx_ok rxs sc1 where 1: "acquire_all (msix_request 0 vs ?rate) ?rq (s, c) = Some (rx_ok, rxs, sc1)"
      "kheld (fst sc1) = kheld s + (\<Sum>h \<leftarrow> rxs. undo_foot vs h)" "rx_ok \<longleftrightarrow> length rxs = nrx"
    using msix_irqs.acquire_all_valid [of ?rq 0 vs ?rate "(s, c)"] by (auto simp: list_all_iff)
  have "\<exists>tx_ok txs sc2. (if rx_ok then acquire_all (msix_request 1 vs ?rate) ?tq sc1 else Some (False, [], sc1)) = Some (tx_ok, txs, sc2) \<and>
      kheld (fst sc2) = kheld (fst sc1) + (\<Sum>h \<leftarrow> txs. undo_foot vs h) \<and> (tx_ok \<longrightarrow> rx_ok \<and> length txs = ntx)"
    using msix_irqs.acquire_all_valid [of ?tq 1 vs ?rate sc1] by (cases rx_ok) (auto simp: list_all_iff)
  then obtain tx_ok txs sc2 where 2: "(if rx_ok then acquire_all (msix_request 1 vs ?rate) ?tq sc1 else Some (False, [], sc1)) = Some (tx_ok, txs, sc2)"
      "kheld (fst sc2) = kheld (fst sc1) + (\<Sum>h \<leftarrow> txs. undo_foot vs h)" "tx_ok \<longrightarrow> rx_ok \<and> length txs = ntx"
    by blast
  let ?ad = "ad\<lparr>ka_rx_irq := Some (ra, irq_slots nrx rxs), ka_tx_irq := Some (ta, irq_slots ntx txs)\<rparr>"
  have q: "msix_queues ad me vs ra ta (s, c) = (if tx_ok then Some (0, ?ad, fst sc2, snd sc2)
         else do {
           sc3 \<leftarrow> for_each (msix_undo_one vs) txs sc2;
           sc4 \<leftarrow> for_each (msix_undo_one vs) rxs sc3;
           s5 \<leftarrow> kfree ta (fst sc4);
           s6 \<leftarrow> kfree ra s5;
           msix_fail ?ad me (s6, snd sc4) })"
    unfolding msix_queues_def Let_def nrx_def [symmetric] ntx_def [symmetric] by (simp add: 1(1) 2(1))
  show ?thesis
  proof (cases tx_ok)
    case True
    have er: "\<forall>h \<in> set rxs. ki_efd h = None \<and> ki_entry h \<in> snd ` set ?rq" by (rule msix_request_entries [OF 1(1)])
    have et: "\<forall>h \<in> set txs. ki_efd h = None \<and> ki_entry h \<in> snd ` set ?tq"
      using 2(1,3) True by (intro msix_request_entries [of 1 vs ?rate ?tq sc1 tx_ok txs sc2]) simp
    have "msix_ready ?ad me vs ra rxs ta txs"
      using 1(3) 2(3) True assms(4,5,6) er et by (auto simp: msix_ready_def irq_slots_def nrx_def ntx_def)
    moreover have "kheld (fst sc2) = M + msix_foot me vs ra rxs ta txs"
      unfolding 2(2) 1(2) assms(3) msix_foot_def using er et by (simp add: undo_sum)
    ultimately show ?thesis unfolding q using True by (intro msix_resultI [of _ 0 ?ad "fst sc2" "snd sc2"]) simp_all
  next
    case False
    obtain sc3 where 3: "for_each (msix_undo_one vs) txs sc2 = Some sc3" "kheld (fst sc3) = kheld (fst sc1)"
      using msix_irqs.release_all_law [of sc2 "kheld (fst sc1)" vs txs] 2(2) by auto
    obtain sc4 where 4: "for_each (msix_undo_one vs) rxs sc3 = Some sc4" "kheld (fst sc4) = kheld s"
      using msix_irqs.release_all_law [of sc3 "kheld s" vs rxs] 3(2) 1(2) by auto
    have "kheld (fst sc4) = (M + {#Kmem me#} + {#Msix#} + {#Kmem ra#}) + {#Kmem ta#}" by (simp add: 4(2) assms(3))
    from drop_res_held [OF this] obtain s5 where 5: "kfree ta (fst sc4) = Some s5" "kheld s5 = M + {#Kmem me#} + {#Msix#} + {#Kmem ra#}"
      by (auto simp: kfree_def)
    from drop_res_held [OF 5(2)] obtain s6 where 6: "kfree ra s5 = Some s6" "kheld s6 = M + {#Kmem me#} + {#Msix#}"
      by (auto simp: kfree_def)
    have "msix_result ad M (msix_fail ?ad me (s6, snd sc4))"
      by (rule msix_fails [OF 6(2)]) (use assms(7) in simp_all)
    then show ?thesis unfolding q using False by (simp add: 3(1) 4(1) 5(1) 6(1))
  qed
qed

definition idle :: "ixmap_adapter \<Rightarrow> kern \<Rightarrow> bool" where
  "idle ad s \<longleftrightarrow> \<not> ka_up ad \<and> msix_failed ad s \<and> Msix \<notin># kheld s"

lemma msix_arrays_law:
  fixes ad :: ixmap_adapter
  defines "nrx \<equiv> unat (ka_rx_queues ad)" and "ntx \<equiv> unat (ka_tx_queues ad)"
  assumes "kheld s = M + {#Kmem me#} + {#Msix#}" "ka_msix ad = Some (me, vs)" "length vs = nrx + ntx" "unat (ka_num_q_vectors ad) = nrx + ntx"
  shows "msix_result ad M (msix_arrays ad me vs (s, c))"
proof (cases rule: kzalloc_cases [of s])
  case 1: (fail s1)
  have "kheld s1 = M + {#Kmem me#} + {#Msix#}" by (simp add: 1 assms(3))
  from msix_fails [OF this] show ?thesis using 1 by (simp add: msix_arrays_def)
next
  case 1: (ok ra s1)
  have fresh: "Kmem ra \<notin># M" using 1(5) by (simp add: assms(3))
  show ?thesis
  proof (cases rule: kzalloc_cases [of s1])
    case 2: (fail s2)
    have "kheld s2 = (M + {#Kmem me#} + {#Msix#}) + {#Kmem ra#}" by (simp add: 1 2 assms(3))
    from drop_res_held [OF this] obtain s3 where 3: "kfree ra s2 = Some s3" "kheld s3 = M + {#Kmem me#} + {#Msix#}"
      by (auto simp: kfree_def)
    have "msix_result ad M (msix_fail (ad\<lparr>ka_rx_irq := Some (ra, irq_slots nrx []), ka_tx_irq := None\<rparr>) me (s3, c))"
      by (rule msix_fails [OF 3(2)]) (use fresh in simp_all)
    then show ?thesis using 1 2 3(1) by (simp add: msix_arrays_def nrx_def)
  next
    case 2: (ok ta s2)
    have "kheld s2 = M + {#Msix, Kmem me, Kmem ra, Kmem ta#}" by (simp add: 1 2 assms(3))
    from msix_queues_law [OF this] show ?thesis using 1 2 assms(4-6) fresh by (simp add: msix_arrays_def nrx_def ntx_def)
  qed
qed

lemma ixmap_configure_msix_law:
  fixes ad :: ixmap_adapter
  defines "nrx \<equiv> unat (ka_rx_queues ad)" and "ntx \<equiv> unat (ka_tx_queues ad)"
  assumes "msix_failed ad s" "Msix \<notin># kheld s" "0 < nrx" "nrx \<le> 16" "ntx \<le> 16"
  shows "msix_result ad (kheld s) (ixmap_configure_msix ad s c)"
proof -
  let ?n = "unat (ka_rx_queues ad + ka_tx_queues ad)"
  have n: "?n = nrx + ntx" "0 < ?n" using assms(5-7) by (simp_all add: nrx_def ntx_def unat_word_ariths)
  have "msix_result ad (kheld s) (ixmap_configure_msix ad s c)" if small: "\<not> ?n > unat (ka_max_msix ad)"
  proof (cases rule: kzalloc_cases [of s])
    case 1: (fail s1)
    then show ?thesis using small msix_failed_same [OF assms(3) 1(2)] by (simp add: ixmap_configure_msix_def msix_result_def)
  next
    case 1: (ok me s1)
    show ?thesis
    proof (cases rule: enable_loop_cases [OF n(2), of s1])
      case 2: (1 r k s2)
      have "kheld s2 = kheld s + {#Kmem me#} + {#}" by (simp add: 1 2)
      from msix_fails [OF this, of ad ad c] assms(3,4) show ?thesis
        using small 1 2 by (simp add: ixmap_configure_msix_def msix_failed_def)
    next
      case 2: (2 k s2)
      obtain vs0 s3 where 3: "kread k s2 = (vs0, s3)" by fastforce
      define vs where "vs = vs0 @ replicate (?n - k) 0"
      let ?ad = "ad\<lparr>ka_msix := Some (me, vs), ka_num_q_vectors := of_nat ?n\<rparr>"
      have "kheld s3 = kheld s + {#Kmem me#} + {#Msix#}" "length vs = nrx + ntx" using kread_held [OF 3] 2(2) n(1) by (simp_all add: 1 2 vs_def)
      then have "msix_result ?ad (kheld s) (msix_arrays ?ad me vs (s3, c))"
        using n(1) by (intro msix_arrays_law) (simp_all add: nrx_def ntx_def)
      moreover have "ixmap_configure_msix ad s c = msix_arrays ?ad me vs (s3, c)"
        unfolding ixmap_configure_msix_def Let_def using small by (simp add: 1(1) 2(1) 3 vs_def)
      ultimately show ?thesis by (simp add: msix_result_def)
    qed
  qed
  then show ?thesis using assms(3) by (cases "?n > unat (ka_max_msix ad)") (simp_all add: ixmap_configure_msix_def msix_result_def)
qed

section \<open>Taking the interrupts down\<close>

lemma put_efd_law: "kheld s = M + (case p of None \<Rightarrow> {#} | Some e \<Rightarrow> {#Efd e#}) \<Longrightarrow> \<exists>s1. put_efd p s = Some s1 \<and> kheld s1 = M"
  using drop_res_held by (cases p) (auto simp: put_efd_def)

lemma free_queue_law:
  assumes "ka_msix ad = Some (me, vs)" "i < length hs" "ki_entry (hs ! i) < length vs" "Kmem a \<in># M" "Kmem me \<in># M"
    and "kheld s = M + irq_foot_of vs (hs ! i)"
  shows "\<exists>s1. free_queue ad (Some (a, map Some hs)) i s = Some s1 \<and> kheld s1 = M"
proof -
  let ?h = "hs ! i" and ?e = "case ki_efd (hs ! i) of None \<Rightarrow> {#} | Some e \<Rightarrow> {#Efd e#}"
  have h: "kheld s = (M + {#Kmem (ki_self ?h)#} + ?e) + {#Irq (vs ! ki_entry ?h) (ki_self ?h)#}"
    using assms(6) by (simp add: irq_foot_of_def undo_foot_def)
  from drop_res_held [OF h] obtain s1 where 1: "drop_res (Irq (vs ! ki_entry ?h) (ki_self ?h)) s = Some s1" "kheld s1 = M + {#Kmem (ki_self ?h)#} + ?e"
    by blast
  from put_efd_law [OF 1(2)] obtain s2 where 2: "put_efd (ki_efd ?h) s1 = Some s2" "kheld s2 = M + {#Kmem (ki_self ?h)#}" by blast
  from drop_res_held [OF 2(2)] obtain s3 where 3: "kfree (ki_self ?h) s2 = Some s3" "kheld s3 = M" by (auto simp: kfree_def)
  have "Kmem a \<in># kheld s" "Kmem me \<in># kheld s" "Kmem (ki_self ?h) \<in># kheld s" using assms(4,5) unfolding h by simp_all
  then show ?thesis
    using assms(1-3) 1(1) 2(1) 3 by (simp add: free_queue_def rd_slot_def deref_irq_def vector_of_def ixmap_irq_free_def)
qed

lemma free_queues_law:
  assumes "ka_msix ad = Some (me, vs)" "\<forall>h \<in> set hs. ki_entry h < length vs" "Kmem a \<in># M" "Kmem me \<in># M"
  shows "i \<le> length hs \<Longrightarrow> kheld s = M + (\<Sum>h \<leftarrow> drop i hs. irq_foot_of vs h) \<Longrightarrow>
    \<exists>s1. for_each (free_queue ad (Some (a, map Some hs))) [i..<length hs] s = Some s1 \<and> kheld s1 = M"
proof (induction "length hs - i" arbitrary: i s)
  case (Suc n)
  then have i: "i < length hs" "n = length hs - Suc i" by simp_all
  have d: "drop i hs = hs ! i # drop (Suc i) hs" "[i..<length hs] = i # [Suc i..<length hs]"
    using i(1) by (simp_all add: Cons_nth_drop_Suc upt_conv_Cons)
  let ?M = "M + (\<Sum>h \<leftarrow> drop (Suc i) hs. irq_foot_of vs h)"
  have "kheld s = ?M + irq_foot_of vs (hs ! i)" using Suc.prems(2) by (simp add: d(1) ac_simps)
  then obtain s1 where 1: "free_queue ad (Some (a, map Some hs)) i s = Some s1" "kheld s1 = ?M"
    using free_queue_law [of ad me vs i hs a ?M s] assms i(1) by auto
  from Suc.hyps(1) [OF i(2) _ 1(2)] i(1) 1(1) show ?case unfolding d(2) by auto
qed simp

lemma ixmap_free_msix_law:
  assumes r: "msix_ready ad me vs ra rxs ta txs" and h: "kheld s = M + msix_foot me vs ra rxs ta txs"
  shows "\<exists>s1. ixmap_free_msix ad s = Some (ad\<lparr>ka_msix := None, ka_num_q_vectors := 0\<rparr>, s1) \<and> kheld s1 = M"
proof -
  note r = r [unfolded msix_ready_def]
  let ?K = "M + {#Kmem me, Msix, Kmem ra, Kmem ta#}" and ?T = "\<Sum>h \<leftarrow> txs. irq_foot_of vs h"
  have h1: "kheld s = (?K + ?T) + (\<Sum>h \<leftarrow> drop 0 rxs. irq_foot_of vs h)" unfolding h msix_foot_def by (simp add: ac_simps)
  obtain s1 where 1: "for_each (free_queue ad (ka_rx_irq ad)) [0..<unat (ka_rx_queues ad)] s = Some s1" "kheld s1 = ?K + ?T"
    using free_queues_law [of ad me vs rxs ra "?K + ?T" 0 s, OF _ _ _ _ _ h1] r by auto
  have h2: "kheld s1 = ?K + (\<Sum>h \<leftarrow> drop 0 txs. irq_foot_of vs h)" using 1(2) by simp
  obtain s2 where 2: "for_each (free_queue ad (ka_tx_irq ad)) [0..<unat (ka_tx_queues ad)] s1 = Some s2" "kheld s2 = ?K"
    using free_queues_law [of ad me vs txs ta ?K 0 s1, OF _ _ _ _ _ h2] r by auto
  have "kheld s2 = (M + {#Kmem me#} + {#Msix#} + {#Kmem ra#}) + {#Kmem ta#}" using 2(2) by simp
  from drop_res_held [OF this] obtain s3 where 3: "kfree ta s2 = Some s3" "kheld s3 = M + {#Kmem me#} + {#Msix#} + {#Kmem ra#}" by (auto simp: kfree_def)
  from drop_res_held [OF 3(2)] obtain s4 where 4: "kfree ra s3 = Some s4" "kheld s4 = M + {#Kmem me#} + {#Msix#}" by (auto simp: kfree_def)
  from drop_res_held [OF pci_disable_held [OF 4(2)]] obtain s5 where 5: "kfree me (pci_disable_msix s4) = Some s5" "kheld s5 = M" by (auto simp: kfree_def)
  show ?thesis using r 1(1) 2(1) 3(1) 4(1) 5 by (simp add: ixmap_free_msix_def kfree_ptr_def)
qed

lemma ixmap_down_law:
  assumes r: "msix_ready ad me vs ra rxs ta txs" and h: "kheld s = M + msix_foot me vs ra rxs ta txs"
  shows "\<exists>ad1 s1 c1. ixmap_down ops ad s c = Some (ad1, s1, c1) \<and> \<not> ka_up ad1 \<and> kheld s1 = M"
proof -
  have "Kmem me \<in># kheld s" unfolding h msix_foot_def by simp
  then have "list_all (\<lambda>v. vector_of ad v s \<noteq> None) [0..<unat (ka_num_q_vectors ad)]"
    using r unfolding msix_ready_def by (simp add: list_all_iff vector_of_def)
  moreover have "kheld (snd (ksys s)) = M + msix_foot me vs ra rxs ta txs" using h by simp
  note ixmap_free_msix_law [OF r this]
  ultimately show ?thesis by (auto simp: ixmap_down_def case_prod_beta Let_def)
qed

text \<open>Without interrupts, the first vector or the first queue is read through a null or a dangling pointer.\<close>

lemma ixmap_down_faults:
  assumes "msix_failed ad s" "0 < unat (ka_rx_queues ad)"
  shows "ixmap_down ops ad s c = None"
proof -
  have "rd_slot (ka_rx_irq ad) 0 (snd (ksys s)) = None"
    using assms(1) by (auto simp: rd_slot_def msix_failed_def split: option.split)
  then have "ixmap_free_msix ad (snd (ksys s)) = None"
    using assms(2) by (simp add: ixmap_free_msix_def free_queue_def upt_conv_Cons)
  then show ?thesis by (simp add: ixmap_down_def case_prod_beta Let_def)
qed

text \<open>An index equal to the number of queues is not refused: the entry after the last one is read.\<close>

lemma ixmap_irq_assign_past_end:
  assumes "msix_ready ad me vs ra rxs ta txs"
  shows "ixmap_irq_assign ad 0 (ka_rx_queues ad) s = None" "ixmap_irq_assign ad 1 (ka_tx_queues ad) s = None"
  using assms unfolding msix_ready_def by (simp_all add: ixmap_irq_assign_def rd_slot_def)

section \<open>Bringing the card up\<close>

lemma ixmap_up_msix:
  assumes "ixmap_configure_msix ad s (exec ixmap_setup_gpie (exec ixmap_take_hw_control c)) = Some (r, ad1, s1, c1)"
  shows "\<exists>c2. ixmap_up ops ad s c = Some (0, ad1\<lparr>ka_up := True\<rparr>, s1, c2)"
  using assms by (simp add: ixmap_up_def Let_def)

lemma ka_up_set: "ka_up (ad\<lparr>ka_up := True\<rparr>)"
  by simp

text \<open>
  C24.  For every behaviour of the kernel, a request to bring a card up that is down and has no interrupts
  set up, with at least one receive queue, returns.  When it refuses, nothing has changed.  When it accepts, either the interrupts of all queues are
  set up, and taking the card down gives back everything that is held for them, or the set-up of the
  interrupts has failed without being reported: the card counts as up, nothing is held, and taking it down
  reads through a null or a dangling pointer.
\<close>

theorem ixmap_cmd_up_down:
  assumes "idle ad s" "0 < rx"
  shows "\<exists>r reply ad1 s1 c1. ixmap_cmd_up ops ad rate rx tx s c = Some (r, reply, ad1, s1, c1) \<and>
    (r \<noteq> 0 \<and> ad1 = ad \<and> kheld s1 = kheld s \<or>
     r = 0 \<and> ka_up ad1 \<and>
     ((\<exists>me vs ra rxs ta txs. msix_ready ad1 me vs ra rxs ta txs \<and> kheld s1 = kheld s + msix_foot me vs ra rxs ta txs) \<and>
      (\<exists>ad2 s2 c2. ixmap_down ops ad1 s1 c1 = Some (ad2, s2, c2) \<and> \<not> ka_up ad2 \<and> kheld s2 = kheld s) \<or>
      ka_msix ad1 = None \<and> kheld s1 = kheld s \<and> ixmap_down ops ad1 s1 c1 = None))"
proof -
  let ?s = "snd (copy_user s)" and ?ad = "ad\<lparr>ka_interrupt_rate := rate, ka_rx_queues := rx, ka_tx_queues := tx\<rparr>"
  have hs: "kheld ?s = kheld s" by (simp add: copy_user_def case_prod_beta)
  show ?thesis
  proof (cases "fst (copy_user s) \<or> ucast rate > IXGBE_MAX_EITR \<or> rx > IXGBE_MAX_RSS_INDICES \<or> tx > IXGBE_MAX_RSS_INDICES")
    case True
    then show ?thesis using assms(1) hs by (auto simp: ixmap_cmd_up_def idle_def case_prod_beta EFAULT_def EINVAL_def)
  next
    case ok: False
    have n: "0 < unat (ka_rx_queues ?ad)" "unat (ka_rx_queues ?ad) \<le> 16" "unat (ka_tx_queues ?ad) \<le> 16"
      using ok assms(2) by (simp_all add: word_less_nat_alt IXGBE_MAX_RSS_INDICES_def)
    have m: "msix_failed ?ad ?s" "Msix \<notin># kheld ?s" using assms(1) hs by (simp_all add: idle_def msix_failed_def)
    obtain r ad1 s1 c1 where 1: "ixmap_configure_msix ?ad ?s (exec ixmap_setup_gpie (exec ixmap_take_hw_control c)) = Some (r, ad1, s1, c1)"
        "ka_rx_queues ad1 = rx"
        "(\<exists>me vs ra rxs ta txs. msix_ready ad1 me vs ra rxs ta txs \<and> kheld s1 = kheld s + msix_foot me vs ra rxs ta txs) \<or> msix_failed ad1 s1 \<and> kheld s1 = kheld s"
      using ixmap_configure_msix_law [OF m n, of "exec ixmap_setup_gpie (exec ixmap_take_hw_control c)"]
      unfolding msix_result_def hs by (elim exE conjE) (rule that, assumption, simp_all)
    obtain c2 where "ixmap_up ops ?ad ?s c = Some (0, ad1\<lparr>ka_up := True\<rparr>, s1, c2)" using ixmap_up_msix [OF 1(1)] by blast
    then have up: "ixmap_cmd_up ops ad rate rx tx s c = Some (0, No_reply, ad1\<lparr>ka_up := True\<rparr>, s1, c2)"
      using ok assms(1) by (simp add: ixmap_cmd_up_def idle_def case_prod_beta)
    have ready: "msix_ready (ad1\<lparr>ka_up := True\<rparr>) = msix_ready ad1" by (intro ext) (simp add: msix_ready_def)
    show ?thesis
      using 1(3)
    proof (elim disjE exE conjE)
      fix me vs ra rxs ta txs
      assume a: "msix_ready ad1 me vs ra rxs ta txs" "kheld s1 = kheld s + msix_foot me vs ra rxs ta txs"
      have "msix_ready (ad1\<lparr>ka_up := True\<rparr>) me vs ra rxs ta txs" using a(1) by (simp add: ready)
      note this a(2) ixmap_down_law [OF this a(2), of ops c2]
      then show ?thesis
        by - ((rule exI)+, rule conjI, rule up, rule disjI2, rule conjI, rule refl, rule conjI, rule ka_up_set, rule disjI1, blast)
    next
      assume "msix_failed ad1 s1" "kheld s1 = kheld s"
      moreover from this(1) have "ixmap_down ops (ad1\<lparr>ka_up := True\<rparr>) s1 c2 = None"
        using 1(2) n(1) by (intro ixmap_down_faults) (simp_all add: msix_failed_def)
      ultimately show ?thesis using up by (simp add: msix_failed_def)
    qed
  qed
qed

definition ex_irq_kern :: kern where
  "ex_irq_kern = \<lparr>kheld = {#Kmem 9#}, kans = (\<lambda>n. [0, 100, 0, 40, 41, 101, 102, 103, 0, 104, 0, 1] ! n), kcalls = 0\<rparr>"

definition ex_irq_adapter :: ixmap_adapter where
  "ex_irq_adapter = \<lparr>ka_dma = ex_adapter, ka_up = False, ka_refcount = 1, ka_max_msix = 64, ka_msix = None, ka_num_q_vectors = 0,
     ka_rx_irq = None, ka_tx_irq = None, ka_link_speed = 0, ka_link_duplex = 0, ka_rx_queues = 0, ka_tx_queues = 0, ka_interrupt_rate = 0\<rparr>"

definition ex_ops :: mac_ops where
  "ex_ops = \<lparr>op_init_hw = State_Monad.return 0, op_disable_tx_laser = None, op_enable_tx_laser = None, op_setup_link = None, op_check_link = None\<rparr>"

lemma enable_loop_now: "n \<noteq> 0 \<Longrightarrow> pci_enable_msix n s = (0, s1) \<Longrightarrow> enable_loop n s = (0, n, s1)"
  by (subst enable_loop.simps) simp

lemma kread_2: "kread 2 s = (let (a, s1) = ksys s; (b, s2) = ksys s1 in ([nat a, nat b], s2))"
  by (simp add: numeral_2_eq_2 case_prod_beta)

lemma ex_enable:
  "enable_loop 2 (ex_irq_kern\<lparr>kheld := {#Kmem 100, Kmem 9#}, kcalls := 2\<rparr>) = (0, 2, ex_irq_kern\<lparr>kheld := {#Msix, Kmem 100, Kmem 9#}, kcalls := 3\<rparr>)"
  by (rule enable_loop_now) (simp_all add: pci_enable_msix_def ksys_def hold_def ex_irq_kern_def)

lemma ex_queues:
  "map_option (\<lambda>(r, ad, _). (r, ka_msix ad)) (msix_arrays (ex_irq_adapter\<lparr>ka_interrupt_rate := 8, ka_rx_queues := 1, ka_tx_queues := 1, ka_msix := Some (100, [40, 41]), ka_num_q_vectors := 2\<rparr>) 100 [40, 41]
     (ex_irq_kern\<lparr>kheld := {#Msix, Kmem 100, Kmem 9#}, kcalls := 5\<rparr>, c)) = Some (0, Some (100, [40, 41]))"
  by (simp add: msix_arrays_def msix_queues_def msix_request_def request_irq_def kzalloc_def ksys_def hold_def Let_def
      ex_irq_adapter_def ex_irq_kern_def upt_rec)

lemma ex_msix:
  "map_option (\<lambda>(r, ad, _). (r, ka_msix ad)) (ixmap_configure_msix (ex_irq_adapter\<lparr>ka_interrupt_rate := 8, ka_rx_queues := 1, ka_tx_queues := 1\<rparr>)
     (ex_irq_kern\<lparr>kcalls := 1\<rparr>) c) = Some (0, Some (100, [40, 41]))"
proof -
  have "kzalloc (ex_irq_kern\<lparr>kcalls := 1\<rparr>) = (Some 100, ex_irq_kern\<lparr>kheld := {#Kmem 100, Kmem 9#}, kcalls := 2\<rparr>)"
    by (simp add: kzalloc_def ksys_def hold_def ex_irq_kern_def)
  moreover have "kread 2 (ex_irq_kern\<lparr>kheld := {#Msix, Kmem 100, Kmem 9#}, kcalls := 3\<rparr>) = ([40, 41], ex_irq_kern\<lparr>kheld := {#Msix, Kmem 100, Kmem 9#}, kcalls := 5\<rparr>)"
    by (simp add: kread_2 ksys_def ex_irq_kern_def)
  moreover have "unat (1 + 1 :: u32) = 2" by simp
  ultimately show ?thesis
    using ex_queues [of c] by (simp add: ixmap_configure_msix_def ex_enable ex_irq_adapter_def Let_def del: enable_loop.simps)
qed

lemma ex_up:
  "map_option (\<lambda>(r, _, ad, _). (r, ka_msix ad)) (ixmap_cmd_up ex_ops ex_irq_adapter 8 1 1 ex_irq_kern c) = Some (0, Some (100, [40, 41]))"
proof -
  have "copy_user ex_irq_kern = (False, ex_irq_kern\<lparr>kcalls := 1\<rparr>)" by (simp add: copy_user_def ksys_def ex_irq_kern_def)
  moreover obtain r ad s1 c1 where
    "ixmap_configure_msix (ex_irq_adapter\<lparr>ka_interrupt_rate := 8, ka_rx_queues := 1, ka_tx_queues := 1\<rparr>) (ex_irq_kern\<lparr>kcalls := 1\<rparr>)
       (exec ixmap_setup_gpie (exec ixmap_take_hw_control c)) = Some (r, ad, s1, c1)" "ka_msix ad = Some (100, [40, 41])"
    using ex_msix [of "exec ixmap_setup_gpie (exec ixmap_take_hw_control c)"] by auto
  moreover from ixmap_up_msix [OF this(1), of ex_ops] obtain c2 where
    "ixmap_up ex_ops (ex_irq_adapter\<lparr>ka_interrupt_rate := 8, ka_rx_queues := 1, ka_tx_queues := 1\<rparr>) (ex_irq_kern\<lparr>kcalls := 1\<rparr>) c
       = Some (0, ad\<lparr>ka_up := True\<rparr>, s1, c2)" by blast
  moreover have "\<not> ka_up ex_irq_adapter" by (simp add: ex_irq_adapter_def)
  ultimately show ?thesis by (simp add: ixmap_cmd_up_def IXGBE_MAX_EITR_def IXGBE_MAX_RSS_INDICES_def)
qed

theorem ixmap_cmd_up_down_witness:
  "idle ex_irq_adapter ex_irq_kern \<and> (0 :: u32) < 1 \<and>
   (\<exists>reply ad1 s1 c1. ixmap_cmd_up ex_ops ex_irq_adapter 8 1 1 ex_irq_kern \<lparr>answers = (\<lambda>n. 0), nreads = 0, writes = []\<rparr> = Some (0, reply, ad1, s1, c1) \<and>
      (\<exists>ad2 s2 c2. ixmap_down ex_ops ad1 s1 c1 = Some (ad2, s2, c2) \<and> \<not> ka_up ad2 \<and> kheld s2 = kheld ex_irq_kern))"
proof -
  let ?c = "\<lparr>answers = (\<lambda>n. 0), nreads = 0, writes = []\<rparr>"
  have i: "idle ex_irq_adapter ex_irq_kern" "(0 :: u32) < 1"
    by (simp_all add: idle_def msix_failed_def ex_irq_adapter_def ex_irq_kern_def)
  from ex_up [of ?c] obtain reply ad1 s1 c1 where
    u: "ixmap_cmd_up ex_ops ex_irq_adapter 8 1 1 ex_irq_kern ?c = Some (0, reply, ad1, s1, c1)" "ka_msix ad1 \<noteq> None"
    by fastforce
  with ixmap_cmd_up_down [OF i, of ex_ops 8 1 ?c] have "\<exists>ad2 s2 c2. ixmap_down ex_ops ad1 s1 c1 = Some (ad2, s2, c2) \<and> \<not> ka_up ad2 \<and> kheld s2 = kheld ex_irq_kern"
    by (simp del: split_paired_Ex)
  with i u show ?thesis by blast
qed

end
