(* ===== verification/Spec2Isabelle.thy ===== *)
theory Spec2Isabelle
  imports List_H Device_Setup Thread Ring_Setup Kernel_Irq
begin

text \<open>
  Verification of ixmap, a packet forwarder that drives Intel 82599 network cards from user space.

  \<^bold>\<open>The program.\<close>  The application (\<open>src/src\<close>) starts one thread for each core.  A thread waits for events
  (\<open>thread.c\<close>, \<open>epoll.c\<close>), takes packets from the receive rings of its ports, decides where they go
  (\<open>forward.c\<close>) from its routing tables (\<open>fib.c\<close> over \<open>lpm.c\<close>) and its neighbour tables (\<open>neigh.c\<close> over
  \<open>hash.c\<close>), and puts them on a transmit ring or writes them to a TAP interface (\<open>iftap.c\<close>).  The tables
  follow the kernel through netlink messages (\<open>netlink.c\<close>).  The library (\<open>src/lib\<close>) has the rings and packet
  slots (\<open>driver.c\<close>), the memory from which the tables are allocated (\<open>memory.c\<close>), the set-up of cards, rings,
  buffers and interrupts (\<open>ixmap.c\<close>) and the registers of the card (\<open>rxinit.c\<close>, \<open>txinit.c\<close>).  The kernel
  module (\<open>src/kmod\<close>) gives the library access to the registers, to memory for DMA and to the interrupts of a
  card through a device file.

  \<^bold>\<open>How the code is modelled.\<close>  Unsigned integers are words of their width, so that they wrap around as in C;
  \<open>int\<close> results are integers.  Pointers and addresses are natural numbers.  A function that returns is
  \<open>Some\<close> of its result and of the state it leaves; \<open>None\<close> means that it does not return or that it follows an
  invalid pointer, uses an index outside of an array or releases what is not held, so that a theorem with
  \<open>Some\<close> in its conclusion excludes all of these.  Structures are records with the fields of the source,
  enumerations are datatypes.  Packet bytes are read from a total memory: accesses to the bytes of a packet
  and to the memory behind the pointers of \<open>ixmap_packet\<close> are not checked.  Locks, memory barriers, sleeping,
  prefetching and log messages are left out.

  \<^bold>\<open>Theories, in the order in which they build on each other.\<close>

  \<^item> \<open>Ixmap_Prelude\<close>: machine types, \<open>ALIGN\<close>, byte order, arrays, and the lemmas that all theories share.

  \<^item> \<open>Driver\<close> (\<open>src/lib/driver.c\<close>): \<open>ixmap_ring\<close>, \<open>ixmap_port\<close>, \<open>ixmap_plane\<close>, \<open>ixmap_buf\<close> and every function
    on them.  The ring is interpreted as a bounded queue (locale \<open>bounded_fifo\<close>), and C1 to C4 state what
    receiving, cleaning and transmitting do to the queue and to the slots on every branch.  C5: the fields of
    a transmit descriptor.  C6: the search for a free slot.  C7: the two addresses of a slot agree exactly
    for indices below 65536.

  \<^item> \<open>Slots\<close>: all operations of the driver and the steps of the card as a step relation.  C8: each slot in
    flight has exactly one owner, as long as the application hands over only slots that it holds.  The
    application does not keep to that, see C29.

  \<^item> \<open>List_H\<close> (\<open>src/src/linux/list.h\<close>): circular and hash lists over memory cells.  C9, C10: every sequence of
    insertions and removals refines the operations on lists (locale \<open>intrusive_list\<close>).  C11: splice and cut.

  \<^item> \<open>Memory\<close> (\<open>src/lib/memory.c\<close>): the buddy allocator as a tree.  libnuma is a function that tells which of
    its calls succeed.  C12 to C14: allocation and release, for requests that do not wrap around; that no
    call of libnuma fails is a hypothesis of C12 and C13 (\<open>numa_never_fails\<close>).  After such a failure the tree
    is not well formed and blocks can overlap (\<open>mem_alloc_overlap_after_numa_failure\<close>).  C15: a request whose
    size wraps around to 0 never returns.  The allocator interprets the locale \<open>allocator\<close>.

  \<^item> \<open>Heap\<close>: the memory of one thread, that is the allocator and the neighbour and route entries stored in it.
    Its invariant contains that no call of libnuma fails; it is part of the invariants of all tables below.

  \<^item> \<open>Hash\<close> (\<open>src/src/hash.c\<close>) and \<open>Neigh\<close> (\<open>src/src/neigh.c\<close>): C17 to C19, the neighbour table as a map
    from addresses to link addresses, with the blocks it takes and releases.  The two key functions interpret
    the locale \<open>hash_keys\<close>.

  \<^item> \<open>Lpm\<close>, \<open>Lpm_Tree\<close>, \<open>Lpm_Update\<close>, \<open>Lpm_Match\<close> (\<open>src/src/lpm.c\<close>) and \<open>Fib\<close> (\<open>src/src/fib.c\<close>): the table
    as a tree of arrays of nodes, the functions on it, what they do to the chains and to the memory in use
    for any objects with the contract \<open>lpm_client\<close>, and what a table means (\<open>lpm_routes\<close>).  C20 to C23:
    lookup is longest prefix match, update and deletion change exactly one route.  A route that cannot be
    stored completely is released twice (\<open>fib_route_update_double_free\<close>).

  \<^item> \<open>Os\<close>: the calls of the operating system.  The state has the multiset of what is held and a sequence of
    answers, so that a theorem about all states is one about all behaviours of the system.  The locales
    \<open>held_rel\<close>, \<open>held_op\<close>, \<open>resource_op_on\<close> and \<open>resource_op\<close> are the contract of operations that acquire and
    release, with the loops over them.

  \<^item> \<open>Iftap\<close> (\<open>src/src/iftap.c\<close>): C25, opening and closing TAP interfaces is balanced.

  \<^item> \<open>Device\<close>, \<open>Device_Setup\<close> (\<open>src/lib/ixmap.c\<close>): C31 to C35, rings and buffers are laid out without overlap,
    the driver starts in an initial state of C8, processor and queue masks, and what is held after every
    path.  The size \<open>hp\<close> of a huge page is a parameter: \<open>munmap\<close> of a huge page mapping refuses a length that
    is no multiple of it, and \<open>huge_left\<close> is what then stays mapped.

  \<^item> \<open>Registers\<close>, \<open>Ring_Setup\<close> (\<open>src/lib/rxinit.c\<close>, \<open>txinit.c\<close>, register access of \<open>ixmap.c\<close>): programs in the
    state monad over the answers of the card and the writes made to it.  C39, C40: what the card has been told,
    whatever it answers.  Polling loops have the iteration bounds of the source.

  \<^item> \<open>Forward\<close>, \<open>Forward_Run\<close> (\<open>src/src/forward.c\<close>): C26, C27, the decision and the new header of IPv4 and IPv6
    packets; C28, a batch of packets never leads to an invalid access; C29, the slot of a queued packet is
    released too early.  \<open>Forward_Run\<close> has the concrete thread of the witnesses.

  \<^item> \<open>Netlink\<close> (\<open>src/src/netlink.c\<close>): C30, on the bytes of the messages.

  \<^item> \<open>Epoll\<close>, \<open>Thread\<close> (\<open>src/src/epoll.c\<close>, \<open>thread.c\<close>): C36, a thread stops when the signal is reached; C37, the
    loop variable that is used twice can keep a thread in one event for ever; C38, what is registered with
    \<open>epoll_ctl\<close> and what is given back.

  \<^item> \<open>Kernel_Dma\<close> (\<open>src/kmod/ixmap_dma.c\<close>): C16, mapping and unmapping memory for DMA.  \<open>Kernel_Irq\<close>
    (\<open>src/kmod/ixmap_main.c\<close>, \<open>ixmap_fops.c\<close>): the requests of the device file; C24, bringing a card up and down.
    The kernel is, like the operating system in \<open>Os\<close>, a multiset of what is held and a sequence of answers.

  \<^bold>\<open>Bounds and fuel.\<close>  The recursion of the allocator has the fuel \<open>mem_fuel\<close> of 33 calls, one more than a 32-bit
  size can be halved; \<open>None\<close> is a recursion that goes deeper.  C12 shows that the fuel is enough for every
  request that does not wrap around, C15 that no fuel is enough for the others.  The event loop is a
  \<open>while_option\<close>, whose result \<open>None\<close> is a loop without end.  All other loops are structural or have a
  termination proof.

  \<^bold>\<open>Parameters.\<close>  Code outside of the sources appears as an argument or as an arbitrary answer: libnuma, the
  kernel, the values that the card returns from its registers, the functions behind \<open>hw->mac.ops\<close> of the
  kernel module, and the contents of fresh memory.

  \<^bold>\<open>Not modelled.\<close>  \<open>src/src/main.c\<close>: the command line, POSIX threads, signal masks and logging.  Probing and
  removing a card in \<open>src/kmod/ixmap_main.c\<close> and the hardware functions that it calls (\<open>ixmap_82599.c\<close>,
  \<open>ixmap_common.c\<close> except for \<open>ixmap_setup_fc\<close>, \<open>ixmap_phy.c\<close>, \<open>ixmap_eeprom.c\<close>): they are sequences of register
  accesses taken over from the driver of the manufacturer, whose purpose only the data sheet of the card
  describes.  The Python scripts under \<open>src/extra\<close> are separate programs.  Each thread is modelled alone: threads
  share nothing but the cards, on which each has its own rings.
\<close>

end
